(* ===== verification/Prelude.thy ===== *)
theory Prelude
  imports Main "HOL-Library.Word"
begin

unbundle bit_operations_syntax

text \<open>
  Shared vocabulary of the development: machine types, byte strings, the host's
  byte order, C++ input string streams, and two interfaces as locales
  (\<open>prefix_codec\<close> for self-delimiting encodings, \<open>transition_system\<close> for
  reachability arguments) that the components instantiate.

  A C++ \<^verbatim>\<open>char\<close>, \<^verbatim>\<open>uint8_t\<close> or \<^verbatim>\<open>unsigned char\<close> is one \<open>8 word\<close>; where the source
  compares a signed \<^verbatim>\<open>char\<close> the definitions read it with \<open>sint\<close>. \<^verbatim>\<open>std::string\<close>,
  \<^verbatim>\<open>std::string_view\<close> and \<^verbatim>\<open>std::vector<char>\<close> are all \<open>bytes\<close>. The target is a
  64-bit little-endian machine (\<^verbatim>\<open>size_t\<close> and \<^verbatim>\<open>long long\<close> have 64 bits).
\<close>

section \<open>Machine types\<close>

type_synonym byte = "8 word"
type_synonym bytes = "8 word list"
type_synonym u16 = "16 word"
type_synonym u32 = "32 word"
type_synonym u64 = "64 word"

named_theorems byte_order \<open>loads and stores of machine words as bytes\<close>
named_theorems stream_simps \<open>reads of an input string stream\<close>

lemma unat_bounds:
  "unat (b :: byte) < 256" "unat (h :: u16) < 2 ^ 16" "unat (w :: u32) < 2 ^ 32"
  by (rule order_less_le_trans [OF unsigned_less]; simp)+

text \<open>Character literals of the source as byte strings.\<close>

definition str :: "string \<Rightarrow> bytes" where
  "str s = map of_char s"

lemma str_Nil [simp]: "str [] = []"
  by (simp add: str_def)

lemma str_Cons [simp]: "str (c # cs) = of_char c # str cs"
  by (simp add: str_def)

lemma str_append: "str (s @ t) = str s @ str t"
  by (simp add: str_def)

lemma length_str [simp]: "length (str s) = length s"
  by (simp add: str_def)

text \<open>
  What a call that does not return normally does: it throws an exception of the
  component's own error type, or it runs into undefined behaviour of C++ (a read
  outside an object, a dereferenced empty optional, a division by zero).
\<close>

datatype 'e fault = Throw 'e | Undefined

text \<open>The next statement after one that may throw.\<close>

definition and_then :: "'e + 'a \<Rightarrow> ('a \<Rightarrow> 'e + 'b) \<Rightarrow> 'e + 'b" where
  "and_then x f = (case x of Inl e \<Rightarrow> Inl e | Inr a \<Rightarrow> f a)"

lemma and_then_simps [simp]:
  "and_then (Inr a) f = f a"
  "and_then (Inl e) f = Inl e"
  by (simp_all add: and_then_def)

lemma and_then_Inr: "and_then x f = Inr b \<longleftrightarrow> (\<exists>a. x = Inr a \<and> f a = Inr b)"
  by (cases x) simp_all

section \<open>Host byte order\<close>

text \<open>
  \<open>mem32 x\<close> is the memory image of a \<^verbatim>\<open>uint32_t\<close> on the little-endian host,
  \<open>load32\<close> reads one back. \<open>be32\<close> and \<open>load_be32\<close> are network order.
\<close>

definition mem32 :: "u32 \<Rightarrow> bytes" where
  "mem32 x = [ucast x, ucast (drop_bit 8 x), ucast (drop_bit 16 x), ucast (drop_bit 24 x)]"

definition be32 :: "u32 \<Rightarrow> bytes" where
  "be32 x = [ucast (drop_bit 24 x), ucast (drop_bit 16 x), ucast (drop_bit 8 x), ucast x]"

fun load32 :: "bytes \<Rightarrow> u32" where
  "load32 (a # b # c # d # _) =
     ucast a OR push_bit 8 (ucast b) OR push_bit 16 (ucast c) OR push_bit 24 (ucast d)"
| "load32 _ = 0"

fun load_be32 :: "bytes \<Rightarrow> u32" where
  "load_be32 (a # b # c # d # _) =
     push_bit 24 (ucast a) OR push_bit 16 (ucast b) OR push_bit 8 (ucast c) OR ucast d"
| "load_be32 _ = 0"

text \<open>
  \<^verbatim>\<open>htonl\<close> returns the value whose memory image is the argument in network order,
  \<^verbatim>\<open>ntohl\<close> the value whose network order is the argument's memory image.
\<close>

definition htonl :: "u32 \<Rightarrow> u32" where
  "htonl x = load32 (be32 x)"

definition ntohl :: "u32 \<Rightarrow> u32" where
  "ntohl x = load_be32 (mem32 x)"

lemma length_mem32 [simp]: "length (mem32 x) = 4"
  by (simp add: mem32_def)

lemma length_be32 [simp]: "length (be32 x) = 4"
  by (simp add: be32_def)

lemma word32_byte_cases:
  assumes "n < 32"
  obtains "n < (8::nat)" | "8 \<le> n" "n < 16" | "16 \<le> n" "n < 24" | "24 \<le> n" "n < 32"
  using assms by linarith

lemma load32_mem32 [simp, byte_order]: "load32 (mem32 x @ r) = x"
proof (rule bit_word_eqI)
  fix n
  assume "n < LENGTH(32)"
  then have "n < 32" by simp
  then show "bit (load32 (mem32 x @ r)) n = bit x n"
    by (cases rule: word32_byte_cases) (auto simp: mem32_def bit_simps)
qed

lemma load_be32_be32 [simp, byte_order]: "load_be32 (be32 x @ r) = x"
proof (rule bit_word_eqI)
  fix n
  assume "n < LENGTH(32)"
  then have "n < 32" by simp
  then show "bit (load_be32 (be32 x @ r)) n = bit x n"
    by (cases rule: word32_byte_cases) (auto simp: be32_def bit_simps)
qed

lemma load32_mem32_exact [simp, byte_order]: "load32 (mem32 x) = x"
  using load32_mem32 [of x "[]"] by simp

lemma load_be32_be32_exact [simp, byte_order]: "load_be32 (be32 x) = x"
  using load_be32_be32 [of x "[]"] by simp

lemma bytes4_cases:
  assumes "length bs = 4"
  obtains a b c d where "bs = [a, b, c, d]"
  using assms by (auto simp: numeral_eq_Suc length_Suc_conv)

lemma byte_bit_beyond: "8 \<le> n \<Longrightarrow> \<not> bit (w :: byte) n"
  by (auto dest: bit_imp_le_length)

lemma be32_load_be32 [byte_order]: "length bs = 4 \<Longrightarrow> be32 (load_be32 bs) = bs"
  by (elim bytes4_cases) (auto simp: be32_def bit_simps byte_bit_beyond intro!: bit_word_eqI)

lemma mem32_load32 [byte_order]: "length bs = 4 \<Longrightarrow> mem32 (load32 bs) = bs"
  by (elim bytes4_cases) (auto simp: mem32_def bit_simps byte_bit_beyond intro!: bit_word_eqI)

text \<open>Storing \<^verbatim>\<open>htonl(x)\<close> puts the network order of \<^verbatim>\<open>x\<close> into memory, and back.\<close>

lemma mem32_htonl [simp, byte_order]: "mem32 (htonl x) = be32 x"
  by (simp add: htonl_def mem32_load32)

lemma ntohl_load32 [simp, byte_order]: "length bs = 4 \<Longrightarrow> ntohl (load32 bs) = load_be32 bs"
  by (simp add: ntohl_def mem32_load32)

lemma ntohl_htonl [simp, byte_order]: "ntohl (htonl x) = x"
  by (simp add: ntohl_def)

lemma be32_inject [simp]: "be32 x = be32 y \<longleftrightarrow> x = y"
  by (metis load_be32_be32_exact)

section \<open>Byte classes and number formatting\<close>

definition isdigit :: "byte \<Rightarrow> bool" where
  "isdigit c \<longleftrightarrow> 48 \<le> c \<and> c \<le> 57"

definition isspace :: "byte \<Rightarrow> bool" where
  "isspace c \<longleftrightarrow> c = 32 \<or> (9 \<le> c \<and> c \<le> 13)"

definition digit_byte :: "nat \<Rightarrow> byte" where
  "digit_byte d = word_of_nat (48 + d)"

text \<open>Decimal output of an unsigned number (\<^verbatim>\<open>operator<<\<close>, \<^verbatim>\<open>to_string\<close>, \<^verbatim>\<open>to_chars\<close>).\<close>

fun decimal :: "nat \<Rightarrow> bytes" where
  "decimal n = (if n < 10 then [digit_byte n] else decimal (n div 10) @ [digit_byte (n mod 10)])"

declare decimal.simps [simp del]

text \<open>Hexadecimal output with lower-case digits, fill \<^verbatim>\<open>'0'\<close> and a field width of \<open>w\<close>.\<close>

definition hex_digit :: "nat \<Rightarrow> byte" where
  "hex_digit d = (if d < 10 then word_of_nat (48 + d) else word_of_nat (87 + d))"

fun hex_digits :: "nat \<Rightarrow> bytes" where
  "hex_digits n = (if n < 16 then [hex_digit n] else hex_digits (n div 16) @ [hex_digit (n mod 16)])"

declare hex_digits.simps [simp del]

definition put_hex :: "nat \<Rightarrow> nat \<Rightarrow> bytes" where
  "put_hex w n = replicate (w - length (hex_digits n)) 48 @ hex_digits n"

definition dec_value :: "bytes \<Rightarrow> nat" where
  "dec_value ds = foldl (\<lambda>v c. v * 10 + (unat c - 48)) 0 ds"

lemma unat_digit_byte [simp]: "d < 10 \<Longrightarrow> unat (digit_byte d) = 48 + d"
  unfolding digit_byte_def by (subst unat_of_nat) simp

lemma isdigit_iff_unat: "isdigit c \<longleftrightarrow> 48 \<le> unat c \<and> unat c \<le> 57"
  by (simp add: isdigit_def word_le_nat_alt)

lemma isdigit_digit_byte [simp]: "d < 10 \<Longrightarrow> isdigit (digit_byte d)"
  by (simp add: isdigit_iff_unat)

lemma dec_value_snoc [simp]: "dec_value (ds @ [c]) = dec_value ds * 10 + (unat c - 48)"
  by (simp add: dec_value_def)

lemma dec_value_decimal [simp]: "dec_value (decimal n) = n"
proof (induction n rule: decimal.induct)
  case (1 n)
  then show ?case
    by (subst decimal.simps) (auto simp: dec_value_def [of "[_]"])
qed

lemma decimal_digits: "c \<in> set (decimal n) \<Longrightarrow> isdigit c"
proof (induction n rule: decimal.induct)
  case (1 n)
  then show ?case
    by (subst (asm) (2) decimal.simps) (auto split: if_splits)
qed

lemma decimal_neq_Nil [simp]: "decimal n \<noteq> []"
  by (subst decimal.simps) simp

lemma length_decimal_le: "n < 10 ^ Suc k \<Longrightarrow> length (decimal n) \<le> Suc k"
proof (induction k arbitrary: n)
  case 0
  then show ?case by (subst decimal.simps) simp
next
  case (Suc k)
  then have "length (decimal (n div 10)) \<le> Suc k" if "\<not> n < 10"
    by (simp add: less_mult_imp_div_less)
  then show ?case by (subst decimal.simps) simp
qed

section \<open>Input string streams\<close>

text \<open>
  A \<^verbatim>\<open>std::stringstream\<close> that has been filled: the characters not yet read and the two
  error bits. A read on a stream with a bit set only sets \<^verbatim>\<open>failbit\<close>; a read that finds
  too few characters takes what there is and sets both bits.
\<close>

record istream =
  rest :: bytes
  eofbit :: bool
  failbit :: bool

definition is_open :: "bytes \<Rightarrow> istream" where
  "is_open bs = \<lparr>rest = bs, eofbit = False, failbit = False\<rparr>"

definition is_good :: "istream \<Rightarrow> bool" where
  "is_good s \<longleftrightarrow> \<not> eofbit s \<and> \<not> failbit s"

definition is_read :: "nat \<Rightarrow> istream \<Rightarrow> bytes \<times> istream" where
  "is_read n s =
     (if \<not> is_good s then ([], s\<lparr>failbit := True\<rparr>)
      else if n \<le> length (rest s) then (take n (rest s), s\<lparr>rest := drop n (rest s)\<rparr>)
      else (rest s, s\<lparr>rest := [], eofbit := True, failbit := True\<rparr>))"

definition is_get :: "istream \<Rightarrow> byte option \<times> istream" where
  "is_get s =
     (if \<not> is_good s then (None, s\<lparr>failbit := True\<rparr>)
      else case rest s of
        [] \<Rightarrow> (None, s\<lparr>eofbit := True, failbit := True\<rparr>)
      | c # cs \<Rightarrow> (Some c, s\<lparr>rest := cs\<rparr>))"

text \<open>\<^verbatim>\<open>operator>>\<close> into a character type skips white space first.\<close>

definition is_extract :: "istream \<Rightarrow> byte option \<times> istream" where
  "is_extract s =
     (if \<not> is_good s then (None, s\<lparr>failbit := True\<rparr>)
      else case dropWhile isspace (rest s) of
        [] \<Rightarrow> (None, s\<lparr>rest := [], eofbit := True, failbit := True\<rparr>)
      | c # cs \<Rightarrow> (Some c, s\<lparr>rest := cs\<rparr>))"

text \<open>
  The object read into keeps its old bytes beyond the ones that were read: \<open>junk\<close> is
  its content before, indeterminate for a local variable without initializer.
\<close>

definition overlay :: "bytes \<Rightarrow> bytes \<Rightarrow> bytes" where
  "overlay got junk = got @ drop (length got) junk"

lemma is_good_open [simp]: "is_good (is_open bs)"
  by (simp add: is_good_def is_open_def)

lemma rest_open [simp]: "rest (is_open bs) = bs"
  by (simp add: is_open_def)

lemma is_good_rest_update [simp]: "is_good (s\<lparr>rest := r\<rparr>) = is_good s"
  by (simp add: is_good_def)

lemma is_read_ok [stream_simps]:
  "is_good s \<Longrightarrow> rest s = a @ b \<Longrightarrow> length a = n \<Longrightarrow> is_read n s = (a, s\<lparr>rest := b\<rparr>)"
  by (auto simp: is_read_def)

lemma is_read_all [simp, stream_simps]:
  "is_good s \<Longrightarrow> is_read (length dat) (s\<lparr>rest := dat\<rparr>) = (dat, s\<lparr>rest := []\<rparr>)"
  by (simp add: is_read_def)

lemma is_get_Cons [stream_simps]:
  "is_good s \<Longrightarrow> rest s = c # cs \<Longrightarrow> is_get s = (Some c, s\<lparr>rest := cs\<rparr>)"
  by (simp add: is_get_def)

lemma is_get_Nil [stream_simps]:
  "is_good s \<Longrightarrow> rest s = [] \<Longrightarrow> is_get s = (None, s\<lparr>eofbit := True, failbit := True\<rparr>)"
  by (simp add: is_get_def)

lemma is_extract_ok [stream_simps]:
  "is_good s \<Longrightarrow> rest s = c # cs \<Longrightarrow> \<not> isspace c \<Longrightarrow> is_extract s = (Some c, s\<lparr>rest := cs\<rparr>)"
  by (simp add: is_extract_def)

lemma length_is_read: "length (fst (is_read n s)) \<le> n"
  by (simp add: is_read_def)

lemma length_overlay: "length got \<le> length junk \<Longrightarrow> length (overlay got junk) = length junk"
  by (simp add: overlay_def)

section \<open>Fixed-size chunks\<close>

function chunks :: "nat \<Rightarrow> 'a list \<Rightarrow> 'a list list" where
  "chunks n xs = (if n = 0 \<or> xs = [] then [] else take n xs # chunks n (drop n xs))"
  by pat_completeness auto
termination
  by (relation "measure (\<lambda>(n, xs). length xs)") auto

declare chunks.simps [simp del]

lemma chunks_Nil [simp]: "chunks n [] = []"
  by (simp add: chunks.simps)

lemma chunks_append:
  assumes "length xs = n" and "0 < n"
  shows "chunks n (xs @ ys) = xs # chunks n ys"
  using assms by (subst chunks.simps) auto

lemma concat_chunks [simp]: "0 < n \<Longrightarrow> concat (chunks n xs) = xs"
proof (induction n xs rule: chunks.induct)
  case (1 n xs)
  then show ?case by (cases "xs = []") (auto simp: chunks.simps [of n xs])
qed

lemma length_chunks: "0 < n \<Longrightarrow> n dvd length xs \<Longrightarrow> length (chunks n xs) = length xs div n"
proof (induction n xs rule: chunks.induct)
  case (1 n xs)
  show ?case
  proof (cases "xs = []")
    case False
    with 1 have "n \<le> length xs" by (auto dest: dvd_imp_le)
    with 1 False show ?thesis
      by (auto simp: chunks.simps [of n xs] dvd_diff_nat le_div_geq)
  qed simp
qed

lemma chunks_dvd_length:
  "0 < n \<Longrightarrow> n dvd length xs \<Longrightarrow> c \<in> set (chunks n xs) \<Longrightarrow> length c = n"
proof (induction n xs rule: chunks.induct)
  case (1 n xs)
  show ?case
  proof (cases "xs = []")
    case False
    with 1 have "n \<le> length xs" by (auto dest: dvd_imp_le)
    with 1 False show ?thesis
      by (auto simp: chunks.simps [of n xs] dvd_diff_nat)
  qed (use 1 in simp)
qed

lemma chunks_concat:
  "0 < n \<Longrightarrow> \<forall>b \<in> set bs. length b = n \<Longrightarrow> chunks n (concat bs @ ys) = bs @ chunks n ys"
  by (induction bs) (auto simp: chunks_append)

lemma nth_chunks:
  "0 < n \<Longrightarrow> n dvd length xs \<Longrightarrow> i < length xs div n \<Longrightarrow> chunks n xs ! i = take n (drop (n * i) xs)"
proof (induction n xs arbitrary: i rule: chunks.induct)
  case (1 n xs)
  then have "xs \<noteq> []" by auto
  with 1 have "n \<le> length xs" by (auto dest: dvd_imp_le)
  with 1 \<open>xs \<noteq> []\<close> show ?case
    by (cases i) (auto simp: chunks.simps [of n xs] dvd_diff_nat le_div_geq add.commute)
qed

text \<open>The \<open>i\<close>-th of the consecutive parts of size \<open>n\<close>, shorter or empty at the end.\<close>

definition slice :: "nat \<Rightarrow> nat \<Rightarrow> 'a list \<Rightarrow> 'a list" where
  "slice n i f = take n (drop (i * n) f)"

lemma concat_slices: "concat (map (\<lambda>i. slice n i f) [0..<k]) = take (k * n) f"
  by (induction k) (simp_all add: slice_def add.commute [of n] take_add)

section \<open>Searching\<close>

text \<open>\<^verbatim>\<open>std::string::find\<close> and \<^verbatim>\<open>std::search\<close>: the position of the first occurrence.\<close>

fun find_sub :: "'a list \<Rightarrow> 'a list \<Rightarrow> nat option" where
  "find_sub pat [] = (if pat = [] then Some 0 else None)"
| "find_sub pat (c # s) =
     (if take (length pat) (c # s) = pat then Some 0 else map_option Suc (find_sub pat s))"

lemma find_sub_Some:
  "find_sub pat s = Some i \<Longrightarrow> (\<exists>a b. s = a @ pat @ b \<and> length a = i)"
proof (induction s arbitrary: i)
  case (Cons c s)
  show ?case
  proof (cases "take (length pat) (c # s) = pat")
    case True
    with Cons.prems have "i = 0" by simp
    moreover from True have "c # s = [] @ pat @ drop (length pat) (c # s)"
      by (metis append_Nil append_take_drop_id)
    ultimately show ?thesis by (metis list.size(3))
  next
    case False
    with Cons.prems obtain j where j: "find_sub pat s = Some j" "i = Suc j"
      by auto
    with Cons.IH obtain a b where "s = a @ pat @ b" "length a = j" by blast
    with j have "c # s = (c # a) @ pat @ b \<and> length (c # a) = i" by simp
    then show ?thesis by blast
  qed
qed (auto split: if_splits)

lemma find_sub_None: "find_sub pat s = None \<Longrightarrow> s \<noteq> a @ pat @ b"
proof (induction s arbitrary: a)
  case (Cons c s)
  then have s: "find_sub pat s = None" "take (length pat) (c # s) \<noteq> pat"
    by (auto split: if_splits)
  show ?case
  proof (cases a)
    case Nil
    with s(2) show ?thesis by (metis append_Nil append_eq_conv_conj)
  next
    case (Cons c' a')
    with Cons.IH [OF s(1), of a'] show ?thesis by simp
  qed
qed (auto split: if_splits)

section \<open>Interfaces\<close>

text \<open>
  A self-delimiting encoding: decoding the encoding of an admissible value returns the
  value and exactly the bytes that follow it. \<open>dec_many\<close> reads a given number of values.
\<close>

fun dec_many :: "(bytes \<Rightarrow> ('a \<times> bytes) option) \<Rightarrow> nat \<Rightarrow> bytes \<Rightarrow> ('a list \<times> bytes) option" where
  "dec_many dec 0 bs = Some ([], bs)"
| "dec_many dec (Suc n) bs =
     (case dec bs of
        None \<Rightarrow> None
      | Some (x, r) \<Rightarrow>
          (case dec_many dec n r of None \<Rightarrow> None | Some (xs, r') \<Rightarrow> Some (x # xs, r')))"

locale prefix_codec =
  fixes enc :: "'a \<Rightarrow> bytes"
    and dec :: "bytes \<Rightarrow> ('a \<times> bytes) option"
    and ok :: "'a \<Rightarrow> bool"
  assumes dec_enc: "ok x \<Longrightarrow> dec (enc x @ r) = Some (x, r)"
begin

lemma enc_split: "ok x \<Longrightarrow> ok y \<Longrightarrow> enc x @ r = enc y @ s \<Longrightarrow> x = y \<and> r = s"
  by (metis dec_enc option.inject prod.inject)

lemma enc_inject: "ok x \<Longrightarrow> ok y \<Longrightarrow> enc x = enc y \<Longrightarrow> x = y"
  using enc_split [of x y "[]" "[]"] by simp

lemma dec_many_enc:
  "\<forall>x \<in> set xs. ok x \<Longrightarrow> dec_many dec (length xs) (concat (map enc xs) @ r) = Some (xs, r)"
  by (induction xs) (auto simp: dec_enc)

end

text \<open>
  A transition system with an inductive invariant: what holds initially and is kept by
  every step holds in every reachable state.
\<close>

locale transition_system =
  fixes init :: "'s \<Rightarrow> bool"
    and step :: "'s \<Rightarrow> 's \<Rightarrow> bool"
    and inv :: "'s \<Rightarrow> bool"
  assumes init_inv: "init s \<Longrightarrow> inv s"
    and step_inv: "inv s \<Longrightarrow> step s t \<Longrightarrow> inv t"
begin

lemma steps_inv: "step\<^sup>*\<^sup>* s t \<Longrightarrow> inv s \<Longrightarrow> inv t"
  by (induction rule: rtranclp_induct) (auto intro: step_inv)

lemma inv_steps: "init s \<Longrightarrow> step\<^sup>*\<^sup>* s t \<Longrightarrow> inv t"
  by (rule steps_inv) (auto intro: init_inv)

end

text \<open>
  A system that always arrives: a measure goes down with every step, and it only gets stuck
  where it wants to be. Then every run is finite, and every run that cannot be continued has
  arrived.
\<close>

locale converging_system = transition_system init step inv
  for init :: "'s \<Rightarrow> bool" and step :: "'s \<Rightarrow> 's \<Rightarrow> bool" and inv :: "'s \<Rightarrow> bool" +
  fixes mu :: "'s \<Rightarrow> nat"
    and goal :: "'s \<Rightarrow> bool"
  assumes step_mu: "inv s \<Longrightarrow> step s t \<Longrightarrow> mu t < mu s"
    and stuck_goal: "inv s \<Longrightarrow> (\<And>t. \<not> step s t) \<Longrightarrow> goal s"
begin

lemma run_bound: "(step ^^ n) s t \<Longrightarrow> inv s \<Longrightarrow> n + mu t \<le> mu s"
proof (induction n arbitrary: t)
  case (Suc n)
  then obtain u where u: "(step ^^ n) s u" "step u t" by auto
  moreover have "inv u" using Suc.prems(2) u(1) by (auto intro: steps_inv dest: relpowp_imp_rtranclp)
  ultimately show ?case using Suc.IH [OF u(1) Suc.prems(2)] step_mu [of u t] by simp
qed simp

lemma run_arrives: "step\<^sup>*\<^sup>* s t \<Longrightarrow> inv s \<Longrightarrow> (\<And>u. \<not> step t u) \<Longrightarrow> goal t"
  by (rule stuck_goal) (auto intro: steps_inv)

lemma can_arrive: "inv s \<Longrightarrow> \<exists>t. step\<^sup>*\<^sup>* s t \<and> goal t"
proof (induction "mu s" arbitrary: s rule: less_induct)
  case less
  show ?case
  proof (cases "\<exists>u. step s u")
    case True
    then obtain u where u: "step s u" by blast
    with less.hyps [OF step_mu [OF less.prems u]] step_inv [OF less.prems u] show ?thesis
      by (meson converse_rtranclp_into_rtranclp)
  qed (use less.prems stuck_goal in blast)
qed

end

text \<open>The 32-bit network-order integer is the first such encoding.\<close>

definition dec_be32 :: "bytes \<Rightarrow> (u32 \<times> bytes) option" where
  "dec_be32 bs = (if length bs < 4 then None else Some (load_be32 (take 4 bs), drop 4 bs))"

interpretation be32_codec: prefix_codec be32 dec_be32 "\<lambda>_. True"
  by unfold_locales (simp add: dec_be32_def)

end
