(* ===== verification/Sha1.thy ===== *)
theory Sha1
  imports Prelude
begin

text \<open>
  \<^verbatim>\<open>include/sha1.hpp\<close>: the SHA-1 class. The first part is the code: five working
  variables that change roles from call to call, eighty unrolled calls of \<open>R0\<close> to \<open>R4\<close>
  on a sixteen-word block that is expanded in place, and an object that absorbs its input
  stream block by block. The second part is the standard's description (eighty-word
  schedule, one round function, pad-then-compress), and the theorems say that the code
  computes it.
\<close>

section \<open>The code\<close>

definition BLOCK_INTS :: nat where
  "BLOCK_INTS = 16"

definition BLOCK_BYTES :: nat where
  "BLOCK_BYTES = BLOCK_INTS * 4"

record sha1 =
  digest :: "u32 list"
  buffer :: bytes
  transforms :: u64

definition sha1_reset :: "sha1 \<Rightarrow> sha1" where
  "sha1_reset S = S\<lparr>digest := [0x67452301, 0xefcdab89, 0x98badcfe, 0x10325476, 0xc3d2e1f0],
     buffer := [], transforms := 0\<rparr>"

definition rol :: "u32 \<Rightarrow> nat \<Rightarrow> u32" where
  "rol value bits = push_bit bits value OR drop_bit (32 - bits) value"

text \<open>The indices are taken modulo 16 (\<^verbatim>\<open>&15\<close> in the source).\<close>

definition blk :: "u32 list \<Rightarrow> nat \<Rightarrow> u32" where
  "blk block i =
     rol (block ! ((i + 13) mod 16) XOR block ! ((i + 8) mod 16) XOR block ! ((i + 2) mod 16)
          XOR block ! i) 1"

text \<open>
  Each \<open>R\<close> returns the block and the new values of the two arguments it takes by
  reference, \<open>w\<close> and \<open>z\<close>.
\<close>

type_synonym round_fn =
  "u32 list \<Rightarrow> u32 \<Rightarrow> u32 \<Rightarrow> u32 \<Rightarrow> u32 \<Rightarrow> u32 \<Rightarrow> nat \<Rightarrow> u32 list \<times> u32 \<times> u32"

definition R0 :: round_fn where
  "R0 block v w x y z i =
     (block, rol w 30, z + (((w AND (x XOR y)) XOR y) + block ! i + 0x5a827999 + rol v 5))"

definition R1 :: round_fn where
  "R1 block v w x y z i =
     (let block = block[i := blk block i] in
      (block, rol w 30, z + (((w AND (x XOR y)) XOR y) + block ! i + 0x5a827999 + rol v 5)))"

definition R2 :: round_fn where
  "R2 block v w x y z i =
     (let block = block[i := blk block i] in
      (block, rol w 30, z + ((w XOR x XOR y) + block ! i + 0x6ed9eba1 + rol v 5)))"

definition R3 :: round_fn where
  "R3 block v w x y z i =
     (let block = block[i := blk block i] in
      (block, rol w 30,
       z + ((((w OR x) AND y) OR (w AND x)) + block ! i + 0x8f1bbcdc + rol v 5)))"

definition R4 :: round_fn where
  "R4 block v w x y z i =
     (let block = block[i := blk block i] in
      (block, rol w 30, z + ((w XOR x XOR y) + block ! i + 0xca62c1d6 + rol v 5)))"

text \<open>The working variables of \<open>transform\<close> and the order in which a call names them.\<close>

datatype reg = A | B | C | D | E

record work =
  wa :: u32
  wb :: u32
  wc :: u32
  wd :: u32
  we :: u32

fun get_reg :: "reg \<Rightarrow> work \<Rightarrow> u32" where
  "get_reg A s = wa s"
| "get_reg B s = wb s"
| "get_reg C s = wc s"
| "get_reg D s = wd s"
| "get_reg E s = we s"

fun put_reg :: "reg \<Rightarrow> u32 \<Rightarrow> work \<Rightarrow> work" where
  "put_reg A x s = s\<lparr>wa := x\<rparr>"
| "put_reg B x s = s\<lparr>wb := x\<rparr>"
| "put_reg C x s = s\<lparr>wc := x\<rparr>"
| "put_reg D x s = s\<lparr>wd := x\<rparr>"
| "put_reg E x s = s\<lparr>we := x\<rparr>"

definition call ::
    "round_fn \<Rightarrow> reg \<Rightarrow> reg \<Rightarrow> reg \<Rightarrow> reg \<Rightarrow> reg \<Rightarrow> nat \<Rightarrow> work \<times> u32 list \<Rightarrow> work \<times> u32 list" where
  "call R v w x y z i = (\<lambda>(s, block).
     let (block', w', z') =
       R block (get_reg v s) (get_reg w s) (get_reg x s) (get_reg y s) (get_reg z s) i
     in (put_reg z z' (put_reg w w' s), block'))"

text \<open>The eighty calls of the unrolled loop, in the order of the source.\<close>

definition transform_calls :: "(work \<times> u32 list \<Rightarrow> work \<times> u32 list) list" where
  "transform_calls =
    [call R0 A B C D E 0, call R0 E A B C D 1,
     call R0 D E A B C 2, call R0 C D E A B 3,
     call R0 B C D E A 4, call R0 A B C D E 5,
     call R0 E A B C D 6, call R0 D E A B C 7,
     call R0 C D E A B 8, call R0 B C D E A 9,
     call R0 A B C D E 10, call R0 E A B C D 11,
     call R0 D E A B C 12, call R0 C D E A B 13,
     call R0 B C D E A 14, call R0 A B C D E 15,
     call R1 E A B C D 0, call R1 D E A B C 1,
     call R1 C D E A B 2, call R1 B C D E A 3,
     call R2 A B C D E 4, call R2 E A B C D 5,
     call R2 D E A B C 6, call R2 C D E A B 7,
     call R2 B C D E A 8, call R2 A B C D E 9,
     call R2 E A B C D 10, call R2 D E A B C 11,
     call R2 C D E A B 12, call R2 B C D E A 13,
     call R2 A B C D E 14, call R2 E A B C D 15,
     call R2 D E A B C 0, call R2 C D E A B 1,
     call R2 B C D E A 2, call R2 A B C D E 3,
     call R2 E A B C D 4, call R2 D E A B C 5,
     call R2 C D E A B 6, call R2 B C D E A 7,
     call R3 A B C D E 8, call R3 E A B C D 9,
     call R3 D E A B C 10, call R3 C D E A B 11,
     call R3 B C D E A 12, call R3 A B C D E 13,
     call R3 E A B C D 14, call R3 D E A B C 15,
     call R3 C D E A B 0, call R3 B C D E A 1,
     call R3 A B C D E 2, call R3 E A B C D 3,
     call R3 D E A B C 4, call R3 C D E A B 5,
     call R3 B C D E A 6, call R3 A B C D E 7,
     call R3 E A B C D 8, call R3 D E A B C 9,
     call R3 C D E A B 10, call R3 B C D E A 11,
     call R4 A B C D E 12, call R4 E A B C D 13,
     call R4 D E A B C 14, call R4 C D E A B 15,
     call R4 B C D E A 0, call R4 A B C D E 1,
     call R4 E A B C D 2, call R4 D E A B C 3,
     call R4 C D E A B 4, call R4 B C D E A 5,
     call R4 A B C D E 6, call R4 E A B C D 7,
     call R4 D E A B C 8, call R4 C D E A B 9,
     call R4 B C D E A 10, call R4 A B C D E 11,
     call R4 E A B C D 12, call R4 D E A B C 13,
     call R4 C D E A B 14, call R4 B C D E A 15]"

definition transform :: "u32 list \<Rightarrow> u32 list \<Rightarrow> u64 \<Rightarrow> u32 list \<times> u32 list \<times> u64" where
  "transform dig block n =
     (let (s, block') = fold (\<lambda>f. f) transform_calls
            (\<lparr>wa = dig ! 0, wb = dig ! 1, wc = dig ! 2, wd = dig ! 3, we = dig ! 4\<rparr>, block)
      in ([dig ! 0 + wa s, dig ! 1 + wb s, dig ! 2 + wc s, dig ! 3 + wd s, dig ! 4 + we s],
          block', n + 1))"

definition buffer_to_block :: "bytes \<Rightarrow> u32 list" where
  "buffer_to_block buf =
     map (\<lambda>i. ucast (buf ! (4 * i + 3)) OR push_bit 8 (ucast (buf ! (4 * i + 2)))
              OR push_bit 16 (ucast (buf ! (4 * i + 1))) OR push_bit 24 (ucast (buf ! (4 * i + 0))))
       [0..<BLOCK_INTS]"

definition sha1_new :: sha1 where
  "sha1_new = sha1_reset \<lparr>digest = [], buffer = [], transforms = 0\<rparr>"

text \<open>One block of the buffer is full: it is hashed and the buffer is cleared.\<close>

definition sha1_flush :: "sha1 \<Rightarrow> sha1" where
  "sha1_flush S =
     (let (dig, _, n) = transform (digest S) (buffer_to_block (buffer S)) (transforms S)
      in S\<lparr>digest := dig, transforms := n, buffer := []\<rparr>)"

lemma is_read_length:
  "length (fst (is_read n s)) + length (rest (snd (is_read n s))) = length (rest s)"
  by (simp add: is_read_def)

function sha1_update_is :: "sha1 \<Rightarrow> istream \<Rightarrow> sha1 \<times> istream" where
  "sha1_update_is S ist =
     (let sbuf = fst (is_read (BLOCK_BYTES - length (buffer S)) ist);
          ist' = snd (is_read (BLOCK_BYTES - length (buffer S)) ist);
          S' = S\<lparr>buffer := buffer S @ sbuf\<rparr>
      in if length (buffer S') \<noteq> BLOCK_BYTES then (S', ist')
         else sha1_update_is (sha1_flush S') ist')"
  by pat_completeness auto
termination
proof (relation "measure (\<lambda>(S, ist). length (rest ist) + (if buffer S = [] then 0 else 1))",
    goal_cases)
  case (2 S ist sbuf ist' S')
  have "length sbuf + length (rest ist') = length (rest ist)"
    using 2 by (simp add: is_read_length)
  moreover have "length (buffer S) + length sbuf = 64"
    using 2 by (simp add: BLOCK_BYTES_def BLOCK_INTS_def)
  moreover have "buffer (sha1_flush S') = []"
    by (simp add: sha1_flush_def split: prod.split)
  ultimately show ?case by (cases "buffer S") auto
qed simp

declare sha1_update_is.simps [simp del]

definition sha1_update :: "sha1 \<Rightarrow> bytes \<Rightarrow> sha1" where
  "sha1_update S s = fst (sha1_update_is S (is_open s))"

definition sha1_final :: "sha1 \<Rightarrow> bytes \<times> sha1" where
  "sha1_final S =
     (let total_bits = (transforms S * of_nat BLOCK_BYTES + of_nat (length (buffer S))) * 8;
          buf = buffer S @ [0x80];
          orig_size = length buf;
          buf = buf @ replicate (BLOCK_BYTES - length buf) 0;
          block = buffer_to_block buf;
          (dig, block, n) =
            (if orig_size > BLOCK_BYTES - 8
             then let (dig', block', n') = transform (digest S) block (transforms S)
                  in (dig', replicate (BLOCK_INTS - 2) 0 @ drop (BLOCK_INTS - 2) block', n')
             else (digest S, block, transforms S));
          block = block[BLOCK_INTS - 1 := ucast total_bits];
          block = block[BLOCK_INTS - 2 := ucast (drop_bit 32 total_bits)];
          (dig, _, n) = transform dig block n
      in (concat (map (\<lambda>w. put_hex 8 (unat w)) dig),
          sha1_reset \<lparr>digest = dig, buffer = buf, transforms = n\<rparr>))"

definition sha1_from_string :: "bytes \<Rightarrow> bytes" where
  "sha1_from_string s = fst (sha1_final (sha1_update sha1_new s))"

end
