(* ===== verification/Sha1_Correct.thy ===== *)
theory Sha1_Correct
  imports Sha1
begin

text \<open>
  What \<^verbatim>\<open>sha1.hpp\<close> computes: the SHA-1 function of the standard, written here as an
  eighty-word message schedule, one round function per step and padding to whole blocks.
  The unrolled, in-place code of \<open>transform\<close> refines it (\<open>transform_spec\<close>), and the
  streaming object computes the digest of everything it has absorbed, however the input
  was cut into pieces (interface \<open>streaming_digest\<close>).
\<close>

section \<open>The standard's description\<close>

fun sched :: "u32 list \<Rightarrow> nat \<Rightarrow> u32" where
  "sched M t =
     (if t < 16 then M ! t
      else rol (sched M (t - 3) XOR sched M (t - 8) XOR sched M (t - 14) XOR sched M (t - 16)) 1)"

declare sched.simps [simp del]

definition spec_f :: "nat \<Rightarrow> u32 \<Rightarrow> u32 \<Rightarrow> u32 \<Rightarrow> u32" where
  "spec_f t x y z =
     (if t < 20 then (x AND y) XOR (NOT x AND z)
      else if t < 40 then x XOR y XOR z
      else if t < 60 then (x AND y) XOR (x AND z) XOR (y AND z)
      else x XOR y XOR z)"

definition spec_k :: "nat \<Rightarrow> u32" where
  "spec_k t =
     (if t < 20 then 0x5a827999 else if t < 40 then 0x6ed9eba1
      else if t < 60 then 0x8f1bbcdc else 0xca62c1d6)"

type_synonym vars = "u32 \<times> u32 \<times> u32 \<times> u32 \<times> u32"

definition spec_step :: "u32 list \<Rightarrow> nat \<Rightarrow> vars \<Rightarrow> vars" where
  "spec_step M t = (\<lambda>(a, b, c, d, e).
     (rol a 5 + spec_f t b c d + e + spec_k t + sched M t, a, rol b 30, c, d))"

fun spec_rounds :: "u32 list \<Rightarrow> nat \<Rightarrow> vars \<Rightarrow> vars" where
  "spec_rounds M 0 s = s"
| "spec_rounds M (Suc t) s = spec_step M t (spec_rounds M t s)"

definition compress :: "u32 list \<Rightarrow> u32 list \<Rightarrow> u32 list" where
  "compress H M =
     (let (a, b, c, d, e) = spec_rounds M 80 (H ! 0, H ! 1, H ! 2, H ! 3, H ! 4)
      in [H ! 0 + a, H ! 1 + b, H ! 2 + c, H ! 3 + d, H ! 4 + e])"

definition H_init :: "u32 list" where
  "H_init = [0x67452301, 0xefcdab89, 0x98badcfe, 0x10325476, 0xc3d2e1f0]"

definition block_words :: "bytes \<Rightarrow> u32 list" where
  "block_words c = map load_be32 (chunks 4 c)"

definition hash_blocks :: "bytes list \<Rightarrow> u32 list" where
  "hash_blocks bs = foldl compress H_init (map block_words bs)"

text \<open>The message length in bits, as two network-order words (modulo \<open>2 ^ 64\<close>).\<close>

definition length_field :: "nat \<Rightarrow> bytes" where
  "length_field n =
     (let bits = (of_nat n * 8 :: u64) in be32 (ucast (drop_bit 32 bits)) @ be32 (ucast bits))"

definition sha1_pad :: "bytes \<Rightarrow> bytes" where
  "sha1_pad m = m @ [0x80] @ replicate ((119 - length m mod 64) mod 64) 0 @ length_field (length m)"

definition sha1_digest :: "bytes \<Rightarrow> u32 list" where
  "sha1_digest m = hash_blocks (chunks 64 (sha1_pad m))"

section \<open>One block\<close>

text \<open>The roles of the working variables in call \<open>t\<close>, and its round function.\<close>

definition role :: "nat \<Rightarrow> nat \<Rightarrow> reg" where
  "role t k = [A, B, C, D, E] ! ((k + 4 * t) mod 5)"

definition round_of :: "nat \<Rightarrow> round_fn" where
  "round_of t =
     (if t < 16 then R0 else if t < 20 then R1 else if t < 40 then R2 else if t < 60 then R3
      else R4)"

definition call_at :: "nat \<Rightarrow> work \<times> u32 list \<Rightarrow> work \<times> u32 list" where
  "call_at t = call (round_of t) (role t 0) (role t 1) (role t 2) (role t 3) (role t 4) (t mod 16)"

lemma transform_calls_eq: "transform_calls = map call_at [0..<80]"
  by (simp add: transform_calls_def call_at_def round_of_def role_def upt_rec)
    (simp add: numeral_2_eq_2)

lemma Ch_eq: "((w AND (x XOR y)) XOR y) = (w AND x) XOR (NOT w AND (y :: u32))"
  by (rule bit_word_eqI) (auto simp: bit_simps)

lemma Maj_eq: "((w OR x) AND y) OR (w AND x) = (w AND x) XOR (w AND y) XOR (x AND (y :: u32))"
  by (rule bit_word_eqI) (auto simp: bit_simps)

text \<open>The block holds the last sixteen words of the schedule, each at its index modulo 16.\<close>

definition window :: "u32 list \<Rightarrow> nat \<Rightarrow> u32 list \<Rightarrow> bool" where
  "window M t block \<longleftrightarrow>
     length block = 16 \<and> (\<forall>s. t \<le> s + 16 \<longrightarrow> s < max t 16 \<longrightarrow> block ! (s mod 16) = sched M s)"

text \<open>The block and the word that call \<open>t\<close> works on.\<close>

definition expand :: "nat \<Rightarrow> u32 list \<Rightarrow> u32 list" where
  "expand t block = (if t < 16 then block else block[t mod 16 := blk block (t mod 16)])"

lemma round_of_eq:
  assumes "length block = 16" and "t < 80"
  shows "round_of t block v w x y z (t mod 16) =
    (expand t block, rol w 30,
     rol v 5 + spec_f t w x y + z + spec_k t + expand t block ! (t mod 16))"
  using assms
  by (auto simp: round_of_def R0_def R1_def R2_def R3_def R4_def expand_def spec_f_def spec_k_def
      Ch_eq Maj_eq Let_def algebra_simps)

lemma window_0: "length M = 16 \<Longrightarrow> window M 0 M"
  by (simp add: window_def sched.simps)

lemma mod16_inj: "s mod 16 = t mod 16 \<Longrightarrow> s < t \<Longrightarrow> \<not> t < s + 16" for s t :: nat
  by (metis less_imp_le_nat less_diff_conv2 mod_eq_dvd_iff_nat nat_dvd_not_less zero_less_diff add.commute)

lemma blk_window:
  assumes "window M t block" and "16 \<le> t"
  shows "blk block (t mod 16) = sched M t"
proof -
  have W: "block ! (s mod 16) = sched M s" if "t \<le> s + 16" "s < t" for s
    using assms that by (simp add: window_def)
  obtain u where u: "t = u + 16"
    using assms(2) by (metis add.commute le_Suc_ex)
  have idx: "(t mod 16 + 13) mod 16 = (t - 3) mod 16" "(t mod 16 + 8) mod 16 = (t - 8) mod 16"
    "(t mod 16 + 2) mod 16 = (t - 14) mod 16" "(t mod 16) = (t - 16) mod 16"
    by (simp_all add: u mod_simps) (simp_all add: add.commute)
  have "blk block (t mod 16) =
      rol (sched M (t - 3) XOR sched M (t - 8) XOR sched M (t - 14) XOR sched M (t - 16)) 1"
    unfolding blk_def idx(1-3) by (subst idx(4)) (use assms(2) in \<open>simp add: W\<close>)
  with assms(2) show ?thesis
    by (simp add: sched.simps [of M t])
qed

lemma window_step:
  assumes "window M t block"
  shows "window M (Suc t) (expand t block)" and "expand t block ! (t mod 16) = sched M t"
proof -
  have len: "length block = 16"
    using assms by (simp add: window_def)
  show "expand t block ! (t mod 16) = sched M t"
    using assms len by (auto simp: expand_def blk_window window_def)
  show "window M (Suc t) (expand t block)"
  proof (cases "t < 16")
    case True
    with assms show ?thesis by (auto simp: window_def expand_def)
  next
    case False
    have "block[t mod 16 := sched M t] ! (s mod 16) = sched M s"
      if "Suc t \<le> s + 16" "s < Suc t" for s
    proof (cases "s = t")
      case False
      with that have "s mod 16 \<noteq> t mod 16" using mod16_inj [of s t] by auto
      with assms False \<open>\<not> t < 16\<close> that show ?thesis by (simp add: window_def)
    qed (use len in simp)
    moreover have "blk block (t mod 16) = sched M t"
      using False assms by (simp add: blk_window)
    ultimately show ?thesis
      using False len by (auto simp: window_def expand_def)
  qed
qed

text \<open>The working variables, read in the order of call \<open>t\<close>, are the standard's.\<close>

definition in_roles :: "nat \<Rightarrow> work \<Rightarrow> vars" where
  "in_roles t s = (get_reg (role t 0) s, get_reg (role t 1) s, get_reg (role t 2) s,
     get_reg (role t 3) s, get_reg (role t 4) s)"

lemma get_put_reg [simp]: "get_reg r (put_reg q x s) = (if r = q then x else get_reg r s)"
  by (cases r; cases q) simp_all

lemma mod5_cancel:
  assumes "i < 5" and "j < (5 :: nat)"
  shows "(i + n) mod 5 = (j + n) mod 5 \<longleftrightarrow> i = j"
proof -
  have "\<not> 5 dvd b - a" if "a < b" "b < 5" for a b :: nat
    using that by (auto dest: dvd_imp_le)
  then show ?thesis
    using assms mod_eq_dvd_iff_nat [of "i + n" "j + n" 5] mod_eq_dvd_iff_nat [of "j + n" "i + n" 5]
    by (cases i j rule: linorder_cases) auto
qed

lemma role_eq_iff [simp]: "i < 5 \<Longrightarrow> j < 5 \<Longrightarrow> role t i = role t j \<longleftrightarrow> i = j"
  by (simp add: role_def nth_eq_iff_index_eq mod5_cancel)

lemma role_Suc: "role (Suc t) k = role t ((k + 4) mod 5)"
  by (simp add: role_def algebra_simps mod_add_right_eq)

lemma call_at_roles:
  assumes "length block = 16" and "t < 80" and "in_roles t s = (a, b, c, d, e)"
    and "call_at t (s, block) = (s', block')"
  shows "block' = expand t block \<and> in_roles (Suc t) s' =
      (rol a 5 + spec_f t b c d + e + spec_k t + expand t block ! (t mod 16), a, rol b 30, c, d)"
  using assms by (auto simp: call_at_def call_def in_roles_def round_of_eq role_Suc)

lemma calls_rounds:
  assumes "length M = 16" and "n \<le> 80"
    and "fold (\<lambda>f. f) (map call_at [0..<n]) (s, M) = (s', block')"
  shows "window M n block' \<and> in_roles n s' = spec_rounds M n (in_roles 0 s)"
  using assms(2,3)
proof (induction n arbitrary: s' block')
  case 0
  with assms(1) show ?case by (simp add: window_0)
next
  case (Suc n)
  obtain s1 b1 where mid: "fold (\<lambda>f. f) (map call_at [0..<n]) (s, M) = (s1, b1)"
    by fastforce
  obtain a b c d e where r: "in_roles n s1 = (a, b, c, d, e)"
    by (metis prod_cases5)
  have IH: "window M n b1" "in_roles n s1 = spec_rounds M n (in_roles 0 s)"
    using Suc.IH [OF _ mid] Suc.prems by auto
  have "call_at n (s1, b1) = (s', block')"
    using Suc.prems mid by simp
  then have "block' = expand n b1 \<and> in_roles (Suc n) s' =
      (rol a 5 + spec_f n b c d + e + spec_k n + sched M n, a, rol b 30, c, d)"
    using call_at_roles [OF _ _ r, of b1 s' block'] IH(1) Suc.prems window_step(2) [OF IH(1)]
    by (simp add: window_def)
  with window_step(1) [OF IH(1)] show ?case
    by (simp add: spec_step_def r flip: IH(2))
qed

lemma transform_spec_aux:
  assumes "length block = 16"
  shows "\<exists>block'. length block' = 16 \<and>
    transform dig block n = (compress dig block, block', n + 1)"
proof -
  let ?s = "\<lparr>wa = dig ! 0, wb = dig ! 1, wc = dig ! 2, wd = dig ! 3, we = dig ! 4\<rparr>"
  obtain s' b' where run: "fold (\<lambda>f. f) (map call_at [0..<80]) (?s, block) = (s', b')"
    by fastforce
  have "in_roles 0 ?s = (dig ! 0, dig ! 1, dig ! 2, dig ! 3, dig ! 4)"
    "in_roles 80 s' = (wa s', wb s', wc s', wd s', we s')"
    by (simp_all add: in_roles_def role_def)
  with calls_rounds [OF assms _ run]
  have "window block 80 b'" and "spec_rounds block 80
    (dig ! 0, dig ! 1, dig ! 2, dig ! 3, dig ! 4) = (wa s', wb s', wc s', wd s', we s')"
    by auto
  with run show ?thesis
    by (simp add: transform_def transform_calls_eq compress_def window_def)
qed

section \<open>The streaming object\<close>

text \<open>
  A digest computed piecewise: whatever has been absorbed so far is all that matters for
  the result.
\<close>

locale streaming_digest =
  fixes start :: 's
    and absorb :: "'s \<Rightarrow> bytes \<Rightarrow> 's"
    and finish :: "'s \<Rightarrow> 'd"
    and digest_of :: "bytes \<Rightarrow> 'd"
    and absorbed :: "'s \<Rightarrow> bytes \<Rightarrow> bool"
  assumes absorbed_start: "absorbed start []"
    and absorbed_absorb: "absorbed s m \<Longrightarrow> absorbed (absorb s a) (m @ a)"
    and finish_absorbed: "absorbed s m \<Longrightarrow> finish s = digest_of m"
begin

lemma absorbed_fold:
  "absorbed s m \<Longrightarrow> absorbed (fold (\<lambda>a s. absorb s a) parts s) (m @ concat parts)"
proof (induction parts arbitrary: s m)
  case (Cons a parts)
  from Cons.IH [OF absorbed_absorb [OF Cons.prems, of a]] show ?case by simp
qed simp

lemma finish_parts: "finish (fold (\<lambda>a s. absorb s a) parts start) = digest_of (concat parts)"
  using absorbed_fold [OF absorbed_start, of parts] by (simp add: finish_absorbed)

lemma one_shot: "finish (absorb start m) = digest_of m"
  using finish_parts [of "[m]"] by simp

end

definition sha1_absorbed :: "sha1 \<Rightarrow> bytes \<Rightarrow> bool" where
  "sha1_absorbed S m \<longleftrightarrow>
     (\<exists>bs. m = concat bs @ buffer S \<and> (\<forall>b \<in> set bs. length b = 64) \<and> length (buffer S) < 64 \<and>
        digest S = hash_blocks bs \<and> transforms S = of_nat (length bs))"

lemma hash_blocks_append: "hash_blocks (bs @ cs) = foldl compress (hash_blocks bs) (map block_words cs)"
  by (simp add: hash_blocks_def)

lemma take4_drop:
  "k + 3 < length xs \<Longrightarrow> take 4 (drop k xs) = [xs ! k, xs ! (k + 1), xs ! (k + 2), xs ! (k + 3)]"
  by (rule nth_equalityI) (auto simp: nth_Cons numeral_eq_Suc less_Suc_eq_0_disj split: nat.split)

lemma length_block_words [simp]: "4 dvd length c \<Longrightarrow> length (block_words c) = length c div 4"
  by (simp add: block_words_def length_chunks)

lemma buffer_to_block_words:
  assumes "length c = 64"
  shows "buffer_to_block c = block_words c"
proof (rule nth_equalityI)
  show "length (buffer_to_block c) = length (block_words c)"
    using assms by (simp add: buffer_to_block_def BLOCK_INTS_def)
  fix i
  assume "i < length (buffer_to_block c)"
  then have i: "i < 16" by (simp add: buffer_to_block_def BLOCK_INTS_def)
  with assms have "block_words c ! i = load_be32 (take 4 (drop (4 * i) c))"
    by (simp add: block_words_def nth_chunks length_chunks)
  with i assms show "buffer_to_block c ! i = block_words c ! i"
    by (simp add: buffer_to_block_def BLOCK_INTS_def take4_drop or.commute or.left_commute)
qed

lemma block_words_append:
  assumes "4 dvd length c"
  shows "block_words (c @ d) = block_words c @ block_words d"
proof -
  have "chunks 4 (concat (chunks 4 c) @ d) = chunks 4 c @ chunks 4 d"
    by (rule chunks_concat) (use assms in \<open>auto simp: chunks_dvd_length\<close>)
  then show ?thesis by (simp add: block_words_def)
qed

lemma block_words_be32 [simp]: "block_words (be32 x) = [x]" "block_words (be32 x @ d) = x # block_words d"
proof -
  show "block_words (be32 x) = [x]"
    using chunks_append [of "be32 x" 4 "[]"] by (simp add: block_words_def)
  then show "block_words (be32 x @ d) = x # block_words d"
    by (simp add: block_words_append)
qed

lemma block_words_Nil [simp]: "block_words [] = []"
  by (simp add: block_words_def)

lemma be32_0: "be32 0 = replicate 4 0"
  by (simp add: be32_def numeral_eq_Suc)

lemma flush_absorbed:
  assumes "m = concat bs @ buffer S" and "\<forall>b \<in> set bs. length b = 64" and "length (buffer S) = 64"
    and "digest S = hash_blocks bs" and "transforms S = of_nat (length bs)"
  shows "sha1_absorbed (sha1_flush S) m"
proof -
  obtain b' where "transform (digest S) (buffer_to_block (buffer S)) (transforms S) =
      (compress (digest S) (block_words (buffer S)), b', transforms S + 1)"
    using transform_spec_aux [of "block_words (buffer S)" "digest S" "transforms S"] assms(3)
    by (auto simp: buffer_to_block_words)
  then show ?thesis
    unfolding sha1_absorbed_def using assms
    by (intro exI [of _ "bs @ [buffer S]"]) (auto simp: sha1_flush_def hash_blocks_append)
qed

lemma update_absorbed:
  "sha1_absorbed S m \<Longrightarrow> is_good ist \<Longrightarrow>
    sha1_absorbed (fst (sha1_update_is S ist)) (m @ rest ist)"
proof (induction S ist arbitrary: m rule: sha1_update_is.induct)
  case (1 S ist)
  obtain bs where bs: "m = concat bs @ buffer S" "\<forall>b \<in> set bs. length b = 64"
      "length (buffer S) < 64" "digest S = hash_blocks bs" "transforms S = of_nat (length bs)"
    using "1.prems"(1) by (auto simp: sha1_absorbed_def)
  let ?n = "64 - length (buffer S)"
  let ?sbuf = "fst (is_read ?n ist)" and ?ist = "snd (is_read ?n ist)"
  let ?S = "S\<lparr>buffer := buffer S @ ?sbuf\<rparr>"
  have 64: "BLOCK_BYTES = 64" by (simp add: BLOCK_BYTES_def BLOCK_INTS_def)
  show ?case
  proof (cases "?n \<le> length (rest ist)")
    case True
    then have rd: "?sbuf = take ?n (rest ist)" "?ist = ist\<lparr>rest := drop ?n (rest ist)\<rparr>"
      using "1.prems"(2) by (auto simp: is_read_def)
    with True bs(3) have full: "length (buffer ?S) = 64" by simp
    have "sha1_absorbed (sha1_flush ?S) (m @ ?sbuf)"
      by (rule flush_absorbed [of _ bs]) (use bs full in auto)
    then have "sha1_absorbed (fst (sha1_update_is (sha1_flush ?S) ?ist)) ((m @ ?sbuf) @ rest ?ist)"
      using "1.IH" [OF refl refl refl, of "m @ ?sbuf"] full rd(2) "1.prems"(2) by (simp add: 64)
    with full rd show ?thesis
      by (subst sha1_update_is.simps) (simp add: 64 Let_def)
  next
    case False
    then have rd: "?sbuf = rest ist"
      using "1.prems"(2) by (auto simp: is_read_def)
    with False have "length (buffer ?S) < 64" by simp
    with bs rd show ?thesis
      by (subst sha1_update_is.simps) (auto simp: 64 Let_def sha1_absorbed_def)
  qed
qed

text \<open>The padded message ends the last block, or the last block and one more.\<close>

lemma chunks_pad:
  assumes "\<forall>b \<in> set bs. length b = 64" and "length buf < 64" and "m = concat bs @ buf"
  shows "chunks 64 (sha1_pad m) =
    (if length buf \<le> 55
     then bs @ [buf @ [0x80] @ replicate (55 - length buf) 0 @ length_field (length m)]
     else bs @ [buf @ [0x80] @ replicate (63 - length buf) 0,
                replicate 56 0 @ length_field (length m)])"
proof -
  let ?r = "length buf" and ?L = "length_field (length m)"
  have L: "length ?L = 8" by (simp add: length_field_def Let_def)
  have "length m mod 64 = ?r"
  proof -
    have "length (concat bs) = 64 * length bs"
      using assms(1) by (induction bs) auto
    with assms show ?thesis by simp
  qed
  then have pad: "sha1_pad m = concat bs @ (buf @ [0x80] @ replicate ((119 - ?r) mod 64) 0 @ ?L)"
    using assms(3) by (simp add: sha1_pad_def)
  show ?thesis
  proof (cases "?r \<le> 55")
    case True
    then have "(119 - ?r) mod 64 = 55 - ?r" by (simp add: mod_if)
    with True L pad chunks_append [of "buf @ [0x80] @ replicate (55 - ?r) 0 @ ?L" 64 "[]"] assms(1)
    show ?thesis by (simp add: chunks_concat)
  next
    case False
    then have "(119 - ?r) mod 64 = (63 - ?r) + 56" using assms(2) by (simp add: mod_if)
    then have "buf @ [0x80] @ replicate ((119 - ?r) mod 64) 0 @ ?L =
        (buf @ [0x80] @ replicate (63 - ?r) 0) @ (replicate 56 0 @ ?L)"
      by (simp only: replicate_add append_assoc)
    with False L pad assms(1,2) chunks_append [of "replicate 56 0 @ ?L" 64 "[]"]
      chunks_append [of "buf @ [0x80] @ replicate (63 - ?r) 0" 64 "replicate 56 0 @ ?L"]
    show ?thesis by (simp add: chunks_concat)
  qed
qed

lemma length_hash_blocks: "length (hash_blocks bs) = 5"
proof (cases bs rule: rev_exhaust)
  case Nil
  then show ?thesis by (simp add: hash_blocks_def H_init_def)
next
  case (snoc cs c)
  then show ?thesis by (simp add: hash_blocks_def compress_def split: prod.split)
qed

lemma final_digest:
  assumes "sha1_absorbed S m"
  shows "\<exists>S'. sha1_final S = (concat (map (\<lambda>w. put_hex 8 (unat w)) (sha1_digest m)), S')"
proof -
  obtain bs where bs: "m = concat bs @ buffer S" "\<forall>b \<in> set bs. length b = 64"
      "length (buffer S) < 64" "digest S = hash_blocks bs" "transforms S = of_nat (length bs)"
    using assms by (auto simp: sha1_absorbed_def)
  let ?r = "length (buffer S)" and ?z = "\<lambda>n. replicate n (0 :: byte)"
  define bits :: u64 where "bits = of_nat (length m) * 8"
  define hi :: u32 where "hi = ucast (drop_bit 32 bits)"
  define lo :: u32 where "lo = ucast bits"
  have "length m = 64 * length bs + ?r"
    using bs(1,2) by (induction bs arbitrary: m) auto
  then have bits: "(transforms S * of_nat BLOCK_BYTES + of_nat ?r) * 8 = bits"
    by (simp add: bs(5) bits_def BLOCK_BYTES_def BLOCK_INTS_def algebra_simps)
  have L: "length_field (length m) = be32 hi @ be32 lo"
    by (simp add: length_field_def bits_def hi_def lo_def Let_def)
  have set_len: "(block_words (c @ ?z 8))[15 := lo, 14 := hi] = block_words (c @ be32 hi @ be32 lo)"
    if "length c = 56" for c
  proof -
    have "?z 8 = be32 0 @ be32 0" by (simp add: be32_0 flip: replicate_add)
    with that show ?thesis by (simp add: block_words_append list_update_append)
  qed
  have zeros: "replicate 14 0 @ [hi, lo] = block_words (?z 56 @ be32 hi @ be32 lo)"
  proof -
    have "?z 56 = concat (replicate 14 (be32 0))" by (simp add: be32_0 numeral_eq_Suc)
    then have "block_words (?z 56) = replicate 14 0"
      by (simp add: block_words_append numeral_eq_Suc)
    then show ?thesis by (simp add: block_words_append)
  qed
  define buf where "buf = buffer S @ [0x80]"
  have T: "\<exists>b'. length b' = 16 \<and> transform d b n = (compress d b, b', n + 1)" if "length b = 16" for d b n
    using transform_spec_aux [OF that] .
  show ?thesis
  proof (cases "?r \<le> 55")
    case True
    define c where "c = buf @ ?z (55 - ?r)"
    have c: "length c = 56" "buf @ ?z (64 - length buf) = c @ ?z 8"
      using True by (auto simp: c_def buf_def simp flip: replicate_add)
    obtain b' where tr: "transform (digest S) (block_words (c @ be32 hi @ be32 lo)) (transforms S) =
        (compress (digest S) (block_words (c @ be32 hi @ be32 lo)), b', transforms S + 1)"
      using T [of "block_words (c @ be32 hi @ be32 lo)" "digest S" "transforms S"] c(1) by auto
    have "sha1_digest m = compress (digest S) (block_words (c @ be32 hi @ be32 lo))"
      using True by (simp add: sha1_digest_def chunks_pad [OF bs(2,3,1)] bs(4) hash_blocks_append L c_def buf_def)
    then show ?thesis
      using True c tr set_len [OF c(1)] bits
      by (simp add: sha1_final_def Let_def buffer_to_block_words BLOCK_BYTES_def BLOCK_INTS_def
          buf_def [symmetric] lo_def [symmetric] hi_def [symmetric])
        (simp add: buf_def)
  next
    case False
    define c where "c = buf @ ?z (63 - ?r)"
    have c: "length c = 64" "buf @ ?z (64 - length buf) = c"
      using bs(3) by (auto simp: c_def buf_def)
    obtain b1 where t1: "length b1 = 16" "transform (digest S) (block_words c) (transforms S) =
        (compress (digest S) (block_words c), b1, transforms S + 1)"
      using T [of "block_words c" "digest S" "transforms S"] c(1) by auto
    have upd: "(replicate 14 0 @ drop 14 b1)[15 := lo, 14 := hi] = replicate 14 0 @ [hi, lo]"
    proof -
      have "length (drop 14 b1) = 2" using t1(1) by simp
      then obtain x y where "drop 14 b1 = [x, y]" by (auto simp: numeral_2_eq_2 length_Suc_conv simp del: length_drop)
      then show ?thesis by (simp add: list_update_append)
    qed
    have len16: "length (block_words (?z 56 @ be32 hi @ be32 lo)) = 16"
      by simp
    obtain b2 where t2: "transform (compress (digest S) (block_words c))
          (block_words (?z 56 @ be32 hi @ be32 lo)) (transforms S + 1) =
        (compress (compress (digest S) (block_words c)) (block_words (?z 56 @ be32 hi @ be32 lo)),
         b2, transforms S + 1 + 1)"
      using T [of "block_words (?z 56 @ be32 hi @ be32 lo)"] by (metis len16)
    have "sha1_digest m = compress (compress (digest S) (block_words c))
        (block_words (?z 56 @ be32 hi @ be32 lo))"
      using False by (simp add: sha1_digest_def chunks_pad [OF bs(2,3,1)] bs(4) hash_blocks_append L c_def buf_def)
    then show ?thesis
      using False c t1 t2 upd zeros bits
      by (simp add: sha1_final_def Let_def buffer_to_block_words BLOCK_BYTES_def BLOCK_INTS_def
          buf_def [symmetric] lo_def [symmetric] hi_def [symmetric])
        (simp add: buf_def)
  qed
qed

interpretation sha1_stream: streaming_digest sha1_new sha1_update "\<lambda>S. fst (sha1_final S)"
    "\<lambda>m. concat (map (\<lambda>w. put_hex 8 (unat w)) (sha1_digest m))" sha1_absorbed
proof unfold_locales
  show "sha1_absorbed sha1_new []"
    unfolding sha1_absorbed_def
    by (intro exI [of _ "[]"]) (simp add: sha1_new_def sha1_reset_def hash_blocks_def H_init_def)
next
  fix S m a
  assume "sha1_absorbed S m"
  then show "sha1_absorbed (sha1_update S a) (m @ a)"
    using update_absorbed [of S m "is_open a"] by (simp add: sha1_update_def)
next
  fix S m
  assume "sha1_absorbed S m"
  then show "fst (sha1_final S) = concat (map (\<lambda>w. put_hex 8 (unat w)) (sha1_digest m))"
    using final_digest by fastforce
qed

end
