(* ===== verification/Common.thy ===== *)
theory Common
  imports Sha1_Correct
begin

text \<open>
  \<^verbatim>\<open>include/common.hpp\<close> and \<^verbatim>\<open>src/common.cpp\<close>: file input, URL and hex encodings, hashes,
  peer addresses and the bitfield of available pieces. \<open>fixed_digest\<close> is the contract of
  the hash that the torrent components rely on.
\<close>

section \<open>Files\<close>

text \<open>
  \<^verbatim>\<open>cmn::read_file\<close>: the stream of a file that cannot be opened has \<^verbatim>\<open>failbit\<close> set
  (only \<^verbatim>\<open>badbit\<close> is turned into an exception).
\<close>

definition open_file :: "bytes option \<Rightarrow> istream" where
  "open_file f = (case f of None \<Rightarrow> \<lparr>rest = [], eofbit = False, failbit = True\<rparr>
     | Some content \<Rightarrow> is_open content)"

definition read_size :: nat where
  "read_size = 4096"

function read_loop :: "istream \<Rightarrow> bytes \<Rightarrow> bytes" where
  "read_loop stream out =
     (let (buf, stream') = is_read read_size stream
      in if failbit stream' then out @ buf else read_loop stream' (out @ buf))"
  by pat_completeness auto
termination
  by (relation "measure (\<lambda>(stream, out). length (rest stream))")
    (auto simp: is_read_def read_size_def is_good_def split: if_splits)

declare read_loop.simps [simp del]

definition read_file :: "bytes option \<Rightarrow> bytes" where
  "read_file f = read_loop (open_file f) []"

text \<open>\<^verbatim>\<open>SHA1::from_file\<close>: a file that cannot be opened is hashed as an empty one.\<close>

definition sha1_from_file :: "bytes option \<Rightarrow> bytes" where
  "sha1_from_file f = fst (sha1_final (fst (sha1_update_is sha1_new (open_file f))))"

lemma sha1_from_file_string: "sha1_from_file (Some s) = sha1_from_string s"
  by (simp add: sha1_from_file_def sha1_from_string_def sha1_update_def open_file_def)

section \<open>URL encoding\<close>

definition hexchar :: "byte \<Rightarrow> byte \<times> byte" where
  "hexchar c =
     (let hex1 = c div 16; hex2 = c mod 16
      in (hex1 + (if hex1 \<le> 9 then of_char CHR ''0'' else of_char CHR ''a'' - 10),
          hex2 + (if hex2 \<le> 9 then of_char CHR ''0'' else of_char CHR ''a'' - 10)))"

definition url_plain :: "byte \<Rightarrow> bool" where
  "url_plain c \<longleftrightarrow>
     (c \<ge> of_char CHR ''0'' \<and> c \<le> of_char CHR ''9'') \<or>
     (c \<ge> of_char CHR ''a'' \<and> c \<le> of_char CHR ''z'') \<or>
     (c \<ge> of_char CHR ''A'' \<and> c \<le> of_char CHR ''Z'') \<or>
     c \<in> set (str ''-_.!~*'' @ [39] @ str ''()'')"

fun urlencode :: "bytes \<Rightarrow> bytes" where
  "urlencode [] = []"
| "urlencode (c # s) =
     (if url_plain c then [c]
      else if c = of_char CHR '' '' then [of_char CHR ''+'']
      else (let (d1, d2) = hexchar c in [of_char CHR ''%'', d1, d2])) @ urlencode s"

section \<open>Hex strings\<close>

text \<open>\<^verbatim>\<open>strtol(s, nullptr, 16)\<close> on the strings of at most two characters it is called with.\<close>

definition hexval :: "byte \<Rightarrow> nat option" where
  "hexval c =
     (if of_char CHR ''0'' \<le> c \<and> c \<le> of_char CHR ''9'' then Some (unat c - 48)
      else if of_char CHR ''a'' \<le> c \<and> c \<le> of_char CHR ''f'' then Some (unat c - 87)
      else if of_char CHR ''A'' \<le> c \<and> c \<le> of_char CHR ''F'' then Some (unat c - 55)
      else None)"

definition strtol16 :: "bytes \<Rightarrow> int" where
  "strtol16 s =
     (let s = dropWhile isspace s;
          neg = (s \<noteq> [] \<and> hd s = of_char CHR ''-'');
          s = (if s \<noteq> [] \<and> (hd s = of_char CHR ''-'' \<or> hd s = of_char CHR ''+'') then tl s else s);
          s = (if take 2 s = str ''0x'' \<or> take 2 s = str ''0X'' then drop 2 s else s);
          v = foldl (\<lambda>v c. v * 16 + int (the (hexval c))) 0 (takeWhile (\<lambda>c. hexval c \<noteq> None) s)
      in if neg then - v else v)"

fun hex_to_bytes :: "bytes \<Rightarrow> bytes" where
  "hex_to_bytes [] = []"
| "hex_to_bytes [a] = [word_of_int (strtol16 [a])]"
| "hex_to_bytes (a # b # hex) = word_of_int (strtol16 [a, b]) # hex_to_bytes hex"

section \<open>Hashes\<close>

definition HASH_SIZE :: nat where
  "HASH_SIZE = 20"

type_synonym hash = bytes

text \<open>
  The constructors from a vector and from a string assert the size (\<open>None\<close>: the program
  aborts), the one from a pointer copies twenty bytes from it (\<open>None\<close>: it reads beyond
  the object).
\<close>

definition Hash_vec :: "bytes \<Rightarrow> hash option" where
  "Hash_vec v = (if length v = HASH_SIZE then Some v else None)"

definition Hash_str :: "bytes \<Rightarrow> hash option" where
  "Hash_str s =
     (if length s = HASH_SIZE then Some (take HASH_SIZE s @ drop (length s) (replicate HASH_SIZE 0)) else None)"

definition Hash_ptr :: "bytes \<Rightarrow> hash option" where
  "Hash_ptr p = (if HASH_SIZE \<le> length p then Some (take HASH_SIZE p) else None)"

definition Hash_default :: hash where
  "Hash_default = replicate HASH_SIZE 0"

definition Hash_of :: "bytes \<Rightarrow> hash option" where
  "Hash_of s = Hash_vec (hex_to_bytes (sha1_from_string s))"

definition as_hex :: "hash \<Rightarrow> bytes" where
  "as_hex h = concat (map (\<lambda>i. put_hex 2 (unat i)) h)"

section \<open>Addresses\<close>

record address =
  raw :: u32
  port :: u16

definition ntohs :: "u16 \<Rightarrow> u16" where
  "ntohs x = push_bit 8 x OR drop_bit 8 x"

definition load16 :: "bytes \<Rightarrow> u16" where
  "load16 bs = ucast (bs ! 0) OR push_bit 8 (ucast (bs ! 1))"

text \<open>The constructor reads six bytes at the pointer (\<open>None\<close>: beyond the object).\<close>

definition Address :: "bytes \<Rightarrow> address option" where
  "Address p = (if length p < 6 then None
     else Some \<lparr>raw = ntohl (load32 p), port = ntohs (load16 (drop 4 p))\<rparr>)"

definition address_ip :: "address \<Rightarrow> bytes" where
  "address_ip a =
     decimal (unat (drop_bit 24 (raw a) AND 0xff)) @ str ''.'' @
     decimal (unat (drop_bit 16 (raw a) AND 0xff)) @ str ''.'' @
     decimal (unat (drop_bit 8 (raw a) AND 0xff)) @ str ''.'' @
     decimal (unat (raw a AND 0xff))"

definition port_str :: "address \<Rightarrow> bytes" where
  "port_str a = decimal (unat (port a))"

definition address_to_string :: "address \<Rightarrow> bytes" where
  "address_to_string a = address_ip a @ str '':'' @ port_str a"

text \<open>\<^verbatim>\<open>std::hash<Address>\<close>; the hash of \<^verbatim>\<open>uint64_t\<close> is the standard library's.\<close>

definition address_hash :: "(u64 \<Rightarrow> u64) \<Rightarrow> address \<Rightarrow> u64" where
  "address_hash hash64 k = hash64 (ucast (raw k) + ucast (port k))"

definition push_bytes :: "bytes \<Rightarrow> u32 \<Rightarrow> bytes" where
  "push_bytes vec dat =
     vec @ [ucast (drop_bit 0 dat), ucast (drop_bit 8 dat), ucast (drop_bit 16 dat),
            ucast (drop_bit 24 dat)]"

section \<open>The bitfield\<close>

type_synonym bitfield = "bool list"

text \<open>The inner loop of \<^verbatim>\<open>copy_from\<close>: the mask is an eight-bit counter.\<close>

function bits_from :: "byte \<Rightarrow> byte \<Rightarrow> bitfield" where
  "bits_from c i = (if i > 0 then (c AND i \<noteq> 0) # bits_from c (drop_bit 1 i) else [])"
  by pat_completeness auto
termination
proof (relation "measure (\<lambda>(c, i). unat i)", goal_cases)
  case (2 c i)
  then have "0 < unat i" by (simp add: unat_gt_0)
  then show ?case
    unfolding in_measure prod.case unat_drop_bit_eq by (simp add: drop_bit_eq_div)
qed simp

declare bits_from.simps [simp del]

definition bitfield_copy_from :: "bytes \<Rightarrow> bitfield" where
  "bitfield_copy_from vec = concat (map (\<lambda>c. bits_from c (push_bit 7 1)) vec)"

definition bitfield_get :: "bitfield \<Rightarrow> nat \<Rightarrow> bool" where
  "bitfield_get bits index = (if index \<ge> length bits then False else bits ! index)"

section \<open>Lemmas\<close>

lemma read_loop_all: "is_good s \<Longrightarrow> read_loop s out = out @ rest s"
proof (induction s out rule: read_loop.induct)
  case (1 s out)
  show ?case
  proof (cases "read_size \<le> length (rest s)")
    case True
    with 1 show ?thesis
      by (subst read_loop.simps) (simp add: is_read_def is_good_def Let_def)
  next
    case False
    with 1 show ?thesis
      by (subst read_loop.simps) (simp add: is_read_def)
  qed
qed

lemma read_file_content: "read_file (Some content) = content" "read_file None = []"
proof -
  have "read_loop \<lparr>rest = [], eofbit = False, failbit = True\<rparr> [] = []"
    by (subst read_loop.simps) (simp add: is_read_def is_good_def)
  then show "read_file (Some content) = content" "read_file None = []"
    by (simp_all add: read_file_def open_file_def read_loop_all)
qed

lemma bits_from_all: "bits_from c 128 = map (\<lambda>k. bit c (7 - k)) [0..<8]"
proof -
  have step: "bits_from c i = (c AND i \<noteq> 0) # bits_from c (drop_bit 1 i)" if "i > 0" for i
    using that by (subst bits_from.simps) simp
  have stop: "bits_from c 0 = []" by (subst bits_from.simps) simp
  have "bits_from c 128 = map (\<lambda>m. c AND m \<noteq> 0) [128, 64, 32, 16, 8, 4, 2, 1]"
    by (simp add: step stop)
  moreover have "map (\<lambda>k. bit c (7 - k)) [0..<8] =
      [bit c 7, bit c 6, bit c 5, bit c 4, bit c 3, bit c 2, bit c 1, bit c 0]"
    by (simp add: upt_rec)
  moreover have mask: "(c AND push_bit k 1 \<noteq> 0) = bit c k" for k
    by (simp add: bit_iff_and_push_bit_not_eq_0)
  ultimately show ?thesis
    using mask [of 7] mask [of 6] mask [of 5] mask [of 4] mask [of 3] mask [of 2] mask [of 1] mask [of 0]
    by simp
qed

definition bitfield_size :: "bool list \<Rightarrow> nat" where
  "bitfield_size d = length d"

lemma length_bitfield: "length (bitfield_copy_from vec) = 8 * length vec"
  by (induction vec) (simp_all add: bitfield_copy_from_def bits_from_all)

lemma bitfield_nth:
  "i < 8 * length vec \<Longrightarrow> bitfield_copy_from vec ! i = bit (vec ! (i div 8)) (7 - i mod 8)"
proof (induction vec arbitrary: i)
  case (Cons c vec)
  have split: "bitfield_copy_from (c # vec) = map (\<lambda>k. bit c (7 - k)) [0..<8] @ bitfield_copy_from vec"
    by (simp add: bitfield_copy_from_def bits_from_all)
  show ?case
  proof (cases "i < 8")
    case True
    then show ?thesis by (simp add: split nth_append)
  next
    case False
    then have "i div 8 = Suc ((i - 8) div 8)" "(i - 8) mod 8 = i mod 8"
      by (simp_all add: le_div_geq le_mod_geq)
    with Cons False show ?thesis by (simp add: split nth_append)
  qed
qed simp

text \<open>A decoder of URL-encoded text (the server's side, not part of the program).\<close>

fun urldecode :: "bytes \<Rightarrow> bytes option" where
  "urldecode [] = Some []"
| "urldecode (c # s) =
     (if c = of_char CHR ''%'' then
        (case s of
           a # b # s' \<Rightarrow>
             (case (hexval a, hexval b) of
                (Some x, Some y) \<Rightarrow> map_option (Cons (word_of_nat (16 * x + y))) (urldecode s')
              | _ \<Rightarrow> None)
         | _ \<Rightarrow> None)
      else map_option (Cons (if c = of_char CHR ''+'' then of_char CHR '' '' else c)) (urldecode s))"

lemma less16_cases:
  assumes "n < (16 :: nat)"
  obtains "n = 0" | "n = 1" | "n = 2" | "n = 3" | "n = 4" | "n = 5" | "n = 6" | "n = 7"
    | "n = 8" | "n = 9" | "n = 10" | "n = 11" | "n = 12" | "n = 13" | "n = 14" | "n = 15"
proof -
  from assms have "n \<in> {0, 1, 2, 3, 4, 5, 6, 7, 8, 9, 10, 11, 12, 13, 14, 15}"
    unfolding insert_iff empty_iff by presburger
  then show ?thesis using that by blast
qed

text \<open>What the two writers of hexadecimal digits have in common with the readers.\<close>

lemma hexval_hex_digit [simp]: "n < 16 \<Longrightarrow> hexval (hex_digit n) = Some n"
  by (cases n rule: less16_cases) (simp_all add: hexval_def hex_digit_def)

lemma hex_digit_class:
  "n < 16 \<Longrightarrow> \<not> isspace (hex_digit n) \<and> hex_digit n \<notin> {of_char CHR ''-'', of_char CHR ''+'',
    of_char CHR ''x'', of_char CHR ''X''}"
  by (cases n rule: less16_cases) (simp_all add: isspace_def hex_digit_def)

lemma hexchar_digits:
  "hexchar c = (hex_digit (unat c div 16), hex_digit (unat c mod 16))"
proof -
  have half: "h + (if h \<le> 9 then of_char CHR ''0'' else of_char CHR ''a'' - 10) = hex_digit (unat h)"
    if "unat h < 16" for h :: byte
  proof -
    have "h = word_of_nat (unat h)" by simp
    with that show ?thesis
      by (cases "unat h" rule: less16_cases) (simp_all add: hex_digit_def)
  qed
  have "unat (c div 16) = unat c div 16" "unat (c mod 16) = unat c mod 16"
    by (simp_all add: unat_div unat_mod)
  moreover have "unat c < 256" by (rule unat_bounds)
  ultimately show ?thesis
    using half [of "c div 16"] half [of "c mod 16"] by (simp add: hexchar_def Let_def)
qed

lemma strtol16_hex:
  "a < 16 \<Longrightarrow> b < 16 \<Longrightarrow> strtol16 [hex_digit a, hex_digit b] = int (16 * a + b)"
  using hex_digit_class [of a] hex_digit_class [of b] by (simp add: strtol16_def)

lemma put_hex_small: "n < 16 \<Longrightarrow> put_hex 1 n = [hex_digit n]"
  by (simp add: put_hex_def hex_digits.simps)

lemma put_hex_Suc:
  assumes "0 < k"
  shows "put_hex (Suc k) n = put_hex k (n div 16) @ [hex_digit (n mod 16)]"
proof (cases "n < 16")
  case True
  have "replicate k (48 :: byte) = replicate (k - 1) 48 @ [48]"
    using assms by (metis One_nat_def Suc_pred replicate_Suc replicate_append_same)
  with True show ?thesis
    by (simp add: put_hex_def hex_digits.simps hex_digit_def)
qed (simp add: put_hex_def hex_digits.simps [of n])

lemma put_hex_2: "n < 256 \<Longrightarrow> put_hex 2 n = [hex_digit (n div 16), hex_digit (n mod 16)]"
  using put_hex_Suc [of 1 n] put_hex_small [of "n div 16"] by (simp add: numeral_2_eq_2)

lemma put_hex_8:
  "put_hex 8 (unat w) = concat (map (\<lambda>i. put_hex 2 (unat i)) (be32 w))"
proof -
  let ?n = "unat w"
  have n: "?n < 2 ^ 32" by (rule unat_bounds)
  have byte: "unat (ucast (drop_bit k w) :: byte) = ?n div 2 ^ k mod 256" for k
    unfolding unsigned_ucast_eq unat_drop_bit_eq
    by (simp add: drop_bit_eq_div take_bit_eq_mod)
  have "put_hex 8 ?n = map hex_digit [?n div 16 ^ 7, ?n div 16 ^ 6 mod 16, ?n div 16 ^ 5 mod 16,
      ?n div 16 ^ 4 mod 16, ?n div 16 ^ 3 mod 16, ?n div 16 ^ 2 mod 16, ?n div 16 mod 16, ?n mod 16]"
    using n put_hex_Suc [of 7 ?n] put_hex_Suc [of 6 "?n div 16"] put_hex_Suc [of 5 "?n div 16 ^ 2"]
      put_hex_Suc [of 4 "?n div 16 ^ 3"] put_hex_Suc [of 3 "?n div 16 ^ 4"]
      put_hex_Suc [of 2 "?n div 16 ^ 5"] put_hex_2 [of "?n div 16 ^ 6"]
    by (simp add: eval_nat_numeral(3) [symmetric] div_mult2_eq [symmetric])
  moreover have nibbles: "m mod 256 div 16 = m div 16 mod 16" "m mod 256 mod 16 = m mod 16" for m :: nat
    using mod_mult2_eq [of m 16 16] by (simp_all add: mod_mod_cancel)
  moreover have "?n div 2 ^ 24 mod 256 = ?n div 2 ^ 24"
    using n by simp
  ultimately show ?thesis
    using byte [of 24] byte [of 16] byte [of 8] byte [of 0] n
    by (simp add: be32_def put_hex_2 nibbles div_mult2_eq [symmetric])
qed

text \<open>Reading back what \<open>as_hex\<close> and the SHA-1 object print.\<close>

lemma hex_to_bytes_put_hex:
  "hex_to_bytes (put_hex 2 (unat c) @ s) = c # hex_to_bytes s"
proof -
  have "unat c < 256" by (rule unat_bounds)
  then have "strtol16 [hex_digit (unat c div 16), hex_digit (unat c mod 16)] = int (unat c)"
    by (simp add: strtol16_hex)
  then show ?thesis
    using \<open>unat c < 256\<close> by (simp add: put_hex_2)
qed

lemma hex_to_bytes_hex: "hex_to_bytes (concat (map (\<lambda>i. put_hex 2 (unat i)) bs)) = bs"
  by (induction bs) (simp_all add: hex_to_bytes_put_hex)

lemma hex_of_words:
  "concat (map (\<lambda>w. put_hex 8 (unat w)) ws) =
     concat (map (\<lambda>i. put_hex 2 (unat i)) (concat (map be32 ws)))"
  by (induction ws) (simp_all add: put_hex_8)

text \<open>The bytes of the digest, as the rest of the program sees them.\<close>

definition sha1_bytes :: "bytes \<Rightarrow> bytes" where
  "sha1_bytes s = concat (map be32 (sha1_digest s))"

lemma length_concat_be32: "length (concat (map be32 ws)) = 4 * length ws"
  by (induction ws) simp_all

lemma length_sha1_bytes [simp]: "length (sha1_bytes s) = 20"
  by (simp add: sha1_bytes_def length_concat_be32 sha1_digest_def length_hash_blocks)

lemma hex_to_bytes_sha1: "hex_to_bytes (sha1_from_string s) = sha1_bytes s"
  unfolding sha1_from_string_def sha1_stream.one_shot hex_of_words hex_to_bytes_hex
  by (simp add: sha1_bytes_def)

lemma Hash_of_sha1 [simp]: "Hash_of s = Some (sha1_bytes s)"
  by (simp add: Hash_of_def Hash_vec_def HASH_SIZE_def hex_to_bytes_sha1)

text \<open>
  The contract of the hash: every digest has the same length. A concatenation of digests
  can then be cut up again.
\<close>

locale fixed_digest =
  fixes H :: "bytes \<Rightarrow> bytes option"
    and size :: nat
  assumes H_total: "\<exists>h. H x = Some h \<and> length h = size"
    and size_pos: "0 < size"
begin

lemma H_length: "H x = Some h \<Longrightarrow> length h = size"
  using H_total [of x] by simp

lemma chunks_digests:
  assumes "map H xs = map Some hs"
  shows "chunks size (concat hs) = hs"
proof -
  have "length h = size" if "h \<in> set hs" for h
  proof -
    from that have "Some h \<in> set (map H xs)" by (simp add: assms)
    then show ?thesis using H_length by auto
  qed
  then show ?thesis
    using chunks_concat [of size hs "[]"] size_pos by simp
qed

end

interpretation hash: fixed_digest Hash_of HASH_SIZE
  by unfold_locales (simp_all add: HASH_SIZE_def)

text \<open>URL encoding of one byte is decoded to that byte.\<close>

lemma urldecode_escape:
  "\<not> url_plain c \<Longrightarrow> c \<noteq> of_char CHR '' '' \<Longrightarrow>
    urldecode ((let (d1, d2) = hexchar c in [of_char CHR ''%'', d1, d2]) @ s) =
      map_option (Cons c) (urldecode s)"
  using unat_bounds(1) [of c] by (simp add: hexchar_digits)

lemma url_plain_class: "url_plain c \<Longrightarrow> c \<noteq> of_char CHR ''%'' \<and> c \<noteq> of_char CHR ''+''"
  by (auto simp: url_plain_def)

lemma urldecode_urlencode: "urldecode (urlencode s) = Some s"
proof (induction s)
  case (Cons c s)
  consider "url_plain c" | "\<not> url_plain c" "c = of_char CHR '' ''"
    | "\<not> url_plain c" "c \<noteq> of_char CHR '' ''" by blast
  then show ?case
  proof cases
    case 1
    with Cons url_plain_class [OF 1] show ?thesis by simp
  next
    case 2
    with Cons show ?thesis by simp
  next
    case 3
    with Cons urldecode_escape [OF 3] show ?thesis by simp
  qed
qed simp

end
