(* ===== verification/Pieces.thy ===== *)
theory Pieces
  imports Common
begin

text \<open>
  The blocks and pieces of \<^verbatim>\<open>include/torrent.hpp\<close>. A piece and the peer that downloads it
  share their blocks through \<^verbatim>\<open>shared_ptr\<close>, and so do the timers, so blocks live in a store
  and are named by their address in it. \<open>abs_piece\<close> is what a piece is for its users: the
  contents of its blocks, and the bytes they make together.
\<close>

section \<open>Blocks\<close>

definition BLOCK_SIZE :: nat where
  "BLOCK_SIZE = 2 ^ 14"

datatype block_status = Ok | AlreadyFilled | WrongPiece | WrongOffset | TooMuchData

fun block_status_string :: "block_status \<Rightarrow> bytes" where
  "block_status_string Ok = str ''Ok''"
| "block_status_string AlreadyFilled = str ''AlreadyFilled''"
| "block_status_string WrongPiece = str ''WrongPiece''"
| "block_status_string WrongOffset = str ''WrongOffset''"
| "block_status_string TooMuchData = str ''TooMuchData''"

record block =
  filled :: bool
  reserved :: bool
  block_data :: bytes
  len :: nat
  offset :: u32

definition Block :: "u32 \<Rightarrow> block" where
  "Block off = \<lparr>filled = False, reserved = False, block_data = replicate BLOCK_SIZE 0, len = 0,
     offset = off\<rparr>"

definition block_index :: "block \<Rightarrow> u32" where
  "block_index b = offset b div word_of_nat BLOCK_SIZE"

definition block_release :: "block \<Rightarrow> block" where
  "block_release b = b\<lparr>reserved := False\<rparr>"

definition block_fill :: "istream \<Rightarrow> nat \<Rightarrow> block \<Rightarrow> block_status \<times> block" where
  "block_fill ss n b =
     (if filled b then (AlreadyFilled, b)
      else (Ok, b\<lparr>block_data := overlay (fst (is_read n ss)) (block_data b), len := n, filled := True\<rparr>))"

text \<open>The store of blocks: \<^verbatim>\<open>make_shared\<close> allocates at the end.\<close>

type_synonym store = "block list"
type_synonym addr = nat

section \<open>Pieces\<close>

record complete_piece =
  cp_data :: bytes
  cp_index :: u32
  cp_size :: u32

definition cp_hash :: "complete_piece \<Rightarrow> hash option" where
  "cp_hash c = Hash_of (take (unat (cp_size c)) (cp_data c))"

definition cp_offset :: "complete_piece \<Rightarrow> u32" where
  "cp_offset c = cp_index c * cp_size c"

record piece =
  index :: u32
  piece_size :: u32
  blocks :: "addr list"
  finalized :: "complete_piece option"

definition Piece :: "u32 \<Rightarrow> u32 \<Rightarrow> piece" where
  "Piece i n = \<lparr>index = i, piece_size = n, blocks = [], finalized = None\<rparr>"

definition block_count :: "piece \<Rightarrow> u32" where
  "block_count p =
     (if piece_size p mod word_of_nat BLOCK_SIZE = 0 then piece_size p div word_of_nat BLOCK_SIZE
      else piece_size p div word_of_nat BLOCK_SIZE + 1)"

text \<open>
  \<^verbatim>\<open>Piece::accept\<close>. The two header words are read into locals without initializer; \<open>junk1\<close>
  and \<open>junk2\<close> are what is there when the payload is too short. The length of the data is
  a \<^verbatim>\<open>uint32_t\<close> and wraps around.
\<close>

definition read_word :: "u32 \<Rightarrow> istream \<Rightarrow> u32 \<times> istream" where
  "read_word junk ss =
     (let (got, ss') = is_read 4 ss in (load32 (overlay got (mem32 junk)), ss'))"

definition accept ::
    "u32 \<Rightarrow> u32 \<Rightarrow> bytes \<Rightarrow> piece \<Rightarrow> store \<Rightarrow> (block_status \<times> u32) \<times> store" where
  "accept junk1 junk2 payload p st =
     (let data_len = (word_of_int (int (length payload) - 8) :: u32);
          ss = is_open payload;
          (piece_index, ss) = read_word junk1 ss;
          piece_index = ntohl piece_index;
          (off, ss) = read_word junk2 ss;
          block_index = ntohl off div word_of_nat BLOCK_SIZE
      in if unat data_len > BLOCK_SIZE then ((TooMuchData, block_index), st)
         else if piece_index \<noteq> index p then ((WrongPiece, block_index), st)
         else if unat block_index \<ge> length (blocks p) then ((WrongOffset, block_index), st)
         else
           (let a = blocks p ! unat block_index;
                (status, b) = block_fill ss (unat data_len) (st ! a)
            in ((status, block_index), st[a := b])))"

text \<open>
  \<^verbatim>\<open>next_block\<close>: a block that has not been started, else the first one that is neither
  filled nor reserved.
\<close>

definition block_free :: "store \<Rightarrow> addr \<Rightarrow> bool" where
  "block_free st a \<longleftrightarrow> \<not> filled (st ! a) \<and> \<not> reserved (st ! a)"

definition next_block :: "piece \<Rightarrow> store \<Rightarrow> addr option \<times> piece \<times> store" where
  "next_block p st =
     (if length (blocks p) < unat (block_count p)
      then
        (let off = (word_of_nat (length (blocks p) * BLOCK_SIZE) :: u32)
         in (Some (length st), p\<lparr>blocks := blocks p @ [length st]\<rparr>,
             st @ [(Block off)\<lparr>reserved := True\<rparr>]))
      else
        (case find (block_free st) (blocks p) of
           None \<Rightarrow> (None, p, st)
         | Some a \<Rightarrow> (Some a, p, st[a := (st ! a)\<lparr>reserved := True\<rparr>])))"

definition is_complete :: "piece \<Rightarrow> store \<Rightarrow> bool" where
  "is_complete p st \<longleftrightarrow>
     length (blocks p) = unat (block_count p) \<and> list_all (\<lambda>a. filled (st ! a)) (blocks p)"

text \<open>
  \<^verbatim>\<open>finalize\<close> copies the blocks one after the other into a fresh array of \<open>piece_size\<close>
  bytes, whose content before is \<open>junk\<close>. \<open>None\<close>: it writes beyond the array.
\<close>

definition block_bytes :: "block \<Rightarrow> bytes" where
  "block_bytes b = take (len b) (block_data b)"

definition finalize :: "bytes \<Rightarrow> piece \<Rightarrow> store \<Rightarrow> (complete_piece \<times> piece) option" where
  "finalize junk p st =
     (case finalized p of
        Some c \<Rightarrow> Some (c, p)
      | None \<Rightarrow>
          (let copied = concat (map (\<lambda>a. block_bytes (st ! a)) (blocks p))
           in if length copied > unat (piece_size p) then None
              else
                (let c = \<lparr>cp_data = overlay copied junk, cp_index = index p, cp_size = piece_size p\<rparr>
                 in Some (c, p\<lparr>finalized := Some c\<rparr>))))"

section \<open>What a piece stands for\<close>

text \<open>The contents of the blocks that have been started, \<open>None\<close> while a block is missing.\<close>

definition abs_block :: "block \<Rightarrow> bytes option" where
  "abs_block b = (if filled b then Some (block_bytes b) else None)"

definition abs_piece :: "piece \<Rightarrow> store \<Rightarrow> bytes option list" where
  "abs_piece p st = map (\<lambda>a. abs_block (st ! a)) (blocks p)"

text \<open>
  The invariant: the blocks of a piece are different objects of the store, in the order of
  their offsets, and a block never holds more than its buffer.
\<close>

definition block_ok :: "block \<Rightarrow> bool" where
  "block_ok b \<longleftrightarrow> length (block_data b) = BLOCK_SIZE \<and> len b \<le> BLOCK_SIZE"

definition piece_inv :: "piece \<Rightarrow> store \<Rightarrow> bool" where
  "piece_inv p st \<longleftrightarrow>
     distinct (blocks p) \<and> set (blocks p) \<subseteq> {..<length st} \<and>
     length (blocks p) \<le> unat (block_count p) \<and>
     (\<forall>i < length (blocks p). offset (st ! (blocks p ! i)) = word_of_nat (i * BLOCK_SIZE)) \<and>
     (\<forall>a \<in> set (blocks p). block_ok (st ! a)) \<and> finalized p = None"

end
