(* ===== verification/Pieces_Correct.thy ===== *)
theory Pieces_Correct
  imports Pieces
begin

text \<open>
  The operations of a piece against what it stands for: \<open>accept\<close> stores the data of a block
  exactly when the block is missing and answers which of the checks failed otherwise,
  \<open>next_block\<close> hands out every block once until it is released, a complete piece
  finalizes to the concatenation of its blocks.
\<close>

section \<open>Reading the header\<close>

lemma read_word_ok:
  "is_good ss \<Longrightarrow> rest ss = w @ r \<Longrightarrow> length w = 4 \<Longrightarrow>
    read_word junk ss = (load32 w, ss\<lparr>rest := r\<rparr>)"
  by (simp add: read_word_def is_read_ok [where a = w and b = r] overlay_def)

definition accept_header :: "u32 \<Rightarrow> u32 \<Rightarrow> bytes \<Rightarrow> bytes" where
  "accept_header i off dat = be32 i @ be32 off @ dat"

lemma data_len_wrap: "n < 2 ^ 32 \<Longrightarrow> unat (word_of_int (int (8 + n) - 8) :: u32) = n"
proof -
  assume "n < 2 ^ 32"
  have "word_of_int (int (8 + n) - 8) = (word_of_nat n :: u32)" by simp
  with \<open>n < 2 ^ 32\<close> show ?thesis by (simp only: unat_of_nat) simp
qed

definition fill_with :: "bytes \<Rightarrow> block \<Rightarrow> block" where
  "fill_with dat b = b\<lparr>block_data := overlay dat (block_data b), len := length dat, filled := True\<rparr>"

lemma accept_unfold:
  assumes "length dat < 2 ^ 32"
  shows "accept j1 j2 (accept_header i off dat) p st =
    (let k = off div word_of_nat BLOCK_SIZE in
     if length dat > BLOCK_SIZE then ((TooMuchData, k), st)
     else if i \<noteq> index p then ((WrongPiece, k), st)
     else if unat k \<ge> length (blocks p) then ((WrongOffset, k), st)
     else if filled (st ! (blocks p ! unat k)) then ((AlreadyFilled, k), st)
     else ((Ok, k), st[blocks p ! unat k := fill_with dat (st ! (blocks p ! unat k))]))"
proof -
  let ?ss = "is_open (accept_header i off dat)"
  have r1: "read_word j1 ?ss = (load32 (be32 i), ?ss\<lparr>rest := be32 off @ dat\<rparr>)"
    by (rule read_word_ok) (simp_all add: accept_header_def)
  have r2: "read_word j2 (?ss\<lparr>rest := be32 off @ dat\<rparr>) = (load32 (be32 off), ?ss\<lparr>rest := dat\<rparr>)"
    by (subst read_word_ok [of _ "be32 off" dat]) simp_all
  have len: "length (accept_header i off dat) = 8 + length dat"
    by (simp add: accept_header_def)
  show ?thesis
    unfolding accept_def Let_def len r1 r2 prod.case data_len_wrap [OF assms]
    by (simp add: block_fill_def fill_with_def Let_def)
qed

text \<open>A payload that is too short for its header has a huge data length.\<close>

lemma accept_short:
  assumes "length payload < 8"
  shows "\<exists>k. accept j1 j2 payload p st = ((TooMuchData, k), st)"
proof -
  have "(- 8 :: u32) = word_of_nat (2 ^ 32 - 8)" by simp
  then have "word_of_int (int (length payload) - 8) = (word_of_nat (length payload) + word_of_nat (2 ^ 32 - 8) :: u32)"
    by (metis diff_conv_add_uminus of_int_diff of_int_numeral of_int_of_nat_eq)
  also have "\<dots> = word_of_nat (length payload + (2 ^ 32 - 8))" by (simp only: of_nat_add)
  finally have "unat (word_of_int (int (length payload) - 8) :: u32) = length payload + (2 ^ 32 - 8)"
    using assms by (simp only: unat_of_nat) simp
  then show ?thesis
    by (simp add: accept_def Let_def BLOCK_SIZE_def split: prod.split)
qed

section \<open>The operations on what a piece stands for\<close>

lemma block_ok_new [simp]: "block_ok (Block off)" "block_ok ((Block off)\<lparr>reserved := r\<rparr>)"
  by (simp_all add: block_ok_def Block_def)

lemma block_ok_fill:
  "block_ok b \<Longrightarrow> length dat \<le> BLOCK_SIZE \<Longrightarrow> block_ok (fill_with dat b)"
  by (simp add: block_ok_def fill_with_def length_overlay)

lemma block_bytes_fill: "block_bytes (fill_with dat b) = dat"
  by (simp add: block_bytes_def fill_with_def overlay_def)

lemma abs_block_fill [simp]: "abs_block (fill_with dat b) = Some dat"
  by (simp add: abs_block_def block_bytes_fill) (simp add: fill_with_def)

lemma offset_fill [simp]: "offset (fill_with dat b) = offset b"
  by (simp add: fill_with_def)

lemma length_abs_piece [simp]: "length (abs_piece p st) = length (blocks p)"
  by (simp add: abs_piece_def)

lemma nth_abs_piece: "k < length (blocks p) \<Longrightarrow> abs_piece p st ! k = abs_block (st ! (blocks p ! k))"
  by (simp add: abs_piece_def)

lemma abs_block_None [simp]: "abs_block b = None \<longleftrightarrow> \<not> filled b"
  by (simp add: abs_block_def)

text \<open>Writing to one block of a piece changes that entry of the abstraction only.\<close>

lemma abs_piece_update:
  assumes "distinct (blocks p)" and "set (blocks p) \<subseteq> {..<length st}" and "k < length (blocks p)"
  shows "abs_piece p (st[blocks p ! k := b]) = (abs_piece p st)[k := abs_block b]"
proof (rule nth_equalityI)
  fix i
  assume "i < length (abs_piece p (st[blocks p ! k := b]))"
  then have i: "i < length (blocks p)" by simp
  have "blocks p ! k < length st" "blocks p ! i = blocks p ! k \<longleftrightarrow> i = k"
    using assms i by (auto simp: nth_eq_iff_index_eq subset_eq)
  with i show "abs_piece p (st[blocks p ! k := b]) ! i = (abs_piece p st)[k := abs_block b] ! i"
    by (auto simp: nth_abs_piece nth_list_update)
qed simp

lemma piece_inv_addr: "piece_inv p st \<Longrightarrow> a \<in> set (blocks p) \<Longrightarrow> a < length st \<and> block_ok (st ! a)"
  by (auto simp: piece_inv_def)

text \<open>A change to the store that keeps offsets and buffer sizes keeps the invariant.\<close>

lemma piece_inv_update:
  assumes "piece_inv p st" and "a < length st" and "offset b = offset (st ! a)" and "block_ok (st ! a) \<Longrightarrow> block_ok b"
  shows "piece_inv p (st[a := b])"
  using assms by (auto simp: piece_inv_def nth_list_update)

lemma piece_inv_append: "piece_inv p st \<Longrightarrow> piece_inv p (st @ [b])"
  by (force simp: piece_inv_def nth_append subset_eq)

lemma piece_inv_Piece: "piece_inv (Piece i n) st"
  by (simp add: piece_inv_def Piece_def)

text \<open>The effect of \<open>accept\<close> on the abstraction: a message with its header complete.\<close>

definition accept_status :: "u32 \<Rightarrow> u32 \<Rightarrow> bytes \<Rightarrow> u32 \<Rightarrow> bytes option list \<Rightarrow> block_status" where
  "accept_status i off dat self bs =
     (let k = unat off div BLOCK_SIZE in
      if length dat > BLOCK_SIZE then TooMuchData
      else if i \<noteq> self then WrongPiece
      else if k \<ge> length bs then WrongOffset
      else if bs ! k \<noteq> None then AlreadyFilled
      else Ok)"

lemma unat_block_index: "unat (off div word_of_nat BLOCK_SIZE :: u32) = unat off div BLOCK_SIZE"
  by (simp add: unat_div BLOCK_SIZE_def)

lemma accept_abs:
  assumes "piece_inv p st" and "length dat < 2 ^ 32"
    and "accept j1 j2 (accept_header i off dat) p st = ((s, k), st')"
  shows "s = accept_status i off dat (index p) (abs_piece p st)"
    and "k = off div word_of_nat BLOCK_SIZE"
    and "abs_piece p st' =
      (if s = Ok then (abs_piece p st)[unat off div BLOCK_SIZE := Some dat] else abs_piece p st)"
    and "piece_inv p st'"
proof -
  let ?k = "unat off div BLOCK_SIZE"
  note acc = assms(3) [unfolded accept_unfold [OF assms(2)] Let_def unat_block_index]
  show "k = off div word_of_nat BLOCK_SIZE"
    using acc by (auto split: if_splits)
  have bs: "abs_piece p st ! ?k = None \<longleftrightarrow> \<not> filled (st ! (blocks p ! ?k))" if "?k < length (blocks p)"
    using that by (simp add: nth_abs_piece)
  show s: "s = accept_status i off dat (index p) (abs_piece p st)"
    using acc bs by (auto simp: accept_status_def Let_def split: if_splits)
  show "abs_piece p st' =
      (if s = Ok then (abs_piece p st)[?k := Some dat] else abs_piece p st)"
    using acc assms(1) by (auto simp: abs_piece_update piece_inv_def split: if_splits)
  show "piece_inv p st'"
  proof (cases "s = Ok")
    case True
    then have st': "st' = st[blocks p ! ?k := fill_with dat (st ! (blocks p ! ?k))]"
      and "?k < length (blocks p)" "length dat \<le> BLOCK_SIZE"
      using acc by (auto split: if_splits)
    then have "blocks p ! ?k < length st"
      using piece_inv_addr [OF assms(1)] by auto
    with \<open>length dat \<le> BLOCK_SIZE\<close> assms(1) show ?thesis
      unfolding st' by (intro piece_inv_update) (auto intro: block_ok_fill)
  next
    case False
    with acc assms(1) show ?thesis by (auto split: if_splits)
  qed
qed

lemma payload_cases:
  obtains "length payload < 8"
  | i off dat where "payload = accept_header i off dat"
proof (cases "length payload < 8")
  case False
  then have "payload = accept_header (load_be32 (take 4 payload)) (load_be32 (take 4 (drop 4 payload)))
      (drop 8 payload)"
    by (simp add: accept_header_def be32_load_be32) (metis append_take_drop_id drop_drop numeral_Bit0)
  then show ?thesis using that(2) by blast
qed

text \<open>
  \<open>accept\<close> on any payload that fits a message keeps the invariant and touches no block of
  another piece.
\<close>

lemma accept_inv:
  assumes "piece_inv p st" and "length payload < 2 ^ 32" and "accept j1 j2 payload p st = (r, st')"
  shows "piece_inv p st'" and "length st' = length st"
    and "\<And>a. a \<notin> set (blocks p) \<Longrightarrow> st' ! a = st ! a"
    and "\<And>a. offset (st' ! a) = offset (st ! a) \<and> reserved (st' ! a) = reserved (st ! a) \<and>
           (filled (st ! a) \<longrightarrow> filled (st' ! a))"
proof -
  have "piece_inv p st' \<and> length st' = length st \<and> (\<forall>a. a \<notin> set (blocks p) \<longrightarrow> st' ! a = st ! a) \<and>
    (\<forall>a. offset (st' ! a) = offset (st ! a) \<and> reserved (st' ! a) = reserved (st ! a) \<and>
           (filled (st ! a) \<longrightarrow> filled (st' ! a)))"
  proof (cases payload rule: payload_cases)
    case 1
    with accept_short [OF 1, of j1 j2 p st] assms show ?thesis by auto
  next
    case (2 i off dat)
    then have len: "length dat < 2 ^ 32" using assms(2) by (simp add: accept_header_def)
    obtain s k where r: "r = (s, k)" by fastforce
    note acc = assms(3) [unfolded 2 r accept_unfold [OF len] Let_def unat_block_index]
    have "piece_inv p st'"
      using accept_abs(4) [OF assms(1) len] assms(3) unfolding 2 r by blast
    moreover have "length st' = length st"
      using acc by (auto split: if_splits)
    moreover have "st' ! a = st ! a" if "a \<notin> set (blocks p)" for a
    proof -
      have "blocks p ! (unat off div BLOCK_SIZE) \<noteq> a" if "unat off div BLOCK_SIZE < length (blocks p)"
        using \<open>a \<notin> set (blocks p)\<close> that by auto
      with acc show ?thesis by (auto simp: not_le split: if_splits)
    qed
    moreover have "offset (st' ! a) = offset (st ! a) \<and> reserved (st' ! a) = reserved (st ! a) \<and>
        (filled (st ! a) \<longrightarrow> filled (st' ! a))" for a
      using acc piece_inv_addr [OF assms(1)]
      by (cases "a < length st") (auto simp: nth_list_update fill_with_def list_update_beyond split: if_splits)
    ultimately show ?thesis by blast
  qed
  then show "piece_inv p st'" "length st' = length st"
    "\<And>a. a \<notin> set (blocks p) \<Longrightarrow> st' ! a = st ! a"
    "\<And>a. offset (st' ! a) = offset (st ! a) \<and> reserved (st' ! a) = reserved (st ! a) \<and>
       (filled (st ! a) \<longrightarrow> filled (st' ! a))" by auto
qed

lemma block_release_fields [simp]:
  "filled (block_release b) = filled b" "reserved (block_release b) = False"
  "offset (block_release b) = offset b" "abs_block (block_release b) = abs_block b"
  "block_ok (block_release b) = block_ok b"
  by (simp_all add: block_release_def abs_block_def block_bytes_def block_ok_def)

lemma reserve_fields [simp]:
  "abs_block (b\<lparr>reserved := r\<rparr>) = abs_block b" "block_ok (b\<lparr>reserved := r\<rparr>) = block_ok b"
  by (simp_all add: abs_block_def block_bytes_def block_ok_def)

lemma Block_fields [simp]:
  "filled (Block off) = False" "reserved (Block off) = False" "offset (Block off) = off"
  by (simp_all add: Block_def)

text \<open>
  \<open>next_block\<close> returns a block of the piece that was not handed out (new, or neither filled
  nor reserved), marks it reserved and changes nothing else.
\<close>

lemma next_block_Some:
  assumes "piece_inv p st" and "next_block p st = (Some a, p', st')"
  shows "piece_inv p' st'" and "a \<in> set (blocks p')" and "a < length st'"
    and "reserved (st' ! a) \<and> \<not> filled (st' ! a)"
    and "a < length st \<longrightarrow> block_free st a \<and> a \<in> set (blocks p)"
    and "\<And>b. b < length st \<Longrightarrow> b \<noteq> a \<Longrightarrow> st' ! b = st ! b"
    and "length st \<le> length st'" and "index p' = index p" and "set (blocks p) \<subseteq> set (blocks p')"
proof -
  have "piece_inv p' st' \<and> a \<in> set (blocks p') \<and> a < length st' \<and> (reserved (st' ! a) \<and> \<not> filled (st' ! a)) \<and>
    (a < length st \<longrightarrow> block_free st a \<and> a \<in> set (blocks p)) \<and>
    (\<forall>b. b < length st \<longrightarrow> b \<noteq> a \<longrightarrow> st' ! b = st ! b) \<and> length st \<le> length st' \<and>
    index p' = index p \<and> set (blocks p) \<subseteq> set (blocks p')"
  proof (cases "length (blocks p) < unat (block_count p)")
    case True
    with assms have eq: "a = length st" "p' = p\<lparr>blocks := blocks p @ [length st]\<rparr>"
      "st' = st @ [(Block (word_of_nat (length (blocks p) * BLOCK_SIZE)))\<lparr>reserved := True\<rparr>]"
      by (auto simp: next_block_def)
    have "block_count p' = block_count p" by (simp add: eq block_count_def)
    with True assms(1) have "piece_inv p' st'"
      by (auto simp: piece_inv_def eq nth_append less_Suc_eq subset_eq)
    with eq show ?thesis by (auto simp: nth_append)
  next
    case False
    with assms have eq: "find (block_free st) (blocks p) = Some a" "p' = p"
      "st' = st[a := (st ! a)\<lparr>reserved := True\<rparr>]"
      by (auto simp: next_block_def split: option.splits)
    then have "a \<in> set (blocks p)" "block_free st a"
      by (auto simp: find_Some_iff)
    moreover have "a < length st"
      using piece_inv_addr [OF assms(1)] \<open>a \<in> set (blocks p)\<close> by blast
    moreover have "piece_inv p st'"
      using assms(1) calculation unfolding eq by (intro piece_inv_update) auto
    ultimately show ?thesis
      using eq by (auto simp: block_free_def)
  qed
  then show "piece_inv p' st'" "a \<in> set (blocks p')" "a < length st'"
    "reserved (st' ! a) \<and> \<not> filled (st' ! a)" "a < length st \<longrightarrow> block_free st a \<and> a \<in> set (blocks p)"
    "\<And>b. b < length st \<Longrightarrow> b \<noteq> a \<Longrightarrow> st' ! b = st ! b"
    "length st \<le> length st'" "index p' = index p" "set (blocks p) \<subseteq> set (blocks p')" by auto
qed

lemma next_block_None:
  assumes "next_block p st = (None, p', st')"
  shows "p' = p" and "st' = st" and "length (blocks p) \<ge> unat (block_count p)"
    and "\<forall>a \<in> set (blocks p). filled (st ! a) \<or> reserved (st ! a)"
  using assms
  by (auto simp: next_block_def find_None_iff block_free_def split: if_splits option.splits)

lemma is_complete_abs:
  "is_complete p st \<longleftrightarrow> length (abs_piece p st) = unat (block_count p) \<and> None \<notin> set (abs_piece p st)"
proof -
  have "None \<notin> set (abs_piece p st) \<longleftrightarrow> (\<forall>a \<in> set (blocks p). abs_block (st ! a) \<noteq> None)"
    unfolding abs_piece_def set_map image_iff by metis
  then show ?thesis by (simp add: is_complete_def list_all_iff)
qed

text \<open>The bytes of a complete piece.\<close>

definition piece_bytes :: "bytes option list \<Rightarrow> bytes" where
  "piece_bytes bs = concat (map the bs)"

lemma complete_bytes:
  assumes "is_complete p st"
  shows "concat (map (\<lambda>a. block_bytes (st ! a)) (blocks p)) = piece_bytes (abs_piece p st)"
proof -
  have "block_bytes (st ! a) = the (abs_block (st ! a))" if "a \<in> set (blocks p)" for a
    using that assms by (auto simp: is_complete_def list_all_iff abs_block_def)
  then have "map (\<lambda>a. block_bytes (st ! a)) (blocks p) = map (\<lambda>a. the (abs_block (st ! a))) (blocks p)"
    by simp
  then show ?thesis by (simp only: piece_bytes_def abs_piece_def map_map comp_def)
qed

lemma length_piece_le:
  assumes "piece_inv p st"
  shows "length (concat (map (\<lambda>a. block_bytes (st ! a)) (blocks p))) \<le> length (blocks p) * BLOCK_SIZE"
proof -
  have "length (concat (map (\<lambda>a. block_bytes (st ! a)) as)) \<le> length as * BLOCK_SIZE"
    if "\<forall>a \<in> set as. block_ok (st ! a)" for as
    using that by (induction as) (fastforce simp: block_bytes_def block_ok_def)+
  then show ?thesis using assms by (simp add: piece_inv_def)
qed

lemma block_count_exact:
  assumes "unat (piece_size p) mod BLOCK_SIZE = 0"
  shows "unat (block_count p) * BLOCK_SIZE = unat (piece_size p)"
proof -
  have "piece_size p mod word_of_nat BLOCK_SIZE = 0"
    using assms by (simp add: unat_eq_zero [symmetric] unat_mod BLOCK_SIZE_def del: unat_eq_zero)
  then show ?thesis
    using assms by (simp add: block_count_def unat_div BLOCK_SIZE_def mod_eq_0_iff_dvd)
qed

lemma finalize_complete:
  assumes "piece_inv p st" and "is_complete p st" and "length junk = unat (piece_size p)"
    and "length (piece_bytes (abs_piece p st)) = unat (piece_size p)"
  shows "\<exists>p'. finalize junk p st =
    Some (\<lparr>cp_data = piece_bytes (abs_piece p st), cp_index = index p, cp_size = piece_size p\<rparr>, p')"
  using assms by (simp add: finalize_def complete_bytes piece_inv_def overlay_def Let_def)

lemma finalize_fits:
  assumes "piece_inv p st" and "unat (piece_size p) mod BLOCK_SIZE = 0"
  shows "finalize junk p st \<noteq> None"
proof -
  have "length (concat (map (\<lambda>a. block_bytes (st ! a)) (blocks p))) \<le> unat (block_count p) * BLOCK_SIZE"
    using length_piece_le [OF assms(1)] assms(1)
    by (meson le_trans mult_le_mono1 piece_inv_def)
  then show ?thesis
    using assms by (simp add: finalize_def block_count_exact piece_inv_def Let_def)
qed

end
