(* ===== verification/Message.thy ===== *)
theory Message
  imports Pieces_Correct
begin

text \<open>
  \<^verbatim>\<open>include/message.hpp\<close> and \<^verbatim>\<open>src/message.cpp\<close>: the handshake and the messages of the peer
  protocol. Parsing and printing are inverse to each other, and the message framing is an
  instance of \<open>prefix_codec\<close>, so a peer recovers the sequence of messages the other side
  wrote.
\<close>

section \<open>The handshake\<close>

record handshake =
  protocol_str :: bytes
  extensions :: bytes
  hs_info_hash :: hash
  hs_peer_id :: bytes

definition PROTOCOL :: bytes where
  "PROTOCOL = str ''BitTorrent protocol''"

text \<open>The peer id is given as a C string: it ends before the first zero byte.\<close>

definition Handshake :: "hash \<Rightarrow> bytes \<Rightarrow> handshake" where
  "Handshake h id0 = \<lparr>protocol_str = PROTOCOL, extensions = replicate 8 0, hs_info_hash = h,
     hs_peer_id = takeWhile (\<lambda>c. c \<noteq> 0) id0\<rparr>"

text \<open>
  The loop that reads the peer id: \<^verbatim>\<open>ss.get()\<close> gives \<open>-1\<close> when there is no character. The
  loop ends when the stream is at its end, and never when it has failed without that.
\<close>

definition get_char :: "byte option \<Rightarrow> byte" where
  "get_char c = (case c of None \<Rightarrow> - 1 | Some c \<Rightarrow> c)"

partial_function (option) read_id :: "byte option \<Rightarrow> istream \<Rightarrow> bytes \<Rightarrow> bytes option" where
  "read_id c ss acc =
     (if eofbit ss then Some acc
      else (let (c', ss') = is_get ss in read_id c' ss' (acc @ [get_char c])))"

text \<open>
  The parsing constructor. \<open>junk_len\<close> and \<open>junk_hash\<close> are the contents of the two locals
  without initializer, which stay when the data is too short. The description only goes to
  the log: the object keeps the default protocol string.
\<close>

definition Handshake_parse :: "byte \<Rightarrow> bytes \<Rightarrow> bytes \<Rightarrow> handshake option" where
  "Handshake_parse junk_len junk_hash dat =
     (let ss = is_open dat;
          (l, ss) = is_extract ss;
          n = (case l of None \<Rightarrow> junk_len | Some l \<Rightarrow> l);
          (desc, ss) = is_read (unat n) ss;
          (ext, ss) = is_read 8 ss;
          (h, ss) = is_read HASH_SIZE ss;
          (c, ss) = is_get ss
      in case Hash_ptr (overlay h junk_hash) of
           None \<Rightarrow> None
         | Some hash \<Rightarrow>
             map_option
               (\<lambda>pid. \<lparr>protocol_str = PROTOCOL, extensions = overlay ext (replicate 8 0),
                  hs_info_hash = hash, hs_peer_id = pid\<rparr>)
               (read_id c ss []))"

definition serialise :: "handshake \<Rightarrow> bytes" where
  "serialise h =
     [word_of_nat (length (protocol_str h))] @ protocol_str h @ extensions h @ hs_info_hash h @
     hs_peer_id h"

section \<open>Messages\<close>

datatype message_type =
    Choke
  | Unchoke
  | Interested
  | NotInterested
  | Have
  | Bitfield
  | Request
  | PieceMsg
  | Cancel
  | Extension

record message =
  mtype :: "message_type option"
  payload :: bytes

fun type_code :: "message_type \<Rightarrow> byte" where
  "type_code Choke = 0"
| "type_code Unchoke = 1"
| "type_code Interested = 2"
| "type_code NotInterested = 3"
| "type_code Have = 4"
| "type_code Bitfield = 5"
| "type_code Request = 6"
| "type_code PieceMsg = 7"
| "type_code Cancel = 8"
| "type_code Extension = 20"

definition try_from :: "byte \<Rightarrow> message_type option" where
  "try_from src =
     (if src \<le> type_code Cancel \<or> src = type_code Extension
      then find (\<lambda>t. type_code t = src)
        [Choke, Unchoke, Interested, NotInterested, Have, Bitfield, Request, PieceMsg, Cancel, Extension]
      else None)"

text \<open>The constructor from received bytes (\<open>None\<close>: \<^verbatim>\<open>data.at(0)\<close> throws).\<close>

definition Message :: "bytes \<Rightarrow> message option" where
  "Message dat = (case dat of [] \<Rightarrow> None | c # r \<Rightarrow> Some \<lparr>mtype = try_from c, payload = r\<rparr>)"

definition interested :: message where
  "interested = \<lparr>mtype = Some Interested, payload = []\<rparr>"

definition request :: "piece \<Rightarrow> block \<Rightarrow> message" where
  "request p b =
     (let dat = push_bytes [] (htonl (index p));
          dat = push_bytes dat (htonl (offset b));
          dat = push_bytes dat (htonl (min (piece_size p - offset b) (word_of_nat BLOCK_SIZE)))
      in \<lparr>mtype = Some Request, payload = dat\<rparr>)"

fun type_to_string :: "message_type \<Rightarrow> bytes" where
  "type_to_string Choke = str ''Choke''"
| "type_to_string Unchoke = str ''Unchoke''"
| "type_to_string Interested = str ''Interested''"
| "type_to_string NotInterested = str ''NotInterested''"
| "type_to_string Have = str ''Have''"
| "type_to_string Bitfield = str ''BitField''"
| "type_to_string Request = str ''Request''"
| "type_to_string PieceMsg = str ''Piece''"
| "type_to_string Cancel = str ''Cancel''"
| "type_to_string Extension = str ''Extension''"

definition to_string :: "u32 \<Rightarrow> u32 \<Rightarrow> message \<Rightarrow> bytes" where
  "to_string junk1 junk2 m =
     (case mtype m of
        None \<Rightarrow> str ''UNKNOWN{'' @ urlencode (payload m) @ str ''}''
      | Some t \<Rightarrow>
          type_to_string t @ str ''{'' @
          (if t = PieceMsg \<or> t = Request then
             (let (i, ss) = read_word junk1 (is_open (payload m));
                  i = ntohl i;
                  (off, ss) = read_word junk2 ss;
                  off = ntohl off
              in decimal (unat i) @ str '','' @ decimal (unat off) @ str ''-'' @
                 decimal (unat (off + word_of_nat BLOCK_SIZE - 1)))
           else urlencode (payload m)) @
          str ''}'')"

text \<open>\<^verbatim>\<open>serialize\<close> (\<open>None\<close>: its assertion fails).\<close>

definition serialize :: "message \<Rightarrow> bytes option" where
  "serialize m =
     (case mtype m of
        None \<Rightarrow> None
      | Some t \<Rightarrow> Some (mem32 (htonl (word_of_nat (length (payload m) + 1))) @ [type_code t] @ payload m))"

section \<open>Lemmas\<close>

lemma try_from_type_code [simp]: "try_from (type_code t) = Some t"
  by (cases t) (simp_all add: try_from_def)

lemma try_from_Some: "try_from c = Some t \<Longrightarrow> type_code t = c"
  by (auto simp: try_from_def find_Some_iff split: if_splits)

lemma type_code_inject [simp]: "type_code s = type_code t \<longleftrightarrow> s = t"
  by (metis option.inject try_from_type_code)

lemma read_id_good: "is_good ss \<Longrightarrow> read_id (Some c) ss acc = Some (acc @ c # rest ss)"
proof (induction "rest ss" arbitrary: c ss acc)
  case Nil
  then show ?case
    by (subst read_id.simps, subst read_id.simps) (simp add: is_get_Nil is_good_def get_char_def)
next
  case (Cons d cs)
  then have "is_get ss = (Some d, ss\<lparr>rest := cs\<rparr>)" by (simp add: is_get_Cons)
  moreover have "read_id (Some d) (ss\<lparr>rest := cs\<rparr>) (acc @ [c]) = Some ((acc @ [c]) @ d # cs)"
    using Cons(1) [of "ss\<lparr>rest := cs\<rparr>" d "acc @ [c]"] Cons(2,3) by simp
  ultimately show ?case
    using Cons(2,3) by (subst read_id.simps) (simp add: is_good_def get_char_def)
qed

lemma read_id_eof: "eofbit ss \<Longrightarrow> read_id c ss acc = Some acc"
  by (subst read_id.simps) simp

text \<open>The peer id is what is left of the stream; the loop ends on every stream that has
  only failed at its end.\<close>

lemma read_id_rest:
  "is_good ss \<Longrightarrow> (case is_get ss of (c, ss') \<Rightarrow> read_id c ss' []) = Some (rest ss)"
  by (cases "rest ss") (simp_all add: is_get_Nil is_get_Cons read_id_eof read_id_good)

lemma is_read_eof: "failbit ss \<longrightarrow> eofbit ss \<Longrightarrow> failbit (snd (is_read n ss)) \<longrightarrow> eofbit (snd (is_read n ss))"
  by (auto simp: is_read_def is_good_def)

lemma is_extract_eof: "failbit ss \<longrightarrow> eofbit ss \<Longrightarrow> failbit (snd (is_extract ss)) \<longrightarrow> eofbit (snd (is_extract ss))"
  by (auto simp: is_extract_def is_good_def split: list.splits)

lemma read_id_total:
  assumes "failbit ss \<longrightarrow> eofbit ss"
  shows "\<exists>r. (case is_get ss of (c, ss') \<Rightarrow> read_id c ss' []) = Some r"
proof (cases "is_good ss")
  case False
  with assms have "eofbit ss" by (auto simp: is_good_def)
  with False show ?thesis by (simp add: is_get_def read_id_eof)
qed (simp add: read_id_rest)

text \<open>Parsing any handshake of the protocol's layout, whatever its description.\<close>

lemma Handshake_parse_layout:
  assumes "length desc < 256" and "\<not> isspace (word_of_nat (length desc))"
    and "length ext = 8" and "length h = HASH_SIZE"
  shows "Handshake_parse j1 j2 ([word_of_nat (length desc)] @ desc @ ext @ h @ pid) =
    Some \<lparr>protocol_str = PROTOCOL, extensions = ext, hs_info_hash = h, hs_peer_id = pid\<rparr>"
proof -
  let ?n = "word_of_nat (length desc) :: byte"
  let ?s = "is_open ([?n] @ desc @ ext @ h @ pid)"
  have n: "unat ?n = length desc"
    using assms(1) by (simp add: unat_of_nat)
  have 1: "is_extract ?s = (Some ?n, ?s\<lparr>rest := desc @ ext @ h @ pid\<rparr>)"
    using assms(2) by (intro is_extract_ok) simp_all
  have 2: "is_read (unat ?n) (?s\<lparr>rest := desc @ ext @ h @ pid\<rparr>) = (desc, ?s\<lparr>rest := ext @ h @ pid\<rparr>)"
    by (subst is_read_ok [where a = desc and b = "ext @ h @ pid"]) (simp_all add: n)
  have 3: "is_read 8 (?s\<lparr>rest := ext @ h @ pid\<rparr>) = (ext, ?s\<lparr>rest := h @ pid\<rparr>)"
    by (subst is_read_ok [where a = ext and b = "h @ pid"]) (simp_all add: assms)
  have 4: "is_read HASH_SIZE (?s\<lparr>rest := h @ pid\<rparr>) = (h, ?s\<lparr>rest := pid\<rparr>)"
    by (subst is_read_ok [where a = h and b = pid]) (simp_all add: assms)
  obtain c s' where g: "is_get (?s\<lparr>rest := pid\<rparr>) = (c, s')" by fastforce
  have 5: "read_id c s' [] = Some pid"
    using read_id_rest [of "?s\<lparr>rest := pid\<rparr>"] g by simp
  show ?thesis
    unfolding Handshake_parse_def Let_def 1 prod.case option.case 2 3 4 g
    using assms(3,4) by (simp add: 5 overlay_def Hash_ptr_def)
qed

lemma Handshake_parse_total:
  assumes "length j2 = HASH_SIZE"
  shows "Handshake_parse j1 j2 dat \<noteq> None"
proof -
  obtain l s1 where 1: "is_extract (is_open dat) = (l, s1)" by fastforce
  define n where "n = unat (case l of None \<Rightarrow> j1 | Some l \<Rightarrow> l)"
  obtain d s2 where 2: "is_read n s1 = (d, s2)" by fastforce
  obtain e s3 where 3: "is_read 8 s2 = (e, s3)" by fastforce
  obtain h s4 where 4: "is_read HASH_SIZE s3 = (h, s4)" by fastforce
  obtain c s5 where 5: "is_get s4 = (c, s5)" by fastforce
  have "failbit s1 \<longrightarrow> eofbit s1"
    using is_extract_eof [of "is_open dat"] unfolding 1 by (simp add: is_open_def)
  then have "failbit s4 \<longrightarrow> eofbit s4"
    using is_read_eof [of s1 n] is_read_eof [of s2 8] is_read_eof [of s3 HASH_SIZE]
    unfolding 2 3 4 by simp
  then obtain r where r: "read_id c s5 [] = Some r"
    using read_id_total [of s4] 5 by auto
  have "length h \<le> HASH_SIZE"
    using length_is_read [of HASH_SIZE s3] 4 by simp
  then have "Hash_ptr (overlay h j2) \<noteq> None"
    using assms by (simp add: Hash_ptr_def length_overlay)
  then show ?thesis
    unfolding Handshake_parse_def Let_def 1 prod.case n_def [symmetric] 2 3 4 5
    by (auto simp: r)
qed

text \<open>The handshake the program sends.\<close>

lemma Handshake_serialise:
  assumes "length h = HASH_SIZE"
  shows "serialise (Handshake h id0) = [19] @ PROTOCOL @ replicate 8 0 @ h @ takeWhile (\<lambda>c. c \<noteq> 0) id0"
  by (simp add: serialise_def Handshake_def PROTOCOL_def)

section \<open>Framing\<close>

text \<open>
  The frames of a stream, as the protocol defines them: a length in network order, then the
  body; an empty body is a keep-alive and is skipped. The handlers of \<open>Peer\<close>, with their two
  asynchronous reads, are shown to cut a stream in the same way (\<open>hear_frames\<close>).
\<close>

function dec_message :: "bytes \<Rightarrow> (message \<times> bytes) option" where
  "dec_message bs =
     (if length bs < 4 then None
      else
        (let n = unat (ntohl (load32 bs)) in
         if n = 0 then dec_message (drop 4 bs)
         else if length bs < 4 + n then None
         else map_option (\<lambda>m. (m, drop (4 + n) bs)) (Message (take n (drop 4 bs)))))"
  by pat_completeness auto
termination
  by (relation "measure length") auto

declare dec_message.simps [simp del]

definition enc_message :: "message \<Rightarrow> bytes" where
  "enc_message m = (case serialize m of None \<Rightarrow> [] | Some bs \<Rightarrow> bs)"

definition message_ok :: "message \<Rightarrow> bool" where
  "message_ok m \<longleftrightarrow> mtype m \<noteq> None \<and> length (payload m) + 1 < 2 ^ 32"

lemma ntohl_load32_append: "length bs = 4 \<Longrightarrow> ntohl (load32 (bs @ r)) = load_be32 bs"
  by (metis load32_mem32 load32_mem32_exact mem32_load32 ntohl_load32)

lemma serialize_be32:
  "mtype m = Some t \<Longrightarrow>
    serialize m = Some (be32 (word_of_nat (length (payload m) + 1)) @ type_code t # payload m)"
  by (simp add: serialize_def)

lemma dec_message_enc:
  assumes "message_ok m"
  shows "dec_message (enc_message m @ r) = Some (m, r)"
proof -
  obtain t where t: "mtype m = Some t" using assms by (auto simp: message_ok_def)
  let ?n = "length (payload m) + 1"
  have n: "unat (word_of_nat ?n :: u32) = ?n"
    using assms unfolding message_ok_def unat_of_nat by simp
  have e: "enc_message m @ r = be32 (word_of_nat ?n) @ (type_code t # payload m) @ r"
    by (simp add: enc_message_def serialize_be32 [OF t])
  have l: "unat (ntohl (load32 (enc_message m @ r))) = ?n"
    unfolding e by (subst ntohl_load32_append) (simp_all only: length_be32 load_be32_be32_exact n)
  have d: "drop 4 (enc_message m @ r) = (type_code t # payload m) @ r"
    unfolding e by simp
  have len: "length (enc_message m @ r) = 5 + length (payload m) + length r"
    unfolding e by simp
  have dd: "drop (4 + ?n) (enc_message m @ r) = r"
    unfolding e by simp
  have tk: "take ?n (drop 4 (enc_message m @ r)) = type_code t # payload m"
    unfolding d by simp
  have m: "Message (type_code t # payload m) = Some m"
    by (simp add: Message_def t [symmetric])
  show ?thesis
    by (subst dec_message.simps) (simp only: l Let_def tk dd m, simp add: len [simplified])
qed

lemma dec_message_keepalive: "dec_message (be32 0 @ r) = dec_message r"
proof -
  have "ntohl (load32 (be32 0 @ r)) = 0"
    by (subst ntohl_load32_append) simp_all
  then show ?thesis
    by (subst dec_message.simps) simp
qed

lemma enc_message_wires: "map serialize ms = map Some ws \<Longrightarrow> map enc_message ms = ws"
  by (induction ms arbitrary: ws) (auto simp: enc_message_def)

interpretation message_codec: prefix_codec enc_message dec_message message_ok
  by unfold_locales (rule dec_message_enc)

section \<open>Requests\<close>

text \<open>Block \<open>i\<close> of a piece of size \<open>n\<close> is requested with its offset and its length.\<close>

definition block_len :: "nat \<Rightarrow> nat \<Rightarrow> nat" where
  "block_len n i = min (n - i * BLOCK_SIZE) BLOCK_SIZE"

lemma request_payload:
  "payload (request p b) =
    be32 (index p) @ be32 (offset b) @ be32 (min (piece_size p - offset b) (word_of_nat BLOCK_SIZE))"
proof -
  have "push_bytes v x = v @ mem32 x" for v x
    by (simp add: push_bytes_def mem32_def)
  then show ?thesis by (simp add: request_def Let_def)
qed

lemma ceil_div:
  assumes "0 < (k :: nat)"
  shows "(n + k - Suc 0) div k = (if n mod k = 0 then n div k else n div k + 1)"
proof -
  have "n + k - Suc 0 = n div k * k + (n mod k + (k - Suc 0))"
    using assms div_mult_mod_eq [of n k] by linarith
  then have "(n + k - Suc 0) div k = n div k + (n mod k + (k - Suc 0)) div k"
    using assms by (simp only: div_mult_self3)
  moreover have "(n mod k + (k - Suc 0)) div k = (if n mod k = 0 then 0 else 1)"
  proof (cases "n mod k = 0")
    case False
    then have "n mod k + (k - Suc 0) = n mod k - 1 + k" using assms by simp
    moreover have "n mod k - 1 < k"
      using mod_less_divisor [OF assms, of n] by linarith
    then have "(n mod k - 1 + k) div k = 1"
      using assms by (simp only: div_add_self2 div_less)
    ultimately show ?thesis using False by (simp only: if_False)
  qed (use assms in simp)
  ultimately show ?thesis by simp
qed

lemma BLOCK_SIZE_pos [simp]: "0 < BLOCK_SIZE"
  by (simp add: BLOCK_SIZE_def)

lemma unat_block_count:
  "unat (block_count p) = (unat (piece_size p) + BLOCK_SIZE - 1) div BLOCK_SIZE"
proof -
  let ?n = "unat (piece_size p)" and ?B = "word_of_nat BLOCK_SIZE :: u32"
  have n: "?n < 2 ^ 32" by (rule unat_bounds)
  have B: "unat ?B = BLOCK_SIZE" by (simp add: BLOCK_SIZE_def)
  have d: "unat (piece_size p div ?B) = ?n div BLOCK_SIZE" by (simp only: unat_div B)
  have m: "piece_size p mod ?B = 0 \<longleftrightarrow> ?n mod BLOCK_SIZE = 0"
    using B by (metis unat_eq_zero unat_mod)
  have "?n div BLOCK_SIZE \<le> ?n" by simp
  have "?n div BLOCK_SIZE + 1 < 2 ^ 32"
  proof -
    have "?n div 2 ^ 14 < 2 ^ 18"
      using n by (simp add: less_mult_imp_div_less)
    then show ?thesis by (simp add: BLOCK_SIZE_def)
  qed
  then have "unat (piece_size p div ?B + 1) = ?n div BLOCK_SIZE + 1"
    by (subst unat_word_ariths) (simp add: d)
  then show ?thesis
    using ceil_div [OF BLOCK_SIZE_pos, of ?n] by (simp add: block_count_def m d)
qed

lemma block_in_piece:
  assumes "i < unat (block_count p)"
  shows "i * BLOCK_SIZE < unat (piece_size p)"
proof -
  let ?n = "unat (piece_size p)"
  have "Suc i \<le> (?n + BLOCK_SIZE - 1) div BLOCK_SIZE"
    using assms by (simp add: unat_block_count)
  then have "Suc i * BLOCK_SIZE \<le> ?n + BLOCK_SIZE - 1"
    using le_trans [OF mult_le_mono1 div_times_less_eq_dividend] by blast
  moreover have "Suc i * BLOCK_SIZE = i * BLOCK_SIZE + BLOCK_SIZE" by simp
  ultimately show ?thesis using BLOCK_SIZE_pos by linarith
qed

lemma piece_in_blocks: "unat (piece_size p) \<le> unat (block_count p) * BLOCK_SIZE"
proof -
  let ?n = "unat (piece_size p)"
  have "?n = ?n div BLOCK_SIZE * BLOCK_SIZE + ?n mod BLOCK_SIZE"
    by (rule div_mult_mod_eq [symmetric])
  also have "\<dots> \<le> (?n div BLOCK_SIZE + (if ?n mod BLOCK_SIZE = 0 then 0 else 1)) * BLOCK_SIZE"
    using mod_less_divisor [OF BLOCK_SIZE_pos, of ?n] unfolding add_mult_distrib
    by (intro add_left_mono) simp
  also have "?n div BLOCK_SIZE + (if ?n mod BLOCK_SIZE = 0 then 0 else 1) = unat (block_count p)"
    using ceil_div [OF BLOCK_SIZE_pos, of ?n] by (simp add: unat_block_count)
  finally show ?thesis .
qed

lemma request_length:
  assumes "i < unat (block_count p)" and "offset b = word_of_nat (i * BLOCK_SIZE)"
  shows "unat (min (piece_size p - offset b) (word_of_nat BLOCK_SIZE)) = block_len (unat (piece_size p)) i"
proof -
  let ?n = "unat (piece_size p)"
  have lt: "i * BLOCK_SIZE < ?n" by (rule block_in_piece [OF assms(1)])
  have "?n < 2 ^ 32" by (rule unat_bounds)
  with lt have off: "unat (offset b) = i * BLOCK_SIZE"
    unfolding assms(2) unat_of_nat by simp
  then have "unat (piece_size p - offset b) = ?n - i * BLOCK_SIZE"
    using lt by (subst unat_sub) (simp_all add: word_le_nat_alt)
  then show ?thesis
    by (simp add: block_len_def min_def word_le_nat_alt BLOCK_SIZE_def)
qed

lemma sum_block_len: "sum (block_len n) {..<k} = min n (k * BLOCK_SIZE)"
  by (induction k) (auto simp: block_len_def)

lemma sum_block_count:
  "sum (block_len (unat (piece_size p))) {..<unat (block_count p)} = unat (piece_size p)"
  using piece_in_blocks [of p] by (simp add: sum_block_len)

end
