(* ===== verification/Std_Map.thy ===== *)
theory Std_Map
  imports Prelude "HOL-Library.List_Lexorder"
begin

text \<open>
  \<^verbatim>\<open>std::map\<close> as the decoder uses it: the entries in ascending key order, which is the
  order in which the encoder writes them. Byte-string keys are compared byte by byte
  (\<^verbatim>\<open>char_traits<char>::compare\<close>, the library's lexicographic order on lists).
  \<open>ordered_map\<close> is the contract of \<^verbatim>\<open>emplace\<close> and lookup.
\<close>

type_synonym ('k, 'v) std_map = "('k \<times> 'v) list"

text \<open>\<^verbatim>\<open>emplace\<close> does nothing when the key is there (\<open>None\<close>).\<close>

fun map_emplace :: "'k :: linorder \<Rightarrow> 'v \<Rightarrow> ('k, 'v) std_map \<Rightarrow> ('k, 'v) std_map option" where
  "map_emplace k v [] = Some [(k, v)]"
| "map_emplace k v ((k', v') # m) =
     (if k < k' then Some ((k, v) # (k', v') # m)
      else if k = k' then None
      else map_option (Cons (k', v')) (map_emplace k v m))"

definition sorted_keys :: "('k :: linorder, 'v) std_map \<Rightarrow> bool" where
  "sorted_keys m \<longleftrightarrow> sorted_wrt (<) (map fst m)"

text \<open>Changing the value of a key through a pointer into the map.\<close>

fun map_entry :: "'k \<Rightarrow> ('v \<Rightarrow> 'v) \<Rightarrow> ('k, 'v) std_map \<Rightarrow> ('k, 'v) std_map" where
  "map_entry k f [] = []"
| "map_entry k f ((k', v) # m) = (if k' = k then (k', f v) # m else (k', v) # map_entry k f m)"

lemma sorted_keys_simps [simp]:
  "sorted_keys []"
  "sorted_keys ((k, v) # m) \<longleftrightarrow> (\<forall>k' \<in> fst ` set m. k < k') \<and> sorted_keys m"
  by (auto simp: sorted_keys_def)

lemma sorted_keys_distinct: "sorted_keys m \<Longrightarrow> distinct (map fst m)"
  by (induction m) force+

lemma sorted_keys_snoc:
  "sorted_keys (m @ [(k, v)]) \<longleftrightarrow> sorted_keys m \<and> (\<forall>k' \<in> fst ` set m. k' < k)"
  by (induction m) auto

lemma map_emplace_None: "sorted_keys m \<Longrightarrow> map_emplace k v m = None \<longleftrightarrow> map_of m k \<noteq> None"
proof (induction m)
  case (Cons kv m)
  obtain k' v' where [simp]: "kv = (k', v')" by fastforce
  from Cons have "k < k' \<Longrightarrow> map_of m k = None"
    by (auto simp: map_of_eq_None_iff)
  with Cons show ?case by auto
qed simp

lemma map_emplace_map_of: "map_emplace k v m = Some m' \<Longrightarrow> map_of m' = (map_of m)(k \<mapsto> v)"
  by (induction m arbitrary: m') (fastforce split: if_splits)+

lemma map_emplace_set: "map_emplace k v m = Some m' \<Longrightarrow> set m' = insert (k, v) (set m)"
  by (induction m arbitrary: m') (fastforce split: if_splits)+

lemma map_emplace_sorted: "map_emplace k v m = Some m' \<Longrightarrow> sorted_keys m \<Longrightarrow> sorted_keys m'"
proof (induction m arbitrary: m')
  case (Cons kv m)
  obtain k' v' where [simp]: "kv = (k', v')" by fastforce
  show ?case
    using Cons by (fastforce split: if_splits dest: map_emplace_set)
qed auto

lemma map_emplace_last:
  "\<forall>k' \<in> fst ` set m. k' < k \<Longrightarrow> map_emplace k v m = Some (m @ [(k, v)])"
  by (induction m) (auto dest: less_asym)

lemma map_entry_keys [simp]: "map fst (map_entry k f m) = map fst m"
  by (induction k f m rule: map_entry.induct) auto

lemma map_entry_sorted [simp]: "sorted_keys (map_entry k f m) = sorted_keys m"
  by (simp add: sorted_keys_def)

lemma map_entry_map_of:
  "map_of (map_entry k f m) k' = (if k' = k then map_option f (map_of m k) else map_of m k')"
  by (induction k f m rule: map_entry.induct) auto

lemma map_entry_compose: "map_entry k f (map_entry k g m) = map_entry k (\<lambda>v. f (g v)) m"
  by (induction k g m rule: map_entry.induct) auto

lemma map_entry_cong:
  "(\<And>v. map_of m k = Some v \<Longrightarrow> f v = g v) \<Longrightarrow> map_entry k f m = map_entry k g m"
  by (induction k f m rule: map_entry.induct) (auto split: if_splits)

lemma map_entry_id: "(\<And>v. map_of m k = Some v \<Longrightarrow> f v = v) \<Longrightarrow> map_entry k f m = m"
  by (induction k f m rule: map_entry.induct) (auto split: if_splits)

lemma map_entry_set: "set (map_entry k f m) \<subseteq> set m \<union> {(k, f v) |v. map_of m k = Some v}"
  by (induction k f m rule: map_entry.induct) auto

text \<open>Whether \<^verbatim>\<open>emplace\<close> succeeds does not depend on the value.\<close>

lemma map_emplace_entry:
  "map_emplace k v m = Some m' \<Longrightarrow> map_emplace k w m = Some (map_entry k (\<lambda>_. w) m')"
  by (induction k v m arbitrary: m' rule: map_emplace.induct) (auto split: if_splits)

locale ordered_map =
  fixes lookup :: "'m \<Rightarrow> 'k \<Rightarrow> 'v option"
    and emplace :: "'k \<Rightarrow> 'v \<Rightarrow> 'm \<Rightarrow> 'm option"
    and invar :: "'m \<Rightarrow> bool"
  assumes emplace_present: "invar m \<Longrightarrow> emplace k v m = None \<longleftrightarrow> lookup m k \<noteq> None"
    and emplace_lookup: "emplace k v m = Some m' \<Longrightarrow> lookup m' = (lookup m)(k \<mapsto> v)"
    and emplace_invar: "emplace k v m = Some m' \<Longrightarrow> invar m \<Longrightarrow> invar m'"
begin

lemma emplace_other:
  "emplace k v m = Some m' \<Longrightarrow> k' \<noteq> k \<Longrightarrow> lookup m' k' = lookup m k'"
  by (simp add: emplace_lookup)

lemma emplace_twice:
  "invar m \<Longrightarrow> emplace k v m = Some m' \<Longrightarrow> emplace k w m' = None"
  by (simp add: emplace_present emplace_lookup emplace_invar)

lemma emplace_never_overwrites:
  "invar m \<Longrightarrow> emplace k v m = Some m' \<Longrightarrow> lookup m k' = Some w \<Longrightarrow> lookup m' k' = Some w"
  by (metis emplace_other emplace_present option.distinct(1))

end

interpretation std_map: ordered_map map_of map_emplace sorted_keys
  by unfold_locales (auto simp: map_emplace_None dest: map_emplace_map_of map_emplace_sorted)

end
