(* ===== verification/Bencode.thy ===== *)
theory Bencode
  imports Std_Map "HOL-Library.Signed_Division"
begin

text \<open>
  \<^verbatim>\<open>include/bencode.hpp\<close>: the decoder (iterative, with a stack of pointers into the tree built
  so far) and the encoder. The iterator pair is the list of bytes not yet read; a read
  through an iterator that equals \<^verbatim>\<open>end\<close> is \<open>Undefined\<close>. The decoder is used with the
  iterators of a string, which is how \<^verbatim>\<open>data_view\<close> is decoded, and with those of a stream.
\<close>

section \<open>Data and errors\<close>

datatype data =
    BInt int
  | BStr bytes
  | BList "data list"
  | BDict "(bytes \<times> data) list"

text \<open>
  The relational operators of \<^verbatim>\<open>map_proxy\<close> are made by one macro whose body compares with
  \<^verbatim>\<open>==\<close> whatever operator it defines.
\<close>

datatype relop = OpEq | OpNe | OpGe | OpLe | OpGt | OpLt

definition map_proxy_relop :: "relop \<Rightarrow> (bytes \<times> data) list \<Rightarrow> (bytes \<times> data) list \<Rightarrow> bool" where
  "map_proxy_relop rop lhs rhs \<longleftrightarrow> lhs = rhs"

lemma map_proxy_unequal: "map_proxy_relop OpNe m m \<and> map_proxy_relop OpLt m m \<and> (m \<noteq> n \<longrightarrow> \<not> map_proxy_relop OpNe m n)"
  by (simp add: map_proxy_relop_def)

datatype decode_exn =
    EndOfInput
  | SyntaxError bytes
  | OverflowError
  | UnderflowError
  | StringTooLong

fun what :: "decode_exn \<Rightarrow> bytes" where
  "what EndOfInput = str ''unexpected end of input''"
| "what (SyntaxError msg) = msg"
| "what OverflowError = str ''integer overflow''"
| "what UnderflowError = str ''integer underflow''"
| "what StringTooLong = str ''basic_string::_M_create''"

text \<open>A piece of the decoder returns or faults, and leaves the iterator where it was.\<close>

type_synonym 'a reader = "bytes \<Rightarrow> (decode_exn fault + 'a) \<times> bytes"

section \<open>Integers\<close>

text \<open>\<^verbatim>\<open>std::numeric_limits\<close> of the two types the decoder is used with.\<close>

record limits =
  digits10 :: nat
  lim_min :: int
  lim_max :: int

definition long_long :: limits where
  "long_long = \<lparr>digits10 = 18, lim_min = - (2 ^ 63), lim_max = 2 ^ 63 - 1\<rparr>"

definition size_t :: limits where
  "size_t = \<lparr>digits10 = 19, lim_min = 0, lim_max = 2 ^ 64 - 1\<rparr>"

definition check_overflow :: "limits \<Rightarrow> int \<Rightarrow> int \<Rightarrow> bool" where
  "check_overflow L value digit \<longleftrightarrow>
     value > lim_max L sdiv 10 \<or> (value = lim_max L sdiv 10 \<and> digit > lim_max L smod 10)"

definition check_underflow :: "limits \<Rightarrow> int \<Rightarrow> int \<Rightarrow> bool" where
  "check_underflow L value digit \<longleftrightarrow>
     value < lim_min L sdiv 10 \<or> (value = lim_min L sdiv 10 \<and> digit < lim_min L smod 10)"

definition check_over_underflow :: "limits \<Rightarrow> int \<Rightarrow> int \<Rightarrow> int \<Rightarrow> decode_exn option" where
  "check_over_underflow L value digit sg =
     (if sg = 1 then (if check_overflow L value digit then Some OverflowError else None)
      else (if check_underflow L value digit then Some UnderflowError else None))"

definition digit_of :: "byte \<Rightarrow> int" where
  "digit_of c = uint c - 48"

text \<open>
  The last part of \<^verbatim>\<open>decode_digits\<close>, entered with \<^verbatim>\<open>begin != end\<close> after \<open>digits10\<close>
  digits: at most one more digit fits, and the second \<^verbatim>\<open>isdigit(*begin)\<close> reads without
  looking for the end of the input.
\<close>

definition decode_last_digit :: "limits \<Rightarrow> int \<Rightarrow> int \<Rightarrow> int reader" where
  "decode_last_digit L sg value bs =
     (case bs of
        [] \<Rightarrow> (Inl Undefined, [])
      | c # cs \<Rightarrow>
          if \<not> isdigit c then (Inr value, c # cs)
          else
            (case check_over_underflow L value (digit_of c * sg) sg of
               Some e \<Rightarrow> (Inl (Throw e), cs)
             | None \<Rightarrow>
                 (case cs of
                    [] \<Rightarrow> (Inl Undefined, [])
                  | c' # cs' \<Rightarrow>
                      if isdigit c'
                      then (Inl (Throw (if sg = 1 then OverflowError else UnderflowError)), cs)
                      else (Inr (value * 10 + digit_of c * sg), cs))))"

fun decode_digits_loop :: "limits \<Rightarrow> int \<Rightarrow> nat \<Rightarrow> int \<Rightarrow> int reader" where
  "decode_digits_loop L sg i value [] = (Inl (Throw EndOfInput), [])"
| "decode_digits_loop L sg 0 value (c # cs) = decode_last_digit L sg value (c # cs)"
| "decode_digits_loop L sg (Suc i) value (c # cs) =
     (if \<not> isdigit c then (Inr value, c # cs)
      else decode_digits_loop L sg i (value * 10 + digit_of c * sg) cs)"

definition decode_digits :: "limits \<Rightarrow> int \<Rightarrow> int reader" where
  "decode_digits L sg bs = decode_digits_loop L sg (digits10 L) 0 bs"

text \<open>\<^verbatim>\<open>decode_int<long long>\<close>, called with \<^verbatim>\<open>*begin == 'i'\<close>.\<close>

definition decode_int :: "int reader" where
  "decode_int bs =
     (case tl bs of
        [] \<Rightarrow> (Inl Undefined, [])
      | c # cs \<Rightarrow>
          (case (if c = of_char CHR ''-'' then decode_digits long_long (- 1) cs
                 else decode_digits long_long 1 (c # cs)) of
             (Inl e, r) \<Rightarrow> (Inl e, r)
           | (Inr value, r) \<Rightarrow>
               (case r of
                  [] \<Rightarrow> (Inl Undefined, [])
                | c' # r' \<Rightarrow>
                    if c' \<noteq> of_char CHR ''e''
                    then (Inl (Throw (SyntaxError (str ''expected 'e' token''))), r)
                    else (Inr value, r'))))"

section \<open>Strings\<close>

text \<open>
  \<^verbatim>\<open>str_reader\<close>. With forward iterators the length is compared after a conversion to the signed
  \<^verbatim>\<open>ptrdiff_t\<close>, so a length of \<open>2 ^ 63\<close> or more passes the test and makes a string or a view
  that leaves the buffer. With input iterators a string of the whole length is made first
  (\<^verbatim>\<open>length_error\<close> beyond \<open>max_string\<close>, the message is libstdc++'s), then filled.
\<close>

datatype iter_category = ForwardIter | InputIter

definition to_ptrdiff :: "int \<Rightarrow> int" where
  "to_ptrdiff n = sint (word_of_int n :: u64)"

definition str_reader_forward :: "int \<Rightarrow> bytes reader" where
  "str_reader_forward len bs =
     (if int (length bs) < to_ptrdiff len then (Inl (Throw EndOfInput), [])
      else if int (length bs) < len then (Inl Undefined, bs)
      else (Inr (take (nat len) bs), drop (nat len) bs))"

fun str_reader_loop :: "nat \<Rightarrow> bytes reader" where
  "str_reader_loop 0 bs = (Inr [], bs)"
| "str_reader_loop (Suc n) [] = (Inl (Throw EndOfInput), [])"
| "str_reader_loop (Suc n) (c # cs) =
     (case str_reader_loop n cs of (Inl e, r) \<Rightarrow> (Inl e, r) | (Inr s, r) \<Rightarrow> (Inr (c # s), r))"

definition max_string :: int where
  "max_string = 2 ^ 63 - 1"

definition str_reader_input :: "int \<Rightarrow> bytes reader" where
  "str_reader_input len bs =
     (if len > max_string then (Inl (Throw StringTooLong), bs) else str_reader_loop (nat len) bs)"

definition str_reader :: "iter_category \<Rightarrow> int \<Rightarrow> bytes reader" where
  "str_reader cat len bs =
     (case cat of ForwardIter \<Rightarrow> str_reader_forward len bs | InputIter \<Rightarrow> str_reader_input len bs)"

lemma str_reader_loop_cases:
  "str_reader_loop n bs =
    (if length bs < n then (Inl (Throw EndOfInput), []) else (Inr (take n bs), drop n bs))"
  by (induction n bs rule: str_reader_loop.induct) auto

definition decode_str :: "iter_category \<Rightarrow> bytes reader" where
  "decode_str cat bs =
     (case decode_digits size_t 1 bs of
        (Inl e, r) \<Rightarrow> (Inl e, r)
      | (Inr len, r) \<Rightarrow>
          (case r of
             [] \<Rightarrow> (Inl (Throw EndOfInput), [])
           | c # r' \<Rightarrow>
               if c \<noteq> of_char CHR '':'' then (Inl (Throw (SyntaxError (str ''expected ':' token''))), r)
               else str_reader cat len r'))"

section \<open>Pointers into the tree\<close>

text \<open>
  A \<^verbatim>\<open>Data *\<close> is the path from the root to the node. \<open>deref\<close> follows it, \<open>assign\<close>
  stores through it.
\<close>

datatype link = Idx nat | Key bytes

type_synonym ptr = "link list"

fun deref :: "data \<Rightarrow> ptr \<Rightarrow> data option" where
  "deref d [] = Some d"
| "deref (BList xs) (Idx i # p) = (if i < length xs then deref (xs ! i) p else None)"
| "deref (BDict m) (Key k # p) = (case map_of m k of None \<Rightarrow> None | Some d \<Rightarrow> deref d p)"
| "deref _ _ = None"

fun assign :: "data \<Rightarrow> ptr \<Rightarrow> data \<Rightarrow> data" where
  "assign d [] x = x"
| "assign (BList xs) (Idx i # p) x = BList (xs[i := assign (xs ! i) p x])"
| "assign (BDict m) (Key k # p) x = BDict (map_entry k (\<lambda>d. assign d p x) m)"
| "assign d _ x = d"

section \<open>The decoder\<close>

record dstate =
  result :: data
  stack :: "ptr list"
  dict_key :: bytes
  input :: bytes
  category :: iter_category

text \<open>The lambda \<^verbatim>\<open>store\<close>: to the root, to the end of a list, or into a dict.\<close>

definition store :: "data \<Rightarrow> dstate \<Rightarrow> (decode_exn fault + ptr) \<times> dstate" where
  "store thing s =
     (case stack s of
        [] \<Rightarrow> (Inr [], s\<lparr>result := thing\<rparr>)
      | tp # _ \<Rightarrow>
          (case deref (result s) tp of
             Some (BList xs) \<Rightarrow>
               (Inr (tp @ [Idx (length xs)]),
                s\<lparr>result := assign (result s) tp (BList (xs @ [thing]))\<rparr>)
           | Some (BDict m) \<Rightarrow>
               (case map_emplace (dict_key s) thing m of
                  None \<Rightarrow>
                    (Inl (Throw (SyntaxError (str ''duplicated key in dict: '' @ dict_key s))), s)
                | Some m' \<Rightarrow>
                    (Inr (tp @ [Key (dict_key s)]),
                     s\<lparr>result := assign (result s) tp (BDict m')\<rparr>))
           | _ \<Rightarrow> (Inl Undefined, s)))"

definition store_read :: "('a \<Rightarrow> data) \<Rightarrow> 'a reader \<Rightarrow> dstate \<Rightarrow> (decode_exn fault + unit) \<times> dstate" where
  "store_read mk rd s =
     (case rd (input s) of
        (Inl e, r) \<Rightarrow> (Inl e, s\<lparr>input := r\<rparr>)
      | (Inr x, r) \<Rightarrow>
          (case store (mk x) (s\<lparr>input := r\<rparr>) of
             (Inl e, s') \<Rightarrow> (Inl e, s')
           | (Inr _, s') \<Rightarrow> (Inr (), s')))"

definition store_push :: "data \<Rightarrow> dstate \<Rightarrow> (decode_exn fault + unit) \<times> dstate" where
  "store_push thing s =
     (case store thing (s\<lparr>input := tl (input s)\<rparr>) of
        (Inl e, s') \<Rightarrow> (Inl e, s')
      | (Inr p, s') \<Rightarrow> (Inr (), s'\<lparr>stack := p # stack s'\<rparr>))"

text \<open>The dispatch on the first byte of a value.\<close>

definition decode_value :: "dstate \<Rightarrow> (decode_exn fault + unit) \<times> dstate" where
  "decode_value s =
     (case input s of
        [] \<Rightarrow> (Inl (Throw EndOfInput), s)
      | c # _ \<Rightarrow>
          if c = of_char CHR ''i'' then store_read BInt decode_int s
          else if c = of_char CHR ''l'' then store_push (BList []) s
          else if c = of_char CHR ''d'' then store_push (BDict []) s
          else if isdigit c then store_read BStr (decode_str (category s)) s
          else (Inl (Throw (SyntaxError (str ''unexpected type token''))), s))"

definition decode_key :: "dstate \<Rightarrow> (decode_exn fault + unit) \<times> dstate" where
  "decode_key s =
     (if \<not> isdigit (hd (input s))
      then (Inl (Throw (SyntaxError (str ''expected string start token for dict key''))), s)
      else
        (case decode_str (category s) (input s) of
           (Inl e, r) \<Rightarrow> (Inl e, s\<lparr>input := r\<rparr>)
         | (Inr k, r) \<Rightarrow>
             (if r = [] then (Inl (Throw EndOfInput), s\<lparr>dict_key := k, input := r\<rparr>)
              else (Inr (), s\<lparr>dict_key := k, input := r\<rparr>))))"

text \<open>One iteration of the \<^verbatim>\<open>do ... while(!state.empty())\<close> loop.\<close>

definition decode_step :: "dstate \<Rightarrow> (decode_exn fault + unit) \<times> dstate" where
  "decode_step s =
     (case input s of
        [] \<Rightarrow> (Inl (Throw EndOfInput), s)
      | c # cs \<Rightarrow>
          if c = of_char CHR ''e''
          then (if stack s \<noteq> [] then (Inr (), s\<lparr>input := cs, stack := tl (stack s)\<rparr>)
                else (Inl (Throw (SyntaxError (str ''unexpected 'e' token''))), s))
          else
            (case stack s of
               [] \<Rightarrow> decode_value s
             | tp # _ \<Rightarrow>
                 (case deref (result s) tp of
                    None \<Rightarrow> (Inl Undefined, s)
                  | Some (BDict _) \<Rightarrow>
                      (case decode_key s of
                         (Inl e, s') \<Rightarrow> (Inl e, s')
                       | (Inr _, s') \<Rightarrow> decode_value s')
                  | Some _ \<Rightarrow> decode_value s)))"

section \<open>Every iteration consumes input\<close>

lemma decode_last_digit_len:
  "decode_last_digit L sg v bs = (Inr x, r) \<Longrightarrow> r \<noteq> [] \<and> length r \<le> length bs"
  by (auto simp: decode_last_digit_def split: list.splits if_splits option.splits)

lemma decode_digits_loop_len:
  "decode_digits_loop L sg i v bs = (Inr x, r) \<Longrightarrow> r \<noteq> [] \<and> length r \<le> length bs"
  by (induction L sg i v bs rule: decode_digits_loop.induct)
    (auto split: if_splits dest: decode_last_digit_len)

lemma decode_digits_len: "decode_digits L sg bs = (Inr x, r) \<Longrightarrow> r \<noteq> [] \<and> length r \<le> length bs"
  by (simp add: decode_digits_def decode_digits_loop_len)

lemma decode_int_len: "decode_int (c # cs) = (Inr x, r) \<Longrightarrow> length r < length (c # cs)"
  by (auto simp: decode_int_def split: list.splits if_splits prod.splits sum.splits
      dest!: decode_digits_len)

lemma str_reader_len: "str_reader cat n bs = (Inr x, r) \<Longrightarrow> length r \<le> length bs"
  by (auto simp: str_reader_def str_reader_forward_def str_reader_input_def str_reader_loop_cases
      split: if_splits iter_category.splits)

lemma decode_str_len: "decode_str cat bs = (Inr x, r) \<Longrightarrow> length r < length bs"
  by (auto simp: decode_str_def split: list.splits if_splits prod.splits sum.splits
      dest!: decode_digits_len str_reader_len)

lemma store_frame:
  "store x s = (y, s') \<Longrightarrow> input s' = input s \<and> stack s' = stack s \<and> dict_key s' = dict_key s \<and> category s' = category s"
  by (auto simp: store_def split: list.splits option.splits data.splits)

lemma store_read_len:
  assumes "store_read mk rd s = (Inr u, s')" and "\<And>x r. rd (input s) = (Inr x, r) \<Longrightarrow> length r < n"
  shows "length (input s') < n"
  using assms by (fastforce simp: store_read_def split: prod.splits sum.splits dest: store_frame)

lemma store_push_len:
  "store_push x s = (Inr u, s') \<Longrightarrow> input s' = tl (input s)"
  by (auto simp: store_push_def split: prod.splits sum.splits dest!: store_frame)

lemma decode_value_len:
  assumes "decode_value s = (Inr u, s')"
  shows "length (input s') < length (input s)"
proof -
  obtain c cs where c: "input s = c # cs"
    using assms by (auto simp: decode_value_def split: list.splits)
  note [dest] = store_push_len
  show ?thesis
    using assms c decode_int_len [of c cs] decode_str_len [of "category s" "c # cs"]
    by (auto simp: decode_value_def split: if_splits elim!: store_read_len)
qed

lemma decode_key_len: "decode_key s = (Inr u, s') \<Longrightarrow> length (input s') < length (input s)"
  by (auto simp: decode_key_def split: if_splits prod.splits sum.splits dest!: decode_str_len)

lemma decode_step_len: "decode_step s = (Inr u, s') \<Longrightarrow> length (input s') < length (input s)"
  by (auto simp: decode_step_def split: list.splits if_splits option.splits data.splits prod.splits
      sum.splits dest!: decode_value_len decode_key_len)

function decode_loop :: "dstate \<Rightarrow> (decode_exn fault + unit) \<times> dstate" where
  "decode_loop s =
     (case decode_step s of
        (Inl e, s') \<Rightarrow> (Inl e, s')
      | (Inr _, s') \<Rightarrow> if stack s' = [] then (Inr (), s') else decode_loop s')"
  by pat_completeness auto
termination
  by (relation "measure (\<lambda>s. length (input s))") (auto dest: decode_step_len [OF sym])

declare decode_loop.simps [simp del]

text \<open>
  \<^verbatim>\<open>basic_decode\<close>: every exception is rethrown as a \<^verbatim>\<open>decode_error\<close> with the message and
  the offset of the iterator.
\<close>

definition initial_dstate :: "iter_category \<Rightarrow> bytes \<Rightarrow> dstate" where
  "initial_dstate cat bs = \<lparr>result = BInt 0, stack = [], dict_key = [], input = bs, category = cat\<rparr>"

record decode_error =
  message :: bytes
  offset :: nat

definition decode_error_of :: "bytes \<Rightarrow> nat \<Rightarrow> decode_error" where
  "decode_error_of msg off = \<lparr>message = msg @ str '', at offset '' @ decimal off, offset = off\<rparr>"

text \<open>
  \<^verbatim>\<open>std::distance(orig_begin, begin)\<close>. Two \<^verbatim>\<open>istreambuf_iterator\<close>s of one stream are equal unless
  just one of them is at the end, and both read where the stream is: the distance is 0.
\<close>

definition distance :: "iter_category \<Rightarrow> bytes \<Rightarrow> bytes \<Rightarrow> nat" where
  "distance cat orig now = (case cat of ForwardIter \<Rightarrow> length orig - length now | InputIter \<Rightarrow> 0)"

definition basic_decode :: "iter_category \<Rightarrow> bytes \<Rightarrow> decode_error fault + data \<times> bytes" where
  "basic_decode cat bs =
     (case decode_loop (initial_dstate cat bs) of
        (Inl (Throw e), s) \<Rightarrow> Inl (Throw (decode_error_of (what e) (distance cat bs (input s))))
      | (Inl Undefined, s) \<Rightarrow> Inl Undefined
      | (Inr _, s) \<Rightarrow> Inr (result s, input s))"

text \<open>
  \<^verbatim>\<open>decode_view(string_view)\<close> and \<^verbatim>\<open>decode(string_view)\<close> take a copy of \<^verbatim>\<open>begin\<close> and drop what
  follows the value; as values a view and a string are the same bytes.
\<close>

definition decode_view :: "bytes \<Rightarrow> decode_error fault + data" where
  "decode_view bs = (case basic_decode ForwardIter bs of Inl e \<Rightarrow> Inl e | Inr (d, _) \<Rightarrow> Inr d)"

section \<open>The encoder\<close>

definition write_integer :: "int \<Rightarrow> bytes" where
  "write_integer n = (if n < 0 then of_char CHR ''-'' # decimal (nat (- n)) else decimal (nat n))"

definition encode_str :: "bytes \<Rightarrow> bytes" where
  "encode_str s = write_integer (int (length s)) @ [of_char CHR '':''] @ s"

fun encode :: "data \<Rightarrow> bytes" where
  "encode (BInt n) = [of_char CHR ''i''] @ write_integer n @ [of_char CHR ''e'']"
| "encode (BStr s) = encode_str s"
| "encode (BList xs) = [of_char CHR ''l''] @ concat (map encode xs) @ [of_char CHR ''e'']"
| "encode (BDict m) =
     [of_char CHR ''d''] @ concat (map (\<lambda>(k, v). encode_str k @ encode v) m) @ [of_char CHR ''e'']"

end
