(* ===== verification/Bencode_Correct.thy ===== *)
theory Bencode_Correct
  imports Bencode
begin

text \<open>
  Correctness of the bencode decoder and encoder: decoding an encoded value gives the value
  back and stops right behind it; what the decoder returns is well formed; the pointers on
  its stack are always valid; integer arithmetic never leaves its type.
\<close>

section \<open>Well-formed data\<close>

text \<open>
  Integers fit \<^verbatim>\<open>long long\<close>, string lengths fit \<^verbatim>\<open>ptrdiff_t\<close>, dict keys ascend.
\<close>

definition wf_str :: "bytes \<Rightarrow> bool" where
  "wf_str s \<longleftrightarrow> length s < 2 ^ 63"

fun wf_data :: "data \<Rightarrow> bool" where
  "wf_data (BInt n) \<longleftrightarrow> - (2 ^ 63) \<le> n \<and> n < 2 ^ 63"
| "wf_data (BStr s) \<longleftrightarrow> wf_str s"
| "wf_data (BList xs) \<longleftrightarrow> (\<forall>x \<in> set xs. wf_data x)"
| "wf_data (BDict m) \<longleftrightarrow> sorted_keys m \<and> (\<forall>(k, v) \<in> set m. wf_str k \<and> wf_data v)"

section \<open>Pointers\<close>

lemma deref_append: "deref d (p @ q) = (case deref d p of None \<Rightarrow> None | Some d' \<Rightarrow> deref d' q)"
  by (induction d p rule: deref.induct) (auto split: option.splits)

lemma deref_assign_same: "deref d p \<noteq> None \<Longrightarrow> deref (assign d p x) p = Some x"
  by (induction d p rule: deref.induct) (auto split: option.splits if_splits simp: map_entry_map_of)

lemma assign_assign: "assign (assign d p x) p y = assign d p y"
proof (induction d p x arbitrary: y rule: assign.induct)
  case (2 xs i p x)
  then show ?case by (cases "i < length xs") (auto simp: list_update_beyond)
qed (auto simp: map_entry_compose)

lemma assign_append:
  "deref d p = Some d' \<Longrightarrow> assign d (p @ q) x = assign d p (assign d' q x)"
proof (induction d p x arbitrary: d' rule: assign.induct)
  case (3 m k p x)
  then show ?case by (auto split: option.splits intro!: map_entry_cong)
qed (auto split: if_splits)

lemma assign_same: "deref d p = Some x \<Longrightarrow> assign d p x = d"
proof (induction d p x rule: assign.induct)
  case (3 m k p x)
  then show ?case by (auto split: option.splits intro!: map_entry_id)
qed (auto split: if_splits)

text \<open>
  \<open>store\<close> picks a place that does not depend on the value: storing another value is the
  same as overwriting the first through the returned pointer.
\<close>

lemma store_place:
  assumes "store x s = (Inr p, s')"
  shows "deref (result s') p = Some x"
    and "store y s = (Inr p, s'\<lparr>result := assign (result s') p y\<rparr>)"
proof -
  have "deref (result s') p = Some x \<and> store y s = (Inr p, s'\<lparr>result := assign (result s') p y\<rparr>)"
  proof (cases "stack s")
    case Nil
    with assms show ?thesis by (auto simp: store_def)
  next
    case (Cons tp st)
    from assms Cons obtain d where d: "deref (result s) tp = Some d"
      by (auto simp: store_def split: option.splits)
    note here = deref_assign_same [of "result s" tp] d
    show ?thesis
    proof (cases d)
      case (BList xs)
      with assms Cons here show ?thesis
        by (auto simp: store_def deref_append assign_append [where d' = "BList (xs @ [x])"]
            assign_assign)
    next
      case (BDict m)
      with assms Cons d obtain m' where m': "map_emplace (dict_key s) x m = Some m'"
        by (auto simp: store_def split: option.splits)
      with assms Cons BDict here map_emplace_map_of [OF m'] map_emplace_entry [OF m', of y]
      show ?thesis
        by (auto simp: store_def deref_append assign_append [where d' = "BDict m'"] assign_assign)
    qed (use assms Cons d in \<open>auto simp: store_def\<close>)
  qed
  then show "deref (result s') p = Some x"
    and "store y s = (Inr p, s'\<lparr>result := assign (result s') p y\<rparr>)" by auto
qed

section \<open>Numbers\<close>

definition fold_digits :: "int \<Rightarrow> int \<Rightarrow> bytes \<Rightarrow> int" where
  "fold_digits sg v ds = foldl (\<lambda>v d. v * 10 + digit_of d * sg) v ds"

lemma fold_digits_simps [simp]:
  "fold_digits sg v [] = v"
  "fold_digits sg v (d # ds) = fold_digits sg (v * 10 + digit_of d * sg) ds"
  "fold_digits sg v (ds @ [d]) = fold_digits sg v ds * 10 + digit_of d * sg"
  by (simp_all add: fold_digits_def)

lemma digit_of_bounds: "isdigit c \<Longrightarrow> 0 \<le> digit_of c \<and> digit_of c \<le> 9"
  by (auto simp: isdigit_def digit_of_def word_le_def)

lemma fold_digits_value:
  "\<forall>d \<in> set ds. isdigit d \<Longrightarrow> fold_digits sg 0 ds = sg * int (dec_value ds)"
proof (induction ds rule: rev_induct)
  case (snoc d ds)
  then have "digit_of d = int (unat d - 48)"
    unfolding digit_of_def uint_nat by (simp add: isdigit_iff_unat of_nat_diff)
  with snoc show ?case by (simp add: algebra_simps)
qed (simp add: dec_value_def)

lemma decode_digits_loop_short:
  "\<forall>d \<in> set ds. isdigit d \<Longrightarrow> \<not> isdigit c \<Longrightarrow> length ds \<le> i \<Longrightarrow>
    decode_digits_loop L sg i v (ds @ c # r) = (Inr (fold_digits sg v ds), c # r)"
proof (induction ds arbitrary: i v)
  case Nil
  then show ?case by (cases i) (auto simp: decode_last_digit_def)
next
  case (Cons d ds)
  then show ?case by (cases i) auto
qed

lemma decode_digits_loop_full:
  "\<forall>d \<in> set ds. isdigit d \<Longrightarrow> isdigit d' \<Longrightarrow> \<not> isdigit c \<Longrightarrow> length ds = i \<Longrightarrow>
    check_over_underflow L (fold_digits sg v ds) (digit_of d' * sg) sg = None \<Longrightarrow>
    decode_digits_loop L sg i v (ds @ d' # c # r) = (Inr (fold_digits sg v (ds @ [d'])), c # r)"
proof (induction ds arbitrary: i v)
  case Nil
  then show ?case by (auto simp: decode_last_digit_def)
next
  case (Cons d ds)
  then show ?case by (cases i) auto
qed

text \<open>The overflow tests are exact: they reject a digit iff the new value leaves the type.\<close>

lemma check_overflow_exact:
  "L = long_long \<or> L = size_t \<Longrightarrow> 0 \<le> d \<Longrightarrow> d \<le> 9 \<Longrightarrow> check_overflow L v d \<longleftrightarrow> lim_max L < v * 10 + d"
  by (auto simp: check_overflow_def long_long_def size_t_def signed_divide_int_def
      signed_modulo_int_def)

lemma check_underflow_exact:
  "-9 \<le> d \<Longrightarrow> d \<le> 0 \<Longrightarrow> check_underflow long_long v d \<longleftrightarrow> v * 10 + d < lim_min long_long"
  by (auto simp: check_underflow_def long_long_def signed_divide_int_def signed_modulo_int_def)

lemma check_none:
  assumes "isdigit d" and "(L = long_long \<and> (sg = 1 \<or> sg = - 1)) \<or> (L = size_t \<and> sg = 1)"
    and "lim_min L \<le> v * 10 + digit_of d * sg" and "v * 10 + digit_of d * sg \<le> lim_max L"
  shows "check_over_underflow L v (digit_of d * sg) sg = None"
  using assms digit_of_bounds [OF assms(1)]
  by (auto simp: check_over_underflow_def check_overflow_exact check_underflow_exact)

lemma decode_digits_ok:
  assumes ds: "\<forall>d \<in> set ds. isdigit d" and c: "\<not> isdigit c" and len: "length ds \<le> Suc (digits10 L)"
    and L: "(L = long_long \<and> (sg = 1 \<or> sg = - 1)) \<or> (L = size_t \<and> sg = 1)"
    and lo: "lim_min L \<le> sg * int (dec_value ds)" and hi: "sg * int (dec_value ds) \<le> lim_max L"
  shows "decode_digits L sg (ds @ c # r) = (Inr (sg * int (dec_value ds)), c # r)"
proof (cases "length ds = Suc (digits10 L)")
  case True
  then obtain es d where es: "ds = es @ [d]" "length es = digits10 L"
    by (cases ds rule: rev_exhaust) auto
  have "fold_digits sg 0 ds = sg * int (dec_value ds)"
    using ds by (rule fold_digits_value)
  with es lo hi L ds have "check_over_underflow L (fold_digits sg 0 es) (digit_of d * sg) sg = None"
    by (intro check_none) auto
  with es ds c have "decode_digits_loop L sg (digits10 L) 0 (es @ d # c # r) =
      (Inr (fold_digits sg 0 (es @ [d])), c # r)"
    by (intro decode_digits_loop_full) auto
  with es ds show ?thesis
    by (simp only: decode_digits_def append_assoc append_Cons append_Nil fold_digits_value)
next
  case False
  with len ds c show ?thesis
    by (simp add: decode_digits_def decode_digits_loop_short fold_digits_value)
qed

lemma decode_int_encode:
  assumes "wf_data (BInt n)"
  shows "decode_int (encode (BInt n) @ r) = (Inr n, r)"
proof -
  let ?ds = "decimal (nat \<bar>n\<bar>)" and ?e = "of_char CHR ''e'' :: byte"
  have "nat \<bar>n\<bar> < 10 ^ Suc 18"
    using assms by (auto simp: nat_less_iff abs_less_iff)
  then have len: "length ?ds \<le> Suc (digits10 long_long)"
    using length_decimal_le [of "nat \<bar>n\<bar>" 18] by (simp add: long_long_def)
  have ds: "\<forall>d \<in> set ?ds. isdigit d"
    using decimal_digits by blast
  have e: "\<not> isdigit ?e" by (simp add: isdigit_def)
  have "decode_digits long_long (sgn1 n) (?ds @ ?e # r) = (Inr n, ?e # r)"
    if "sgn1 = (\<lambda>n. if n < 0 then - 1 else 1)" for sgn1 :: "int \<Rightarrow> int"
    using decode_digits_ok [OF ds e len, of "sgn1 n" r] assms that
    by (auto simp: long_long_def)
  then have D: "decode_digits long_long (if n < 0 then - 1 else 1) (?ds @ ?e # r) = (Inr n, ?e # r)"
    by blast
  obtain d ds' where hd: "?ds = d # ds'" by (cases ?ds) auto
  with ds have "d \<noteq> of_char CHR ''-''" by (auto simp: isdigit_def)
  with D hd show ?thesis
    by (cases "n < 0") (auto simp: decode_int_def write_integer_def)
qed

lemma to_ptrdiff_id: "0 \<le> n \<Longrightarrow> n < 2 ^ 63 \<Longrightarrow> to_ptrdiff n = n"
  by (simp only: to_ptrdiff_def sint_sbintrunc') (simp add: signed_take_bit_int_eq_self)

lemma decode_str_encode:
  assumes "wf_str s"
  shows "decode_str cat (encode_str s @ r) = (Inr s, r)"
proof -
  let ?ds = "decimal (length s)" and ?c = "of_char CHR '':'' :: byte"
  have bound: "length s < 2 ^ 63" using assms by (simp add: wf_str_def)
  then have len: "length ?ds \<le> Suc (digits10 size_t)"
    using length_decimal_le [of "length s" 18] by (simp add: size_t_def)
  have ds: "\<forall>d \<in> set ?ds. isdigit d"
    using decimal_digits by blast
  have "int (length s) < 2 ^ 63"
    using bound by (simp flip: of_nat_less_iff)
  then have D: "decode_digits size_t 1 (?ds @ ?c # s @ r) = (Inr (int (length s)), ?c # s @ r)"
    using decode_digits_ok [OF ds _ len, of ?c 1 "s @ r"] by (simp add: isdigit_def size_t_def)
  have "to_ptrdiff (int (length s)) = int (length s)"
    using \<open>int (length s) < 2 ^ 63\<close> by (simp add: to_ptrdiff_id)
  with D \<open>int (length s) < 2 ^ 63\<close> show ?thesis
    by (simp add: decode_str_def encode_str_def write_integer_def str_reader_def str_reader_forward_def
        str_reader_input_def str_reader_loop_cases max_string_def split: iter_category.split)
qed

section \<open>Decoding an encoded value\<close>

text \<open>What the loop does after an iteration that ended normally.\<close>

definition continue_loop :: "dstate \<Rightarrow> (decode_exn fault + unit) \<times> dstate" where
  "continue_loop s = (if stack s = [] then (Inr (), s) else decode_loop s)"

lemma decode_loop_step:
  "decode_step s = (Inr u, s') \<Longrightarrow> decode_loop s = continue_loop s'"
  by (subst decode_loop.simps) (simp add: continue_loop_def)

text \<open>The first byte of an encoded value decides the branch.\<close>

lemma encode_str_hd: "\<exists>c cs. encode_str s = c # cs \<and> isdigit c"
proof -
  obtain c cs where "decimal (length s) = c # cs"
    by (cases "decimal (length s)") auto
  then show ?thesis
    using decimal_digits [of c "length s"] by (auto simp: encode_str_def write_integer_def)
qed

lemma encode_hd: "\<exists>c cs. encode d = c # cs \<and> c \<noteq> of_char CHR ''e''"
  using encode_str_hd by (cases d) (force simp: isdigit_def)+

lemma digit_not_letter:
  "isdigit c \<Longrightarrow> c \<noteq> of_char CHR ''e'' \<and> c \<noteq> of_char CHR ''i'' \<and> c \<noteq> of_char CHR ''l'' \<and>
    c \<noteq> of_char CHR ''d''"
  by (auto simp: isdigit_def)

lemma store_input:
  "store x (s\<lparr>input := i\<rparr>) = map_prod id (\<lambda>s. s\<lparr>input := i\<rparr>) (store x s)"
  by (auto simp: store_def split: list.split option.split data.split)

text \<open>
  Decoding the value \<open>d\<close> at a place where it can be stored runs to the state in which it
  has been stored and the stack is as before. Only \<open>dict_key\<close> may be left changed.
\<close>

text \<open>
  The text may list the entries of a dict in any order. \<open>normalise\<close> inserts them one after the
  other into the map, as the decoder does; it fails on a duplicate key.
\<close>

fun emplace_all :: "('k :: linorder \<times> 'v) list \<Rightarrow> ('k, 'v) std_map \<Rightarrow> ('k, 'v) std_map option" where
  "emplace_all [] m = Some m"
| "emplace_all ((k, v) # es) m = (case map_emplace k v m of None \<Rightarrow> None | Some m' \<Rightarrow> emplace_all es m')"

fun all_some :: "'a option list \<Rightarrow> 'a list option" where
  "all_some [] = Some []"
| "all_some (None # ms) = None"
| "all_some (Some x # ms) = map_option (Cons x) (all_some ms)"

fun normalise :: "data \<Rightarrow> data option" where
  "normalise (BInt n) = Some (BInt n)"
| "normalise (BStr b) = Some (BStr b)"
| "normalise (BList xs) = map_option BList (all_some (map normalise xs))"
| "normalise (BDict m) =
     (case all_some (map (\<lambda>(k, v). map_option (Pair k) (normalise v)) m) of
        None \<Rightarrow> None
      | Some es \<Rightarrow> map_option BDict (emplace_all es []))"

lemma all_some_eq: "all_some ms = Some xs \<longleftrightarrow> ms = map Some xs"
  by (induction ms arbitrary: xs rule: all_some.induct) auto

lemma emplace_all_sorted_append:
  "sorted_keys (m @ es) \<Longrightarrow> emplace_all es m = Some (m @ es)"
proof (induction es arbitrary: m)
  case (Cons e es)
  obtain k v where e: "e = (k, v)" by fastforce
  from Cons.prems have "\<forall>k' \<in> fst ` set m. k' < k"
    by (auto simp: e sorted_keys_def sorted_wrt_append)
  with Cons.IH [of "m @ [(k, v)]"] Cons.prems show ?case by (simp add: e map_emplace_last)
qed simp

text \<open>The text of \<open>d\<close> is decoded as \<open>d'\<close>.\<close>

definition stores_as :: "data \<Rightarrow> data \<Rightarrow> bool" where
  "stores_as d d' \<longleftrightarrow>
     (\<forall>s r p s'. input s = encode d @ r \<longrightarrow> store d' s = (Inr p, s') \<longrightarrow>
        (\<exists>s2 k. decode_value s = (Inr (), s2) \<and>
           continue_loop s2 = continue_loop (s'\<lparr>input := r, dict_key := k\<rparr>)))"

lemma stores_asD:
  assumes "stores_as d d'" and "input s = encode d @ r" and "store d' s = (Inr p, s')"
  obtains s2 k where "decode_value s = (Inr (), s2)"
    and "continue_loop s2 = continue_loop (s'\<lparr>input := r, dict_key := k\<rparr>)"
  using assms unfolding stores_as_def by blast

lemma stores_as_read:
  assumes "\<And>s r p s'. input s = encode d @ r \<Longrightarrow> store d s = (Inr p, s') \<Longrightarrow>
    decode_value s = (Inr (), s'\<lparr>input := r\<rparr>)"
  shows "stores_as d d"
  unfolding stores_as_def
proof (intro allI impI)
  fix s r p s'
  assume "input s = encode d @ r" and "store d s = (Inr p, s')"
  from assms [OF this] show "\<exists>s2 k. decode_value s = (Inr (), s2) \<and>
      continue_loop s2 = continue_loop (s'\<lparr>input := r, dict_key := k\<rparr>)"
    by (intro exI [of _ "s'\<lparr>input := r\<rparr>"] exI [of _ "dict_key s'"]) simp
qed

lemma stores_BInt: "wf_data (BInt n) \<Longrightarrow> stores_as (BInt n) (BInt n)"
  by (rule stores_as_read) (use decode_int_encode in \<open>simp add: decode_value_def store_read_def store_input\<close>)

lemma stores_BStr: "wf_data (BStr b) \<Longrightarrow> stores_as (BStr b) (BStr b)"
proof (rule stores_as_read)
  fix s r p s'
  assume wf: "wf_data (BStr b)" and s: "input s = encode (BStr b) @ r"
    and st: "store (BStr b) s = (Inr p, s')"
  obtain c cs where c: "encode_str b = c # cs" "isdigit c"
    using encode_str_hd by blast
  have "decode_str (category s) (encode_str b @ r) = (Inr b, r)"
    using wf by (simp add: decode_str_encode)
  then show "decode_value s = (Inr (), s'\<lparr>input := r\<rparr>)"
    using s st c digit_not_letter [OF c(2)]
    by (simp add: decode_value_def store_read_def store_input)
qed

text \<open>The elements of a list, one iteration after the other, then the closing \<^verbatim>\<open>e\<close>.\<close>

lemma list_elements:
  assumes "list_all2 stores_as xs xs'"
    and "stack t = p # st" and "deref (result t) p = Some (BList ys)"
    and "input t = concat (map encode xs) @ [of_char CHR ''e''] @ r"
  shows "\<exists>k. decode_loop t = continue_loop
    (t\<lparr>result := assign (result t) p (BList (ys @ xs')), stack := st, input := r, dict_key := k\<rparr>)"
  using assms
proof (induction xs xs' arbitrary: t ys rule: list_all2_induct)
  case Nil
  have "assign (result t) p (BList ys) = result t"
    using Nil.prems(2) by (rule assign_same)
  with Nil have "decode_step t = (Inr (), t\<lparr>result := assign (result t) p (BList ys), stack := st,
      input := r, dict_key := dict_key t\<rparr>)"
    by (simp add: decode_step_def)
  from decode_loop_step [OF this] show ?case
    by (intro exI [of _ "dict_key t"]) simp
next
  case (Cons x xs x' xs')
  obtain c cs where c: "encode x = c # cs" "c \<noteq> of_char CHR ''e''"
    using encode_hd by blast
  let ?rest = "concat (map encode xs) @ [of_char CHR ''e''] @ r"
  let ?t = "t\<lparr>result := assign (result t) p (BList (ys @ [x']))\<rparr>"
  have st: "store x' t = (Inr (p @ [Idx (length ys)]), ?t)"
    using Cons.prems by (simp add: store_def)
  have "input t = encode x @ ?rest" using Cons.prems by auto
  with Cons.hyps(1) obtain s2 k where s2: "decode_value t = (Inr (), s2)"
    "continue_loop s2 = continue_loop (?t\<lparr>input := ?rest, dict_key := k\<rparr>)"
    using st by (rule stores_asD)
  have "decode_step t = (Inr (), s2)"
    using Cons.prems c s2(1) by (simp add: decode_step_def)
  then have "decode_loop t = decode_loop (?t\<lparr>input := ?rest, dict_key := k\<rparr>)"
    using s2(2) Cons.prems(1) by (simp add: decode_loop_step continue_loop_def)
  moreover have "deref (result ?t) p = Some (BList (ys @ [x']))"
    using Cons.prems(2) by (simp add: deref_assign_same)
  ultimately show ?case
    using Cons.IH [of "?t\<lparr>input := ?rest, dict_key := k\<rparr>" "ys @ [x']"] Cons.prems
    by (auto simp: assign_assign)
qed

definition entry_as :: "bytes \<times> data \<Rightarrow> bytes \<times> data \<Rightarrow> bool" where
  "entry_as e e' \<longleftrightarrow> wf_str (fst e) \<and> fst e' = fst e \<and> stores_as (snd e) (snd e')"

lemma decode_step_entry:
  assumes "wf_str key" and "stack t = p # st" and "deref (result t) p = Some (BDict m0)"
    and "input t = encode_str key @ encode v @ r"
  shows "decode_step t = decode_value (t\<lparr>dict_key := key, input := encode v @ r\<rparr>)"
proof -
  obtain c cs where c: "encode_str key = c # cs" "isdigit c"
    using encode_str_hd by blast
  obtain c' cs' where c': "encode v = c' # cs'" using encode_hd by blast
  have "decode_str (category t) (input t) = (Inr key, encode v @ r)"
    using assms(4) decode_str_encode [OF assms(1)] by simp
  with assms c c' digit_not_letter [OF c(2)] show ?thesis by (simp add: decode_step_def decode_key_def)
qed

lemma dict_run:
  assumes "list_all2 entry_as m es" and "emplace_all es m0 = Some m'"
    and "stack t = p # st" and "deref (result t) p = Some (BDict m0)"
    and "input t = concat (map (\<lambda>(k, v). encode_str k @ encode v) m) @ txt"
  shows "\<exists>k. decode_loop t =
    decode_loop (t\<lparr>result := assign (result t) p (BDict m'), input := txt, dict_key := k\<rparr>)"
  using assms
proof (induction m es arbitrary: t m0 rule: list_all2_induct)
  case Nil
  have "assign (result t) p (BDict m0) = result t"
    using Nil.prems(3) by (rule assign_same)
  with Nil show ?case by (cases t) (auto intro!: exI [of _ "dict_key t"])
next
  case (Cons e m e' es)
  obtain key v v' where e: "e = (key, v)" "e' = (key, v')" and key: "wf_str key" and v: "stores_as v v'"
    using Cons.hyps(1) by (cases e, cases e') (auto simp: entry_as_def)
  from Cons.prems(1) obtain m1 where m1: "map_emplace key v' m0 = Some m1" "emplace_all es m1 = Some m'"
    by (auto simp: e split: option.splits)
  let ?rest = "concat (map (\<lambda>(k, v). encode_str k @ encode v) m) @ txt"
  let ?u = "t\<lparr>dict_key := key, input := encode v @ ?rest\<rparr>"
  let ?t = "?u\<lparr>result := assign (result t) p (BDict m1)\<rparr>"
  have st: "store v' ?u = (Inr (p @ [Key key]), ?t)"
    using Cons.prems(2,3) m1(1) by (simp add: store_def)
  have "input ?u = encode v @ ?rest" by simp
  from stores_asD [OF v this st]
  obtain s2 k where s2: "decode_value ?u = (Inr (), s2)"
    "continue_loop s2 = continue_loop (?t\<lparr>input := ?rest, dict_key := k\<rparr>)" .
  have "input t = encode_str key @ encode v @ ?rest" using Cons.prems(4) by (simp add: e)
  from decode_step_entry [OF key Cons.prems(2,3) this] s2(1) have "decode_step t = (Inr (), s2)" by simp
  then have "decode_loop t = decode_loop (?t\<lparr>input := ?rest, dict_key := k\<rparr>)"
    using s2(2) Cons.prems(2) by (simp add: decode_loop_step continue_loop_def)
  moreover have "deref (result ?t) p = Some (BDict m1)"
    using Cons.prems(3) by (simp add: deref_assign_same)
  ultimately show ?case
    using Cons.IH [OF m1(2), of "?t\<lparr>input := ?rest, dict_key := k\<rparr>"] Cons.prems
    by (auto simp: assign_assign)
qed

lemma dict_entries:
  assumes "list_all2 entry_as m es" and "emplace_all es m0 = Some m'"
    and "stack t = p # st" and "deref (result t) p = Some (BDict m0)"
    and "input t = concat (map (\<lambda>(k, v). encode_str k @ encode v) m) @ [of_char CHR ''e''] @ r"
  shows "\<exists>k. decode_loop t = continue_loop
    (t\<lparr>result := assign (result t) p (BDict m'), stack := st, input := r, dict_key := k\<rparr>)"
proof -
  from dict_run [OF assms] obtain k where
    k: "decode_loop t = decode_loop (t\<lparr>result := assign (result t) p (BDict m'),
      input := [of_char CHR ''e''] @ r, dict_key := k\<rparr>)" by blast
  let ?t = "t\<lparr>result := assign (result t) p (BDict m'), input := [of_char CHR ''e''] @ r, dict_key := k\<rparr>"
  have "decode_step ?t = (Inr (), ?t\<lparr>stack := st, input := r\<rparr>)"
    using assms(3) by (simp add: decode_step_def)
  from decode_loop_step [OF this] k show ?thesis by (cases t) (auto intro!: exI [of _ k])
qed

text \<open>
  A container: the e0 one is stored and pushed, its content is decoded in place, and the
  place ends up holding what storing the whole container would have put there.
\<close>

lemma stores_container:
  assumes enc: "encode d = [c] @ body @ [of_char CHR ''e'']"
    and push: "\<And>s. hd (input s) = c \<Longrightarrow> input s \<noteq> [] \<Longrightarrow> decode_value s = store_push e0 s"
    and body: "\<And>t p st r. stack t = p # st \<Longrightarrow> deref (result t) p = Some e0 \<Longrightarrow>
      input t = body @ [of_char CHR ''e''] @ r \<Longrightarrow>
      \<exists>k. decode_loop t = continue_loop
        (t\<lparr>result := assign (result t) p d', stack := st, input := r, dict_key := k\<rparr>)"
  shows "stores_as d d'"
  unfolding stores_as_def
proof (intro allI impI)
  fix s r p s'
  assume s: "input s = encode d @ r" and st: "store d' s = (Inr p, s')"
  define s0 where "s0 = s'\<lparr>result := assign (result s') p e0\<rparr>"
  have st0: "store e0 s = (Inr p, s0)"
    using store_place(2) [OF st, of e0] by (simp add: s0_def)
  have d0: "deref (result s0) p = Some e0"
    using store_place(1) [OF st0] .
  have refill: "assign (result s0) p d' = result s'"
    using store_place [OF st] by (simp add: s0_def assign_assign assign_same)
  let ?t = "s0\<lparr>input := body @ [of_char CHR ''e''] @ r, stack := p # stack s0\<rparr>"
  have "decode_value s = (Inr (), ?t)"
    using s enc st0 by (simp add: push store_push_def store_input)
  moreover obtain k where k: "decode_loop ?t = continue_loop
      (?t\<lparr>result := assign (result ?t) p d', stack := stack s0, input := r, dict_key := k\<rparr>)"
    using body [of ?t p "stack s0" r] d0 by auto
  have running: "continue_loop ?t = decode_loop ?t"
    by (simp add: continue_loop_def)
  have "?t\<lparr>result := assign (result ?t) p d', stack := stack s0, input := r, dict_key := k\<rparr> =
      s'\<lparr>input := r, dict_key := k\<rparr>"
    by (simp add: refill) (simp add: s0_def)
  then have "continue_loop ?t = continue_loop (s'\<lparr>input := r, dict_key := k\<rparr>)"
    using k running by (simp only:)
  ultimately show "\<exists>s2 k. decode_value s = (Inr (), s2) \<and>
      continue_loop s2 = continue_loop (s'\<lparr>input := r, dict_key := k\<rparr>)" by blast
qed

lemma decode_value_push:
  "input s \<noteq> [] \<Longrightarrow> hd (input s) = of_char CHR ''l'' \<Longrightarrow> decode_value s = store_push (BList []) s"
  "input s \<noteq> [] \<Longrightarrow> hd (input s) = of_char CHR ''d'' \<Longrightarrow> decode_value s = store_push (BDict []) s"
  by (auto simp: decode_value_def neq_Nil_conv)

text \<open>Integers and strings are in range; nothing is asked of the order of keys.\<close>

fun raw_data :: "data \<Rightarrow> bool" where
  "raw_data (BInt n) \<longleftrightarrow> wf_data (BInt n)"
| "raw_data (BStr b) \<longleftrightarrow> wf_data (BStr b)"
| "raw_data (BList xs) \<longleftrightarrow> (\<forall>x \<in> set xs. raw_data x)"
| "raw_data (BDict m) \<longleftrightarrow> (\<forall>(k, v) \<in> set m. wf_str k \<and> raw_data v)"

lemma normalise_stores: "raw_data d \<Longrightarrow> normalise d = Some d' \<Longrightarrow> stores_as d d'"
proof (induction d arbitrary: d')
  case (BInt n)
  then show ?case using stores_BInt [of n] by (metis normalise.simps(1) option.inject raw_data.simps(1))
next
  case (BStr b)
  then show ?case using stores_BStr [of b] by (metis normalise.simps(2) option.inject raw_data.simps(2))
next
  case (BList xs)
  then obtain xs' where xs': "map normalise xs = map Some xs'" and d': "d' = BList xs'"
    by (auto simp: all_some_eq)
  then have "list_all2 (\<lambda>x x'. normalise x = Some x') xs xs'"
    by (auto simp: list_all2_conv_all_nth list_eq_iff_nth_eq)
  with BList have "list_all2 stores_as xs xs'"
    by (auto simp: list_all2_conv_all_nth)
  then show ?case
    using list_elements [of xs xs' _ _ _ "[]"]
    by (intro stores_container [of "BList xs" "of_char CHR ''l''" "concat (map encode xs)" "BList []"])
      (auto simp: decode_value_push d')
next
  case (BDict m)
  from BDict.prems(2) obtain es m' where
    es: "map (\<lambda>(k, v). map_option (Pair k) (normalise v)) m = map Some es"
    and m': "emplace_all es [] = Some m'" and d': "d' = BDict m'"
    by (auto simp: all_some_eq split: option.splits)
  have "length m = length es" using es by (metis length_map)
  moreover have "entry_as (m ! i) (es ! i)" if "i < length m" for i
  proof -
    obtain k v where kv: "m ! i = (k, v)" by fastforce
    then have "map_option (Pair k) (normalise v) = Some (es ! i)"
      using arg_cong [OF es, of "\<lambda>l. l ! i"] that \<open>length m = length es\<close> by simp
    moreover have "(k, v) \<in> set m" using that kv by (metis nth_mem)
    ultimately obtain v' where v': "es ! i = (k, v')" "normalise v = Some v'" "(k, v) \<in> set m"
      by (auto dest: sym)
    then have "stores_as v v'" "wf_str k"
      using BDict.IH [of "(k, v)" v] BDict.prems(1) by (auto simp: snds.simps)
    then show ?thesis by (simp add: kv v'(1) entry_as_def)
  qed
  ultimately have "list_all2 entry_as m es" by (simp add: list_all2_conv_all_nth)
  from dict_entries [OF this m'] show ?case
    by (intro stores_container [of "BDict m" "of_char CHR ''d''"
          "concat (map (\<lambda>(k, v). encode_str k @ encode v) m)" "BDict []"])
      (auto simp: decode_value_push d')
qed

text \<open>A value whose dicts are in order is its own normal form.\<close>

lemma wf_normalise: "wf_data d \<Longrightarrow> raw_data d \<and> normalise d = Some d"
proof (induction d)
  case (BList xs)
  then have "map normalise xs = map Some xs" by simp
  with BList show ?case by (simp add: all_some_eq)
next
  case (BDict m)
  have parts: "raw_data v \<and> normalise v = Some v \<and> wf_str k" if "(k, v) \<in> set m" for k v
    using BDict.IH [of "(k, v)" v] BDict.prems that by (auto simp: snds.simps)
  then have "map (\<lambda>(k, v). map_option (Pair k) (normalise v)) m = map Some m" by auto
  then have "all_some (map (\<lambda>(k, v). map_option (Pair k) (normalise v)) m) = Some m"
    by (simp only: all_some_eq)
  moreover have "emplace_all m [] = Some m"
    using emplace_all_sorted_append [of "[]" m] BDict.prems by simp
  ultimately show ?case using parts by auto
qed auto

lemma basic_decode_normalise:
  assumes "raw_data d" and "normalise d = Some d'"
  shows "basic_decode cat (encode d @ r) = Inr (d', r)"
proof -
  let ?s = "initial_dstate cat (encode d @ r)"
  obtain c cs where c: "encode d = c # cs" "c \<noteq> of_char CHR ''e''"
    using encode_hd by blast
  have "store d' ?s = (Inr [], ?s\<lparr>result := d'\<rparr>)"
    by (simp add: store_def initial_dstate_def)
  from stores_asD [OF normalise_stores [OF assms] _ this]
  obtain s2 k where "decode_value ?s = (Inr (), s2)"
    "continue_loop s2 = continue_loop (?s\<lparr>result := d', input := r, dict_key := k\<rparr>)"
    by (auto simp: initial_dstate_def)
  then have "decode_loop ?s = (Inr (), ?s\<lparr>result := d', input := r, dict_key := k\<rparr>)"
    using c decode_loop_step [of ?s "()" s2]
    by (simp add: decode_step_def initial_dstate_def continue_loop_def)
  then show ?thesis
    by (simp add: basic_decode_def)
qed

lemma basic_decode_encode: "wf_data d \<Longrightarrow> basic_decode cat (encode d @ r) = Inr (d, r)"
  using wf_normalise basic_decode_normalise by blast

interpretation bencode: prefix_codec encode
    "\<lambda>bs. case basic_decode cat bs of Inl e \<Rightarrow> None | Inr x \<Rightarrow> Some x" wf_data
  by unfold_locales (simp add: basic_decode_encode)

section \<open>Results are in range\<close>

definition digits_mode :: "limits \<Rightarrow> int \<Rightarrow> bool" where
  "digits_mode L sg \<longleftrightarrow> (L = long_long \<and> (sg = 1 \<or> sg = - 1)) \<or> (L = size_t \<and> sg = 1)"

lemma last_digit_range:
  assumes "digits_mode L sg" and "decode_last_digit L sg v bs = (Inr x, r)"
    and "0 \<le> sg * v" and "sg * v < 10 ^ digits10 L"
  shows "0 \<le> sg * x \<and> lim_min L \<le> x \<and> x \<le> lim_max L"
proof -
  obtain c cs where c: "bs = c # cs"
    using assms(2) by (cases bs) (auto simp: decode_last_digit_def)
  have small: "lim_min L \<le> v \<and> v \<le> lim_max L"
    using assms by (auto simp: digits_mode_def long_long_def size_t_def)
  show ?thesis
  proof (cases "isdigit c")
    case False
    with assms c small show ?thesis by (simp add: decode_last_digit_def)
  next
    case True
    with assms(2) c have "check_over_underflow L v (digit_of c * sg) sg = None"
      and x: "x = v * 10 + digit_of c * sg"
      by (auto simp: decode_last_digit_def split: option.splits list.splits if_splits)
    with assms(1,3) digit_of_bounds [OF True] show ?thesis
      by (auto simp: digits_mode_def check_over_underflow_def check_overflow_exact
          check_underflow_exact split: if_splits) (auto simp: long_long_def size_t_def)
  qed
qed

lemma digits_loop_range:
  "digits_mode L sg \<Longrightarrow> decode_digits_loop L sg i v bs = (Inr x, r) \<Longrightarrow> 0 \<le> sg * v \<Longrightarrow>
    sg * v < 10 ^ k \<Longrightarrow> k + i = digits10 L \<Longrightarrow> 0 \<le> sg * x \<and> lim_min L \<le> x \<and> x \<le> lim_max L"
proof (induction L sg i v bs arbitrary: k rule: decode_digits_loop.induct)
  case (2 L sg v c cs)
  then show ?case using last_digit_range [of L sg v "c # cs" x r] by simp
next
  case (3 L sg i v c cs)
  show ?case
  proof (cases "isdigit c")
    case True
    have "0 \<le> sg * (v * 10 + digit_of c * sg) \<and> sg * (v * 10 + digit_of c * sg) < 10 ^ Suc k"
      using 3 digit_of_bounds [OF True] by (auto simp: digits_mode_def algebra_simps)
    with "3.IH" [of "Suc k"] "3.prems" True show ?thesis by (simp del: power_Suc)
  next
    case False
    have "10 ^ k \<le> (10 :: int) ^ digits10 L"
      using 3 by (intro power_increasing) auto
    with "3.prems"(4) have "sg * v < 10 ^ digits10 L" by linarith
    with "3.prems"(1,3) have "lim_min L \<le> v \<and> v \<le> lim_max L"
      by (auto simp: digits_mode_def long_long_def size_t_def)
    with "3.prems" False show ?thesis by simp
  qed
qed auto

lemma decode_digits_range:
  "digits_mode L sg \<Longrightarrow> decode_digits L sg bs = (Inr x, r) \<Longrightarrow>
    0 \<le> sg * x \<and> lim_min L \<le> x \<and> x \<le> lim_max L"
  using digits_loop_range [of L sg "digits10 L" 0 bs x r 0] by (simp add: decode_digits_def)

lemma decode_int_range: "decode_int bs = (Inr n, r) \<Longrightarrow> wf_data (BInt n)"
proof -
  assume d: "decode_int bs = (Inr n, r)"
  then obtain sg cs r' where "sg = 1 \<or> sg = - 1" "decode_digits long_long sg cs = (Inr n, r')"
    by (auto simp: decode_int_def split: list.splits if_splits prod.splits sum.splits)
  then have "lim_min long_long \<le> n \<and> n \<le> lim_max long_long"
    using decode_digits_range [of long_long sg cs n r'] by (auto simp: digits_mode_def)
  then show ?thesis by (simp add: long_long_def)
qed

lemma decode_str_bound: "decode_str cat bs = (Inr s, r) \<Longrightarrow> length s + length r < length bs"
  by (auto simp: decode_str_def str_reader_def str_reader_forward_def str_reader_input_def
      str_reader_loop_cases split: iter_category.splits list.splits if_splits prod.splits sum.splits
      dest!: decode_digits_len)

section \<open>Invariant of the decoder's state\<close>

definition is_container :: "data option \<Rightarrow> bool" where
  "is_container x \<longleftrightarrow> (\<exists>xs. x = Some (BList xs)) \<or> (\<exists>m. x = Some (BDict m))"

text \<open>Each pointer on the stack is a child link of the one below it; the lowest is the root.\<close>

fun ptr_chain :: "ptr list \<Rightarrow> bool" where
  "ptr_chain [] = True"
| "ptr_chain [p] = (p = [])"
| "ptr_chain (p # q # st) = (p \<noteq> [] \<and> butlast p = q \<and> ptr_chain (q # st))"

definition dstate_inv :: "dstate \<Rightarrow> bool" where
  "dstate_inv s \<longleftrightarrow>
     wf_data (result s) \<and> wf_str (dict_key s) \<and> length (input s) < 2 ^ 63 \<and>
     ptr_chain (stack s) \<and> (\<forall>p \<in> set (stack s). is_container (deref (result s) p))"

lemma wf_assign:
  "wf_data d \<Longrightarrow> wf_data x \<Longrightarrow> deref d p \<noteq> None \<Longrightarrow> wf_data (assign d p x)"
proof (induction d p x rule: assign.induct)
  case (2 xs i p x)
  then show ?case
    by (auto split: if_splits dest!: set_update_subset_insert [THEN subsetD])
next
  case (3 m k p x)
  then obtain v d where v: "map_of m k = Some v" "deref v p = Some d"
    by (auto split: option.splits)
  from v(1) have "(k, v) \<in> set m" by (rule map_of_SomeD)
  with 3 v show ?case
    by (auto dest!: map_entry_set [THEN subsetD])
qed auto

lemma wf_deref: "wf_data d \<Longrightarrow> deref d p = Some x \<Longrightarrow> wf_data x"
proof (induction d p rule: deref.induct)
  case (3 m k p)
  then show ?case by (auto split: option.splits dest!: map_of_SomeD)
qed (auto split: if_splits)

lemma wf_empty [simp]: "wf_data (BList [])" "wf_data (BDict [])"
  by simp_all

lemma chain_prefix: "ptr_chain (p # st) \<Longrightarrow> q \<in> set (p # st) \<Longrightarrow> \<exists>l. p = q @ l"
proof (induction "p # st" arbitrary: p st rule: ptr_chain.induct)
  case (3 p q' st)
  then show ?case by (metis append.assoc append_butlast_last_id ptr_chain.simps(3) set_ConsD append_Nil2)
qed auto

lemma container_assign:
  assumes "is_container (deref d p)" and "is_container (Some x)" and "q = p @ l" and "deref d q \<noteq> None"
  shows "is_container (deref (assign d q x) p)"
proof -
  obtain d' where d': "deref d p = Some d'" "is_container (Some d')"
    using assms(1) by (auto simp: is_container_def)
  then have "deref (assign d q x) p = Some (assign d' l x)"
    using assms(3) by (simp add: assign_append deref_assign_same)
  moreover have "is_container (Some (assign d' l x))"
    using d'(2) assms(2) by (cases l; cases "hd l") (auto simp: is_container_def)
  ultimately show ?thesis by simp
qed

lemma store_inv:
  assumes "dstate_inv s" and "wf_data x" and "store x s = (Inr p, s')"
  shows "dstate_inv s' \<and> (is_container (Some x) \<longrightarrow> dstate_inv (s'\<lparr>stack := p # stack s'\<rparr>))"
proof (cases "stack s")
  case Nil
  with assms show ?thesis
    by (auto simp: store_def dstate_inv_def)
next
  case (Cons tp st)
  note frame = store_frame [OF assms(3)]
  obtain y l where y: "result s' = assign (result s) tp y" "p = tp @ [l]" "is_container (Some y)"
    "wf_data y" "deref (result s) tp \<noteq> None"
  proof (cases "deref (result s) tp")
    case (Some d)
    with assms(1) have wf: "wf_data d"
      by (auto simp: dstate_inv_def intro: wf_deref)
    show ?thesis
    proof (cases d)
      case (BList xs)
      with wf assms Some Cons show ?thesis
        by (intro that [of "BList (xs @ [x])" "Idx (length xs)"])
          (auto simp: store_def is_container_def)
    next
      case (BDict m)
      then obtain m' where m': "map_emplace (dict_key s) x m = Some m'"
        using assms Some Cons by (auto simp: store_def split: option.splits)
      have "wf_data (BDict m')"
        using map_emplace_set [OF m'] map_emplace_sorted [OF m'] wf BDict assms(1,2)
        by (auto simp: dstate_inv_def)
      with m' assms Some Cons BDict show ?thesis
        by (intro that [of "BDict m'" "Key (dict_key s)"])
          (auto simp: store_def is_container_def)
    qed (use assms Some Cons in \<open>auto simp: store_def\<close>)
  qed (use assms Cons in \<open>auto simp: store_def\<close>)
  have "is_container (deref (result s') q)" if q: "q \<in> set (stack s)" for q
  proof -
    obtain l' where "tp = q @ l'"
      using chain_prefix [of tp st q] assms(1) q Cons by (auto simp: dstate_inv_def)
    with container_assign [OF _ y(3) _ y(5)] assms(1) q y(1) show ?thesis
      by (auto simp: dstate_inv_def)
  qed
  moreover have "wf_data (result s')"
    using assms(1) y wf_assign by (auto simp: dstate_inv_def)
  ultimately show ?thesis
    using assms(1) frame Cons y(2) store_place(1) [OF assms(3)]
    by (auto simp: dstate_inv_def is_container_def)
qed

lemma store_read_inv:
  assumes "dstate_inv s" and "store_read mk rd s = (Inr u, s')"
    and "\<And>x r. rd (input s) = (Inr x, r) \<Longrightarrow> wf_data (mk x) \<and> length r \<le> length (input s)"
  shows "dstate_inv s'"
proof -
  obtain x r p where r: "rd (input s) = (Inr x, r)" "store (mk x) (s\<lparr>input := r\<rparr>) = (Inr p, s')"
    using assms(2) by (auto simp: store_read_def split: prod.splits sum.splits)
  have "dstate_inv (s\<lparr>input := r\<rparr>)"
    using assms(1,3) r(1) by (force simp: dstate_inv_def)
  from store_inv [OF this _ r(2)] assms(3) [OF r(1)] show ?thesis by simp
qed

lemma store_push_inv:
  assumes "dstate_inv s" and "store_push x s = (Inr u, s')" and "wf_data x" and "is_container (Some x)"
  shows "dstate_inv s'"
proof -
  obtain p s1 where p: "store x (s\<lparr>input := tl (input s)\<rparr>) = (Inr p, s1)" "s' = s1\<lparr>stack := p # stack s1\<rparr>"
    using assms(2) by (auto simp: store_push_def split: prod.splits sum.splits)
  have "dstate_inv (s\<lparr>input := tl (input s)\<rparr>)"
    using assms(1) by (auto simp: dstate_inv_def)
  from store_inv [OF this assms(3) p(1)] assms(4) p(2) show ?thesis by simp
qed

lemma decode_value_inv:
  assumes "dstate_inv s" and "decode_value s = (Inr u, s')"
  shows "dstate_inv s'"
proof -
  obtain c cs where c: "input s = c # cs"
    using assms by (auto simp: decode_value_def split: list.splits)
  have str: "wf_data (BStr x) \<and> length r \<le> length (input s)" if "decode_str (category s) (input s) = (Inr x, r)" for x r
    using decode_str_bound [OF that] assms(1) by (auto simp: dstate_inv_def wf_str_def)
  have int: "wf_data (BInt x) \<and> length r \<le> length (input s)" if "decode_int (input s) = (Inr x, r)" for x r
    using decode_int_len [of c cs x r] decode_int_range that c by auto
  show ?thesis
    using assms c store_read_inv [OF assms(1) _ str] store_read_inv [OF assms(1) _ int]
      store_push_inv [OF assms(1)]
    by (auto simp: decode_value_def is_container_def split: if_splits)
qed

lemma decode_step_inv:
  assumes "dstate_inv s" and "decode_step s = (Inr u, s')"
  shows "dstate_inv s'"
proof -
  obtain c cs where c: "input s = c # cs"
    using assms by (auto simp: decode_step_def split: list.splits)
  show ?thesis
  proof (cases "c = of_char CHR ''e''")
    case True
    with assms c show ?thesis
      by (cases "stack s" rule: ptr_chain.cases) (auto simp: decode_step_def dstate_inv_def)
  next
    case False
    consider "decode_value s = (Inr u, s')"
      | s1 where "decode_key s = (Inr (), s1)" "decode_value s1 = (Inr u, s')"
      using assms(2) c False
      by (auto simp: decode_step_def split: list.splits option.splits data.splits prod.splits sum.splits)
    then show ?thesis
    proof cases
      case 1
      with assms(1) show ?thesis by (rule decode_value_inv)
    next
      case 2
      then obtain k r where k: "decode_str (category s) (input s) = (Inr k, r)" "s1 = s\<lparr>dict_key := k, input := r\<rparr>"
        by (auto simp: decode_key_def split: if_splits prod.splits sum.splits)
      with decode_str_bound [OF k(1)] assms(1) have "dstate_inv s1"
        by (auto simp: dstate_inv_def wf_str_def)
      then show ?thesis using 2(2) by (rule decode_value_inv)
    qed
  qed
qed

text \<open>The loop as a transition system: its states are the ones between two iterations.\<close>

definition decode_starts :: "dstate \<Rightarrow> bool" where
  "decode_starts s \<longleftrightarrow> (\<exists>cat bs. length bs < 2 ^ 63 \<and> s = initial_dstate cat bs)"

definition decode_iterates :: "dstate \<Rightarrow> dstate \<Rightarrow> bool" where
  "decode_iterates s s' \<longleftrightarrow> decode_step s = (Inr (), s')"

interpretation decoder: transition_system decode_starts decode_iterates dstate_inv
proof unfold_locales
  fix s
  assume "decode_starts s"
  then show "dstate_inv s"
    by (auto simp: decode_starts_def initial_dstate_def dstate_inv_def wf_str_def)
next
  fix s s'
  assume "dstate_inv s" "decode_iterates s s'"
  then show "dstate_inv s'" by (auto simp: decode_iterates_def intro: decode_step_inv)
qed

lemma decode_loop_steps:
  "decode_loop s = (Inr u, s') \<Longrightarrow> decode_iterates\<^sup>*\<^sup>* s s'"
proof (induction s rule: decode_loop.induct)
  case (1 s)
  from "1.prems" obtain s1 where s1: "decode_step s = (Inr (), s1)"
    by (subst (asm) decode_loop.simps) (auto split: prod.splits sum.splits)
  then have one: "decode_iterates s s1" by (simp add: decode_iterates_def)
  show ?case
  proof (cases "stack s1 = []")
    case True
    with "1.prems" s1 have "s' = s1" by (subst (asm) decode_loop.simps) simp
    with one show ?thesis by simp
  next
    case False
    with "1.prems" s1 have "decode_loop s1 = (Inr u, s')"
      by (subst (asm) decode_loop.simps) simp
    with "1.IH" s1 False have "decode_iterates\<^sup>*\<^sup>* s1 s'" by metis
    with one show ?thesis by (rule converse_rtranclp_into_rtranclp)
  qed
qed

lemma basic_decode_wf:
  assumes "basic_decode cat bs = Inr (d, r)" and "length bs < 2 ^ 63"
  shows "wf_data d"
proof -
  from assms(1) obtain s where s: "decode_loop (initial_dstate cat bs) = (Inr (), s)" "d = result s"
    by (auto simp: basic_decode_def split: prod.splits sum.splits fault.splits)
  from decoder.inv_steps [OF _ decode_loop_steps [OF s(1)]] assms(2) have "dstate_inv s"
    by (auto simp: decode_starts_def)
  with s(2) show ?thesis by (simp add: dstate_inv_def)
qed

end
