(* ===== verification/Torrent_File.thy ===== *)
theory Torrent_File
  imports Bencode_Correct Common
begin

text \<open>
  \<^verbatim>\<open>SingleFileTorrent\<close> and \<^verbatim>\<open>TrackerResponse\<close> (\<^verbatim>\<open>include/torrent.hpp\<close>,
  \<^verbatim>\<open>src/torrent.cpp\<close>): the constructors decode a bencoded string and pick their fields
  out of it; every exception leaves the constructor and ends the program.
\<close>

section \<open>Picking fields\<close>

datatype torrent_exn =
    DecodeError decode_error
  | BadVariantAccess
  | OutOfRange

type_synonym 'a result = "torrent_exn fault + 'a"

fun get_integer :: "data \<Rightarrow> int result" where
  "get_integer (BInt n) = Inr n"
| "get_integer _ = Inl (Throw BadVariantAccess)"

fun get_string :: "data \<Rightarrow> bytes result" where
  "get_string (BStr s) = Inr s"
| "get_string _ = Inl (Throw BadVariantAccess)"

fun get_dict :: "data \<Rightarrow> (bytes, data) std_map result" where
  "get_dict (BDict m) = Inr m"
| "get_dict _ = Inl (Throw BadVariantAccess)"

definition dict_at :: "string \<Rightarrow> (bytes, data) std_map \<Rightarrow> data result" where
  "dict_at k m = (case map_of m (str k) of None \<Rightarrow> Inl (Throw OutOfRange) | Some d \<Rightarrow> Inr d)"

definition decode_dict :: "bytes \<Rightarrow> (bytes, data) std_map result" where
  "decode_dict bs =
     (case decode_view bs of
        Inl (Throw e) \<Rightarrow> Inl (Throw (DecodeError e))
      | Inl Undefined \<Rightarrow> Inl Undefined
      | Inr d \<Rightarrow> get_dict d)"

section \<open>The torrent\<close>

record torrent =
  announce :: bytes
  filename :: bytes
  piece_length :: u32
  file_length :: u32
  piece_hashes :: "hash list"
  info_hash :: hash

text \<open>The first \<^verbatim>\<open>udp\<close> of the announce string becomes \<^verbatim>\<open>http\<close>.\<close>

definition http_announce :: "bytes \<Rightarrow> bytes" where
  "http_announce s =
     (case find_sub (str ''udp'') s of
        None \<Rightarrow> s
      | Some i \<Rightarrow> take i s @ str ''http'' @ drop (i + 3) s)"

text \<open>
  One \<^verbatim>\<open>Hash\<close> per twenty bytes; the last one reads on behind the view when its length is
  not a multiple of twenty, and what it finds there is not modelled.
\<close>

function read_hashes :: "bytes \<Rightarrow> hash list result" where
  "read_hashes s =
     (if s = [] then Inr []
      else case Hash_ptr s of
        None \<Rightarrow> Inl Undefined
      | Some h \<Rightarrow> and_then (read_hashes (drop HASH_SIZE s)) (\<lambda>hs. Inr (h # hs)))"
  by pat_completeness auto
termination
  by (relation "measure length") (auto simp: HASH_SIZE_def)

declare read_hashes.simps [simp del]

text \<open>
  The constructor. The division in the argument of \<^verbatim>\<open>reserve\<close> traps when the piece length
  is zero. \<^verbatim>\<open>bencode::encode(info)\<close> writes the info dict out again for its hash.
\<close>

definition SingleFileTorrent :: "bytes \<Rightarrow> torrent result" where
  "SingleFileTorrent bs =
     and_then (decode_dict bs) (\<lambda>dict.
     and_then (dict_at ''announce'' dict) (\<lambda>d.
     and_then (get_string d) (\<lambda>ann.
     and_then (dict_at ''info'' dict) (\<lambda>d.
     and_then (get_dict d) (\<lambda>info.
     and_then (dict_at ''piece length'' info) (\<lambda>d.
     and_then (get_integer d) (\<lambda>pl.
     and_then (dict_at ''length'' info) (\<lambda>d.
     and_then (get_integer d) (\<lambda>fl.
     and_then (dict_at ''name'' info) (\<lambda>d.
     and_then (get_string d) (\<lambda>nm.
     if (word_of_int pl :: u32) = 0 then Inl Undefined
     else
     and_then (dict_at ''pieces'' info) (\<lambda>d.
     and_then (get_string d) (\<lambda>ps.
     and_then (read_hashes ps) (\<lambda>hs.
     case Hash_of (encode (BDict info)) of
       None \<Rightarrow> Inl Undefined
     | Some ih \<Rightarrow>
         Inr \<lparr>announce = http_announce ann, filename = nm, piece_length = word_of_int pl,
           file_length = word_of_int fl, piece_hashes = hs, info_hash = ih\<rparr>))))))))))))))"

definition from_file :: "bytes option \<Rightarrow> torrent result" where
  "from_file f = SingleFileTorrent (read_file f)"

definition pieces :: "torrent \<Rightarrow> u32" where
  "pieces t = file_length t div piece_length t"

definition piece_hash :: "torrent \<Rightarrow> u32 \<Rightarrow> hash option" where
  "piece_hash t i =
     (if unat i < length (piece_hashes t) then Some (piece_hashes t ! unat i) else None)"

section \<open>The tracker's answer\<close>

record tracker_response =
  interval :: u32
  peers :: "address list"

function read_peers :: "bytes \<Rightarrow> address list result" where
  "read_peers s =
     (if s = [] then Inr []
      else case Address s of
        None \<Rightarrow> Inl Undefined
      | Some a \<Rightarrow> and_then (read_peers (drop 6 s)) (\<lambda>as. Inr (a # as)))"
  by pat_completeness auto
termination
  by (relation "measure length") auto

declare read_peers.simps [simp del]

definition TrackerResponse :: "bytes \<Rightarrow> tracker_response result" where
  "TrackerResponse bs =
     and_then (decode_dict bs) (\<lambda>dict.
     and_then (dict_at ''interval'' dict) (\<lambda>d.
     and_then (get_integer d) (\<lambda>iv.
     and_then (dict_at ''peers'' dict) (\<lambda>d.
     and_then (get_string d) (\<lambda>ps.
     and_then (read_peers ps) (\<lambda>as.
     Inr \<lparr>interval = word_of_int iv, peers = as\<rparr>))))))"

section \<open>Lemmas\<close>

lemma decode_dict_encode: "wf_data (BDict m) \<Longrightarrow> decode_dict (encode (BDict m)) = Inr m"
  unfolding decode_dict_def decode_view_def
  using basic_decode_encode [of "BDict m" ForwardIter "[]"] by (simp only: append_Nil2) simp

lemma read_hashes_chunks:
  "HASH_SIZE dvd length s \<Longrightarrow> read_hashes s = Inr (chunks HASH_SIZE s)"
proof (induction s rule: read_hashes.induct)
  case (1 s)
  show ?case
  proof (cases "s = []")
    case False
    with "1.prems" have "20 \<le> length s" by (auto dest: dvd_imp_le simp: HASH_SIZE_def)
    moreover have "20 dvd length s - 20"
      using "1.prems" calculation by (simp add: dvd_diff_nat HASH_SIZE_def)
    ultimately have "read_hashes (drop HASH_SIZE s) = Inr (chunks HASH_SIZE (drop HASH_SIZE s))"
      using "1.IH" False by (simp add: Hash_ptr_def HASH_SIZE_def)
    with False \<open>20 \<le> length s\<close> show ?thesis
      by (subst read_hashes.simps, subst chunks.simps) (simp add: Hash_ptr_def HASH_SIZE_def)
  qed (simp add: read_hashes.simps)
qed

lemma read_hashes_digests:
  assumes "map Hash_of ds = map Some hs"
  shows "read_hashes (concat hs) = Inr hs"
proof -
  have "length h = HASH_SIZE" if "h \<in> set hs" for h
  proof -
    from that have "Some h \<in> set (map Hash_of ds)" by (simp add: assms)
    then show ?thesis using hash.H_length by auto
  qed
  then have "length (concat hs) = HASH_SIZE * length hs"
    by (induction hs) auto
  then show ?thesis
    using read_hashes_chunks [of "concat hs"] hash.chunks_digests [OF assms] by simp
qed

text \<open>The compact form of a peer list: four bytes of address, two of port, network order.\<close>

definition compact_peer :: "address \<Rightarrow> bytes" where
  "compact_peer a = be32 (raw a) @ [ucast (drop_bit 8 (port a)), ucast (port a)]"

lemma Address_compact: "Address (compact_peer a @ r) = Some a"
proof -
  have "ntohs (load16 [ucast (drop_bit 8 (port a)), ucast (port a)]) = port a"
    unfolding ntohs_def load16_def
    by (rule bit_word_eqI) (auto simp: bit_simps byte_bit_beyond)
  moreover have "load32 (compact_peer a @ r) = load32 (be32 (raw a))"
    by (simp add: compact_peer_def be32_def)
  moreover have "drop 4 (compact_peer a @ r) = ucast (drop_bit 8 (port a)) # ucast (port a) # r"
    by (simp add: compact_peer_def)
  ultimately show ?thesis
    by (simp add: Address_def load16_def) (simp add: compact_peer_def)
qed

lemma read_peers_compact: "read_peers (concat (map compact_peer as)) = Inr as"
proof (induction as)
  case (Cons a as)
  have "length (compact_peer a) = 6" by (simp add: compact_peer_def)
  then have "compact_peer a \<noteq> []" by auto
  with Cons \<open>length (compact_peer a) = 6\<close> show ?case
    by (subst read_peers.simps) (simp add: Address_compact)
qed (simp add: read_peers.simps)

definition dec_address :: "bytes \<Rightarrow> (address \<times> bytes) option" where
  "dec_address bs = map_option (\<lambda>a. (a, drop 6 bs)) (Address bs)"

interpretation peer_codec: prefix_codec compact_peer dec_address "\<lambda>_. True"
proof unfold_locales
  fix a r
  have "length (compact_peer a) = 6" by (simp add: compact_peer_def)
  then show "dec_address (compact_peer a @ r) = Some (a, r)"
    by (simp add: dec_address_def Address_compact)
qed

text \<open>A torrent file as a whole.\<close>

lemma SingleFileTorrent_encode:
  assumes "wf_data (BDict m)" and "map_of m (str ''announce'') = Some (BStr ann)"
    and "map_of m (str ''info'') = Some (BDict info)"
    and "map_of info (str ''piece length'') = Some (BInt pl)" and "map_of info (str ''length'') = Some (BInt fl)"
    and "map_of info (str ''name'') = Some (BStr nm)" and "map_of info (str ''pieces'') = Some (BStr (concat hs))"
    and "map Hash_of ds = map Some hs" and "(word_of_int pl :: u32) \<noteq> 0"
  shows "SingleFileTorrent (encode (BDict m)) =
    Inr \<lparr>announce = http_announce ann, filename = nm, piece_length = word_of_int pl,
      file_length = word_of_int fl, piece_hashes = hs, info_hash = sha1_bytes (encode (BDict info))\<rparr>"
proof -
  have dict: "decode_dict (encode (BDict m)) = Inr m" by (rule decode_dict_encode [OF assms(1)])
  have "dict_at ''announce'' m = Inr (BStr ann)" "dict_at ''info'' m = Inr (BDict info)"
    "dict_at ''piece length'' info = Inr (BInt pl)" "dict_at ''length'' info = Inr (BInt fl)"
    "dict_at ''name'' info = Inr (BStr nm)" "dict_at ''pieces'' info = Inr (BStr (concat hs))"
    unfolding dict_at_def assms(2-7) by simp_all
  then show ?thesis
    unfolding SingleFileTorrent_def dict by (simp add: assms(9) read_hashes_digests [OF assms(8)])
qed

lemma TrackerResponse_encode:
  assumes "wf_data (BDict m)" and "map_of m (str ''interval'') = Some (BInt iv)"
    and "map_of m (str ''peers'') = Some (BStr (concat (map compact_peer as)))"
  shows "TrackerResponse (encode (BDict m)) = Inr \<lparr>interval = word_of_int iv, peers = as\<rparr>"
proof -
  have dict: "decode_dict (encode (BDict m)) = Inr m" by (rule decode_dict_encode [OF assms(1)])
  have "dict_at ''interval'' m = Inr (BInt iv)"
    "dict_at ''peers'' m = Inr (BStr (concat (map compact_peer as)))"
    unfolding dict_at_def assms(2,3) by simp_all
  then show ?thesis
    unfolding TrackerResponse_def dict by (simp add: read_peers_compact)
qed

end
