(* ===== verification/Peer.thy ===== *)
theory Peer
  imports Message Torrent_File
begin

text \<open>
  \<^verbatim>\<open>include/peer.hpp\<close> and the class \<^verbatim>\<open>Peer\<close> of \<^verbatim>\<open>src/peer.cpp\<close>: one connection to a peer.
  Every member function that runs as the completion handler of an asynchronous operation is
  a function of the peer's state that returns the new state and the actions it performs, in
  program order: the asynchronous operations it starts and what it pushes to and pops from
  the two queues. \<open>None\<close> stands for undefined behaviour (an empty \<^verbatim>\<open>optional\<close> is
  dereferenced, an array is overrun, a hash is read behind the end of the vector) or a
  failed assertion.

  The socket, the timers and the lock-free queues are Boost's. What they deliver is an
  argument: the error code and the bytes of a completed operation, the answer of \<^verbatim>\<open>pop\<close>.
\<close>

section \<open>State\<close>

record ctx =
  ctx_handshake :: bytes
  ctx_tor :: torrent

record peer =
  peer_addr :: address
  recv_buffer :: bytes
  peer_id :: bytes
  choked :: bool
  available_pieces :: bitfield
  cur_piece :: "piece option"
  pending :: "(u32 \<times> addr) list"
  closed :: bool
  heap :: store

datatype peer_result =
    ResultPieceComplete complete_piece
  | ResultPeerConnected address
  | ResultPeerDropped address

text \<open>
  Actions. A read or write names the handler by its constructor; the handlers of a request
  and of a timer hold the block they were started for.
\<close>

datatype action =
    AsyncConnect
  | WriteHandshake bytes
  | ReadHandshake nat
  | ReadLength
  | ReadBody nat
  | WriteMessage bytes
  | WriteRequest bytes addr
  | StartTimer addr
  | PopWork "u32 option"
  | PushWork u32
  | PushResult peer_result
  | CloseSocket

text \<open>The contents of the locals and of the fresh array that the code does not initialize.\<close>

record uninit =
  u_byte :: byte
  u_hash :: bytes
  u_word1 :: u32
  u_word2 :: u32
  u_array :: bytes

definition PIPELINE_LIMIT :: nat where
  "PIPELINE_LIMIT = 5"

definition resize :: "nat \<Rightarrow> bytes \<Rightarrow> bytes" where
  "resize n v = take n v @ replicate (n - length v) 0"

definition Peer :: "address \<Rightarrow> peer \<times> action list" where
  "Peer a = (\<lparr>peer_addr = a, recv_buffer = [], peer_id = [], choked = True, available_pieces = [],
     cur_piece = None, pending = [], closed = False, heap = []\<rparr>, [AsyncConnect])"

section \<open>Blocks, pieces and closing\<close>

text \<open>\<^verbatim>\<open>blocks_\<close> is an unordered map: an association list with distinct keys.\<close>

definition emplace_block :: "u32 \<Rightarrow> addr \<Rightarrow> (u32 \<times> addr) list \<Rightarrow> (u32 \<times> addr) list" where
  "emplace_block k a bs = (if map_of bs k = None then bs @ [(k, a)] else bs)"

definition release_block :: "u32 \<Rightarrow> peer \<Rightarrow> peer" where
  "release_block i p =
     (case map_of (pending p) i of
        None \<Rightarrow> p
      | Some a \<Rightarrow> p\<lparr>heap := (heap p)[a := block_release (heap p ! a)],
                     pending := filter (\<lambda>(k, _). k \<noteq> i) (pending p)\<rparr>)"

definition release_piece :: "peer \<Rightarrow> peer \<times> action list" where
  "release_piece p =
     (case cur_piece p of
        None \<Rightarrow> (p, [])
      | Some q \<Rightarrow> (p\<lparr>cur_piece := None\<rparr>, [PushWork (index q)]))"

definition close :: "peer \<Rightarrow> peer \<times> action list" where
  "close p =
     (let (p, acts) = release_piece (p\<lparr>closed := True\<rparr>)
      in (p, acts @ [CloseSocket, PushResult (ResultPeerDropped (peer_addr p))]))"

section \<open>The handshake\<close>

definition async_handshake_write :: "ctx \<Rightarrow> bool \<Rightarrow> peer \<Rightarrow> peer \<times> action list" where
  "async_handshake_write c ec p =
     (if ec then close p else (p, [WriteHandshake (ctx_handshake c)]))"

definition async_handshake_read :: "ctx \<Rightarrow> bool \<Rightarrow> peer \<Rightarrow> peer \<times> action list" where
  "async_handshake_read c ec p =
     (if ec then close p
      else
        (let n = length (ctx_handshake c)
         in (p\<lparr>recv_buffer := resize n (recv_buffer p)\<rparr>, [ReadHandshake n])))"

definition async_read_message :: "peer \<Rightarrow> peer \<times> action list" where
  "async_read_message p = (p\<lparr>recv_buffer := resize 4 (recv_buffer p)\<rparr>, [ReadLength])"

definition async_next :: "uninit \<Rightarrow> bool \<Rightarrow> peer \<Rightarrow> (peer \<times> action list) option" where
  "async_next u ec p =
     (if ec then Some (close p)
      else
        (case (Handshake_parse (u_byte u) (u_hash u) (recv_buffer p), serialize interested) of
           (Some h, Some msg) \<Rightarrow>
             (let p = p\<lparr>peer_id := hs_peer_id h\<rparr>;
                  (p, acts) = async_read_message p
              in Some (p, [PushResult (ResultPeerConnected (peer_addr p)), WriteMessage msg] @ acts))
         | _ \<Rightarrow> None))"

section \<open>Messages\<close>

definition async_read_len :: "bool \<Rightarrow> peer \<Rightarrow> peer \<times> action list" where
  "async_read_len ec p =
     (if ec then close p
      else
        (let n = ntohl (load32 (recv_buffer p))
         in if n = 0 then async_read_message p
            else (p\<lparr>recv_buffer := resize (unat n) (recv_buffer p)\<rparr>, [ReadBody (unat n)])))"

definition handle_piece ::
    "ctx \<Rightarrow> uninit \<Rightarrow> message \<Rightarrow> peer \<Rightarrow> (peer \<times> action list) option" where
  "handle_piece c u msg p =
     (case cur_piece p of
        None \<Rightarrow> Some (p, [])
      | Some q \<Rightarrow>
          (let ((result, i), st) = accept (u_word1 u) (u_word2 u) (payload msg) q (heap p);
               p = release_block i (p\<lparr>heap := st\<rparr>)
           in if result \<noteq> Ok then Some (p, [])
              else if is_complete q (heap p) then
                (case finalize (u_array u) q (heap p) of
                   None \<Rightarrow> None
                 | Some (final_piece, q) \<Rightarrow>
                     (let p = p\<lparr>cur_piece := Some q, pending := []\<rparr>
                      in case (cp_hash final_piece, piece_hash (ctx_tor c) (index q)) of
                           (Some hash, Some expected) \<Rightarrow>
                             if hash = expected
                             then Some (p\<lparr>cur_piece := None\<rparr>, [PushResult (ResultPieceComplete final_piece)])
                             else Some (close p)
                         | _ \<Rightarrow> None))
              else Some (p, [])))"

text \<open>
  The pipeline: \<open>download_step\<close> is one pass through the loop of \<^verbatim>\<open>async_download\<close>, which
  returns (\<open>Inl\<close>) or goes round again (\<open>Inr\<close>). \<open>acquire\<close> is its part that makes sure that
  there is a piece; \<open>pop\<close> is the answer of the queue. The loop pops at most one index, because
  it returns when it gives a piece back. \<open>None\<close> is also the value of a loop that does not end.
\<close>

definition acquire ::
    "ctx \<Rightarrow> u32 option \<Rightarrow> peer \<Rightarrow> (peer \<times> action list) + (piece \<times> peer \<times> action list)" where
  "acquire c pop p =
     (case cur_piece p of
        Some q \<Rightarrow> Inr (q, p, [])
      | None \<Rightarrow>
          (case pop of
             None \<Rightarrow> Inl (p, [PopWork None])
           | Some i \<Rightarrow>
               (let q = Piece i (piece_length (ctx_tor c));
                    p = p\<lparr>cur_piece := Some q\<rparr>
                in if \<not> bitfield_get (available_pieces p) (unat i)
                   then (let (p, acts) = release_piece p in Inl (p, PopWork (Some i) # acts))
                   else Inr (q, p, [PopWork (Some i)]))))"

definition download_step ::
    "ctx \<Rightarrow> u32 option \<Rightarrow> peer \<Rightarrow> ((peer \<times> action list) + (peer \<times> action list)) option" where
  "download_step c pop p =
     (if length (pending p) \<ge> PIPELINE_LIMIT then Some (Inl (p, []))
      else if choked p \<or> length (available_pieces p) = 0 then Some (Inl (p, []))
      else
        (case acquire c pop p of
           Inl r \<Rightarrow> Some (Inl r)
         | Inr (q, p, acts) \<Rightarrow>
             if is_complete q (heap p) then Some (Inl (p, acts))
             else
               (case next_block q (heap p) of
                  (None, q, st) \<Rightarrow> Some (Inl (p\<lparr>cur_piece := Some q, heap := st\<rparr>, acts))
                | (Some a, q, st) \<Rightarrow>
                    (let p = p\<lparr>cur_piece := Some q, heap := st,
                                pending := emplace_block (block_index (st ! a)) a (pending p)\<rparr>
                     in map_option (\<lambda>msg. Inr (p, acts @ [StartTimer a, WriteRequest msg a]))
                          (serialize (request q (st ! a)))))))"

partial_function (option) async_download ::
    "ctx \<Rightarrow> u32 option \<Rightarrow> peer \<Rightarrow> action list \<Rightarrow> (peer \<times> action list) option" where
  "async_download c pop p acts =
     (case download_step c pop p of
        None \<Rightarrow> None
      | Some (Inl (p, acts2)) \<Rightarrow> Some (p, acts @ acts2)
      | Some (Inr (p, acts2)) \<Rightarrow> async_download c pop p (acts @ acts2))"

definition async_handle_message ::
    "ctx \<Rightarrow> uninit \<Rightarrow> u32 option \<Rightarrow> peer \<Rightarrow> (peer \<times> action list) option" where
  "async_handle_message c u pop p =
     (case Message (recv_buffer p) of
        None \<Rightarrow> None
      | Some msg \<Rightarrow>
          (case mtype msg of
             None \<Rightarrow> Some (p, [])
           | Some t \<Rightarrow>
               (case (case t of
                        Choke \<Rightarrow> Some (p\<lparr>choked := True\<rparr>, [])
                      | Unchoke \<Rightarrow> Some (p\<lparr>choked := False\<rparr>, [])
                      | Bitfield \<Rightarrow> Some (p\<lparr>available_pieces := bitfield_copy_from (payload msg)\<rparr>, [])
                      | PieceMsg \<Rightarrow> handle_piece c u msg p
                      | _ \<Rightarrow> Some (p, [])) of
                  None \<Rightarrow> None
                | Some (p, acts) \<Rightarrow>
                    (case async_download c pop p acts of
                       None \<Rightarrow> None
                     | Some (p, acts) \<Rightarrow>
                         (let (p, acts2) = async_read_message p in Some (p, acts @ acts2))))))"

section \<open>The handlers written as lambdas\<close>

definition body_read ::
    "ctx \<Rightarrow> uninit \<Rightarrow> u32 option \<Rightarrow> bool \<Rightarrow> peer \<Rightarrow> (peer \<times> action list) option" where
  "body_read c u pop ec p = (if ec then Some (release_piece p) else async_handle_message c u pop p)"

definition timer_fired :: "bool \<Rightarrow> addr \<Rightarrow> peer \<Rightarrow> peer \<times> action list" where
  "timer_fired ec a p =
     (if ec then (p, [])
      else if \<not> filled (heap p ! a) then close (p\<lparr>closed := True\<rparr>)
      else (p, []))"

text \<open>The log line of a failed request reads \<^verbatim>\<open>piece_->index()\<close>.\<close>

definition request_written :: "bool \<Rightarrow> addr \<Rightarrow> peer \<Rightarrow> (peer \<times> action list) option" where
  "request_written ec a p =
     (if ec then
        (if cur_piece p = None then None
         else Some (release_block (block_index (heap p ! a)) p, []))
      else Some (p, []))"

section \<open>Events\<close>

text \<open>
  The completion of an asynchronous operation: its error flag and, for a read, the bytes it
  put into the buffer. \<open>completes\<close> says which completions an operation can have: a read
  without error has filled the whole buffer.
\<close>

datatype event =
    Connected bool
  | HandshakeWritten bool
  | HandshakeRead bool bytes
  | LengthRead bool bytes
  | BodyRead bool bytes
  | MessageWritten bool
  | RequestWritten bool addr
  | TimerFired bool addr

definition fills :: "nat \<Rightarrow> bool \<Rightarrow> bytes \<Rightarrow> bool" where
  "fills n ec dat \<longleftrightarrow> (if ec then length dat \<le> n else length dat = n)"

definition completes :: "action \<Rightarrow> event \<Rightarrow> bool" where
  "completes op e =
     (case e of
        Connected ec \<Rightarrow> op = AsyncConnect
      | HandshakeWritten ec \<Rightarrow> (case op of WriteHandshake _ \<Rightarrow> True | _ \<Rightarrow> False)
      | HandshakeRead ec dat \<Rightarrow> (case op of ReadHandshake n \<Rightarrow> fills n ec dat | _ \<Rightarrow> False)
      | LengthRead ec dat \<Rightarrow> op = ReadLength \<and> fills 4 ec dat
      | BodyRead ec dat \<Rightarrow> (case op of ReadBody n \<Rightarrow> fills n ec dat | _ \<Rightarrow> False)
      | MessageWritten ec \<Rightarrow> (case op of WriteMessage _ \<Rightarrow> True | _ \<Rightarrow> False)
      | RequestWritten ec a \<Rightarrow> (case op of WriteRequest _ b \<Rightarrow> a = b | _ \<Rightarrow> False)
      | TimerFired ec a \<Rightarrow> op = StartTimer a)"

definition received :: "bytes \<Rightarrow> peer \<Rightarrow> peer" where
  "received dat p = p\<lparr>recv_buffer := overlay dat (recv_buffer p)\<rparr>"

fun handle :: "ctx \<Rightarrow> uninit \<Rightarrow> u32 option \<Rightarrow> event \<Rightarrow> peer \<Rightarrow> (peer \<times> action list) option" where
  "handle c u pop (Connected ec) p = Some (async_handshake_write c ec p)"
| "handle c u pop (HandshakeWritten ec) p = Some (async_handshake_read c ec p)"
| "handle c u pop (HandshakeRead ec dat) p = async_next u ec (received dat p)"
| "handle c u pop (LengthRead ec dat) p = Some (async_read_len ec (received dat p))"
| "handle c u pop (BodyRead ec dat) p = body_read c u pop ec (received dat p)"
| "handle c u pop (MessageWritten ec) p = Some (p, [])"
| "handle c u pop (RequestWritten ec a) p = request_written ec a p"
| "handle c u pop (TimerFired ec a) p = Some (timer_fired ec a p)"

end
