(* ===== verification/Peer_Correct.thy ===== *)
theory Peer_Correct
  imports Peer "HOL-Library.Multiset"
begin

text \<open>
  What every completion handler of a peer guarantees (\<open>guar\<close>): the invariant of the peer
  is kept, piece indices are neither lost nor duplicated, only pieces whose hash is the one
  the torrent names are reported as complete, blocks never move and stay filled. The
  guarantee is closed under composition (\<open>composable\<close>), so a handler is verified from the
  functions it calls. The pipeline loop ends, and it only stops when it cannot start a block.
\<close>

section \<open>Composing guarantees\<close>

locale composable =
  fixes ok :: "'s \<Rightarrow> 's \<Rightarrow> 'a list \<Rightarrow> bool"
  assumes ok_refl: "ok s s []"
    and ok_trans: "ok s t as \<Longrightarrow> ok t u bs \<Longrightarrow> ok s u (as @ bs)"
begin

text \<open>A run is a list of steps, each with the state it leads to and its actions.\<close>

fun run :: "'s \<Rightarrow> ('s \<times> 'a list) list \<Rightarrow> bool" where
  "run s [] = True"
| "run s ((t, as) # r) \<longleftrightarrow> ok s t as \<and> run t r"

lemma run_ok: "run s r \<Longrightarrow> ok s (last (s # map fst r)) (concat (map snd r))"
proof (induction r arbitrary: s)
  case Nil
  show ?case by (simp add: ok_refl)
next
  case (Cons ta r)
  obtain t as where "ta = (t, as)" by fastforce
  with Cons show ?case
    using ok_trans [of s t as "last (t # map fst r)" "concat (map snd r)"] by auto
qed

lemma ok_then: "ok s t as \<Longrightarrow> ok t u [] \<Longrightarrow> ok s u as"
  using ok_trans [of s t as u "[]"] by simp

lemma then_ok: "ok s t [] \<Longrightarrow> ok t u as \<Longrightarrow> ok s u as"
  using ok_trans [of s t "[]" u as] by simp

end

section \<open>What is kept\<close>

definition held :: "peer \<Rightarrow> u32 multiset" where
  "held p = (case cur_piece p of None \<Rightarrow> {#} | Some q \<Rightarrow> {#index q#})"

fun popped_by :: "action \<Rightarrow> u32 list" where
  "popped_by (PopWork (Some i)) = [i]"
| "popped_by _ = []"

fun pushed_by :: "action \<Rightarrow> u32 list" where
  "pushed_by (PushWork i) = [i]"
| "pushed_by _ = []"

fun result_of :: "action \<Rightarrow> peer_result list" where
  "result_of (PushResult r) = [r]"
| "result_of _ = []"

fun completed_of :: "peer_result \<Rightarrow> complete_piece list" where
  "completed_of (ResultPieceComplete cp) = [cp]"
| "completed_of _ = []"

fun reads_of :: "action \<Rightarrow> nat list" where
  "reads_of (ReadHandshake n) = [n]"
| "reads_of (ReadBody n) = [n]"
| "reads_of _ = []"

fun target_of :: "action \<Rightarrow> addr list" where
  "target_of (WriteRequest _ a) = [a]"
| "target_of (StartTimer a) = [a]"
| "target_of _ = []"

definition popped :: "action list \<Rightarrow> u32 list" where
  "popped acts = concat (map popped_by acts)"

definition pushed :: "action list \<Rightarrow> u32 list" where
  "pushed acts = concat (map pushed_by acts)"

definition results :: "action list \<Rightarrow> peer_result list" where
  "results acts = concat (map result_of acts)"

definition completed :: "peer_result list \<Rightarrow> complete_piece list" where
  "completed rs = concat (map completed_of rs)"

definition targets :: "action list \<Rightarrow> addr list" where
  "targets acts = concat (map target_of acts)"

definition reads :: "action list \<Rightarrow> nat list" where
  "reads acts = concat (map reads_of acts)"

lemma action_lists [simp]:
  "popped [] = []" "popped (x # xs) = popped_by x @ popped xs"
  "popped (acts @ acts') = popped acts @ popped acts'"
  "pushed [] = []" "pushed (x # xs) = pushed_by x @ pushed xs"
  "pushed (acts @ acts') = pushed acts @ pushed acts'"
  "results [] = []" "results (x # xs) = result_of x @ results xs"
  "results (acts @ acts') = results acts @ results acts'"
  "completed [] = []" "completed (r # rs) = completed_of r @ completed rs"
  "completed (rs @ rs') = completed rs @ completed rs'"
  "reads [] = []" "reads (x # xs) = reads_of x @ reads xs"
  "reads (acts @ acts') = reads acts @ reads acts'"
  "targets [] = []" "targets (x # xs) = target_of x @ targets xs"
  "targets (acts @ acts') = targets acts @ targets acts'"
  by (simp_all add: popped_def pushed_def results_def completed_def reads_def targets_def)

text \<open>A complete piece has the size and the hash that the torrent gives for its index.\<close>

definition good_piece :: "torrent \<Rightarrow> complete_piece \<Rightarrow> bool" where
  "good_piece t cp \<longleftrightarrow>
     cp_size cp = piece_length t \<and> length (cp_data cp) = unat (piece_length t) \<and>
     piece_hash t (cp_index cp) = Some (sha1_bytes (cp_data cp))"

definition peer_inv :: "torrent \<Rightarrow> peer \<Rightarrow> bool" where
  "peer_inv t p \<longleftrightarrow>
     (\<forall>q. cur_piece p = Some q \<longrightarrow> piece_inv q (heap p) \<and> piece_size q = piece_length t) \<and>
     distinct (map fst (pending p)) \<and> length (pending p) \<le> PIPELINE_LIMIT \<and>
     (\<forall>(k, a) \<in> set (pending p). a < length (heap p) \<and> block_index (heap p ! a) = k)"

text \<open>Objects stay where they are, keep their offset, and a filled block stays filled.\<close>

definition heap_grows :: "store \<Rightarrow> store \<Rightarrow> bool" where
  "heap_grows st st' \<longleftrightarrow>
     length st \<le> length st' \<and>
     (\<forall>a < length st. block.offset (st' ! a) = block.offset (st ! a) \<and> (filled (st ! a) \<longrightarrow> filled (st' ! a)))"

definition conserved :: "peer \<Rightarrow> peer \<Rightarrow> action list \<Rightarrow> bool" where
  "conserved p p' acts \<longleftrightarrow>
     held p' + mset (pushed acts) + mset (map cp_index (completed (results acts))) =
     held p + mset (popped acts)"

text \<open>The receive buffer never outgrows the lengths a message can have.\<close>

definition buffer_ok :: "peer \<Rightarrow> bool" where
  "buffer_ok p \<longleftrightarrow> length (recv_buffer p) < 2 ^ 32"

definition guar :: "torrent \<Rightarrow> peer \<Rightarrow> peer \<Rightarrow> action list \<Rightarrow> bool" where
  "guar t p p' acts \<longleftrightarrow>
     (peer_inv t p \<longrightarrow>
        peer_inv t p' \<and> peer_addr p' = peer_addr p \<and> conserved p p' acts \<and>
        (\<forall>cp \<in> set (completed (results acts)). good_piece t cp) \<and>
        heap_grows (heap p) (heap p') \<and> (\<forall>a \<in> set (targets acts). a < length (heap p'))) \<and>
     (buffer_ok p \<longrightarrow> buffer_ok p' \<and> (\<forall>n \<in> set (reads acts). n < 2 ^ 32))"

lemma guarI:
  assumes "peer_inv t p \<Longrightarrow>
        peer_inv t p' \<and> peer_addr p' = peer_addr p \<and> conserved p p' acts \<and>
        (\<forall>cp \<in> set (completed (results acts)). good_piece t cp) \<and>
        heap_grows (heap p) (heap p') \<and> (\<forall>a \<in> set (targets acts). a < length (heap p'))"
    and "buffer_ok p \<Longrightarrow> buffer_ok p' \<and> (\<forall>n \<in> set (reads acts). n < 2 ^ 32)"
  shows "guar t p p' acts"
  using assms by (simp add: guar_def)

lemma heap_grows_refl [simp]: "heap_grows st st"
  by (simp add: heap_grows_def)

lemma heap_grows_trans: "heap_grows st st' \<Longrightarrow> heap_grows st' st'' \<Longrightarrow> heap_grows st st''"
  by (force simp: heap_grows_def)

lemma conserved_trans:
  "conserved p p' acts \<Longrightarrow> conserved p' p'' acts' \<Longrightarrow> conserved p p'' (acts @ acts')"
proof -
  assume a: "conserved p p' acts" and b: "conserved p' p'' acts'"
  have "held p' + (mset (pushed acts) + mset (map cp_index (completed (results acts)))) =
      held p + mset (popped acts)"
    using a by (simp add: conserved_def add.assoc)
  moreover have "held p'' + (mset (pushed acts') + mset (map cp_index (completed (results acts')))) =
      held p' + mset (popped acts')"
    using b by (simp add: conserved_def add.assoc)
  ultimately have "held p'' + (mset (pushed acts') + mset (map cp_index (completed (results acts')))) +
      (mset (pushed acts) + mset (map cp_index (completed (results acts)))) =
      held p + mset (popped acts) + mset (popped acts')"
    by (simp add: ac_simps)
  then show ?thesis
    by (simp add: conserved_def ac_simps)
qed

interpretation guar: composable "guar t"
proof
  show "guar t p p []" for p
    by (simp add: guar_def conserved_def)
next
  fix p p' p'' acts acts'
  assume a: "guar t p p' acts" and b: "guar t p' p'' acts'"
  have buffers: "buffer_ok p \<longrightarrow> buffer_ok p'' \<and> (\<forall>n \<in> set (reads (acts @ acts')). n < 2 ^ 32)"
    using a b by (auto simp: guar_def)
  show "guar t p p'' (acts @ acts')"
  proof (cases "peer_inv t p")
    case True
    with a have a': "peer_inv t p'" "peer_addr p' = peer_addr p" "conserved p p' acts"
      "\<forall>cp \<in> set (completed (results acts)). good_piece t cp" "heap_grows (heap p) (heap p')"
      "\<forall>a \<in> set (targets acts). a < length (heap p')" by (simp_all add: guar_def)
    with b have b': "peer_inv t p''" "peer_addr p'' = peer_addr p'" "conserved p' p'' acts'"
      "\<forall>cp \<in> set (completed (results acts')). good_piece t cp" "heap_grows (heap p') (heap p'')"
      "\<forall>a \<in> set (targets acts'). a < length (heap p'')" by (simp_all add: guar_def)
    have "conserved p p'' (acts @ acts')"
      using a'(3) b'(3) by (rule conserved_trans)
    moreover have "\<forall>cp \<in> set (completed (results (acts @ acts'))). good_piece t cp"
      using a'(4) b'(4) by auto
    moreover have "\<forall>a \<in> set (targets (acts @ acts')). a < length (heap p'')"
      using a'(6) b'(5,6) by (auto simp: heap_grows_def intro: less_le_trans)
    ultimately show ?thesis
      using b'(1,2) a'(2) heap_grows_trans [OF a'(5) b'(5)] buffers by (simp add: guar_def)
  qed (use buffers in \<open>simp add: guar_def\<close>)
qed

section \<open>The small operations\<close>

text \<open>Changes to fields that the guarantee does not speak of.\<close>

lemma peer_inv_irrelevant [simp]:
  "peer_inv t (p\<lparr>recv_buffer := b\<rparr>) = peer_inv t p"
  "peer_inv t (p\<lparr>peer_id := i\<rparr>) = peer_inv t p"
  "peer_inv t (p\<lparr>choked := ch\<rparr>) = peer_inv t p"
  "peer_inv t (p\<lparr>available_pieces := av\<rparr>) = peer_inv t p"
  "peer_inv t (p\<lparr>closed := cl\<rparr>) = peer_inv t p"
  by (simp_all add: peer_inv_def)

lemma held_simps [simp]:
  "held (p\<lparr>recv_buffer := b\<rparr>) = held p" "held (p\<lparr>peer_id := i\<rparr>) = held p"
  "held (p\<lparr>choked := ch\<rparr>) = held p" "held (p\<lparr>available_pieces := av\<rparr>) = held p"
  "held (p\<lparr>closed := cl\<rparr>) = held p" "held (p\<lparr>heap := st\<rparr>) = held p"
  "held (p\<lparr>pending := pe\<rparr>) = held p"
  "held (p\<lparr>cur_piece := None\<rparr>) = {#}" "held (p\<lparr>cur_piece := Some q\<rparr>) = {#index q#}"
  by (simp_all add: held_def)

lemma buffer_ok_simps [simp]:
  "buffer_ok (p\<lparr>peer_id := i\<rparr>) = buffer_ok p" "buffer_ok (p\<lparr>choked := ch\<rparr>) = buffer_ok p"
  "buffer_ok (p\<lparr>available_pieces := av\<rparr>) = buffer_ok p" "buffer_ok (p\<lparr>closed := cl\<rparr>) = buffer_ok p"
  "buffer_ok (p\<lparr>heap := st\<rparr>) = buffer_ok p" "buffer_ok (p\<lparr>pending := pe\<rparr>) = buffer_ok p"
  "buffer_ok (p\<lparr>cur_piece := q\<rparr>) = buffer_ok p"
  "buffer_ok (p\<lparr>recv_buffer := b\<rparr>) \<longleftrightarrow> length b < 2 ^ 32"
  by (simp_all add: buffer_ok_def)

lemma guar_fields:
  "length b < 2 ^ 32 \<Longrightarrow> guar t p (p\<lparr>recv_buffer := b\<rparr>) []" "guar t p (p\<lparr>peer_id := i\<rparr>) []"
  "guar t p (p\<lparr>choked := ch\<rparr>) []" "guar t p (p\<lparr>available_pieces := av\<rparr>) []"
  "guar t p (p\<lparr>closed := cl\<rparr>) []"
  by (simp_all add: guar_def conserved_def)

text \<open>Actions that concern neither the queues nor a block.\<close>

definition neutral :: "action list \<Rightarrow> bool" where
  "neutral acts \<longleftrightarrow>
     popped acts = [] \<and> pushed acts = [] \<and> completed (results acts) = [] \<and> targets acts = [] \<and>
     (\<forall>n \<in> set (reads acts). n < 2 ^ 32)"

lemma guar_neutral: "neutral acts \<Longrightarrow> guar t p p' [] \<Longrightarrow> guar t p p' acts"
  by (auto simp: guar_def neutral_def conserved_def)

lemma peer_inv_no_piece: "peer_inv t p \<Longrightarrow> peer_inv t (p\<lparr>cur_piece := None\<rparr>)"
  by (simp add: peer_inv_def)

lemma release_piece_guar: "release_piece p = (p', acts) \<Longrightarrow> guar t p p' acts"
  by (auto simp: release_piece_def guar_def conserved_def peer_inv_no_piece split: option.splits)
    (simp add: held_def)

lemma close_guar:
  assumes "close p = (p', acts)"
  shows "guar t p p' acts"
proof -
  obtain p1 a1 where r: "release_piece (p\<lparr>closed := True\<rparr>) = (p1, a1)" by fastforce
  with assms have eq: "p' = p1" "acts = a1 @ [CloseSocket, PushResult (ResultPeerDropped (peer_addr p1))]"
    by (auto simp: close_def)
  have "guar t p p1 a1"
    by (rule guar.then_ok [OF guar_fields(5) release_piece_guar [OF r]])
  moreover have "guar t p1 p1 [CloseSocket, PushResult (ResultPeerDropped (peer_addr p1))]"
    by (rule guar_neutral) (simp_all add: neutral_def guar.ok_refl)
  ultimately show ?thesis
    unfolding eq by (rule guar.ok_trans)
qed

lemma block_index_release [simp]: "block_index (block_release b) = block_index b"
  by (simp add: block_index_def)

lemma heap_grows_update:
  "block.offset b = block.offset (st ! a) \<Longrightarrow> (filled (st ! a) \<longrightarrow> filled b) \<Longrightarrow> heap_grows st (st[a := b])"
  by (cases "a < length st") (auto simp: heap_grows_def nth_list_update)

text \<open>A change to the blocks that keeps the piece in order keeps the peer in order.\<close>

lemma peer_inv_heap:
  assumes "peer_inv t p" and "heap_grows (heap p) st"
    and "\<And>q. cur_piece p = Some q \<Longrightarrow> piece_inv q (heap p) \<Longrightarrow> piece_inv q st"
  shows "peer_inv t (p\<lparr>heap := st\<rparr>)"
  using assms by (fastforce simp: peer_inv_def heap_grows_def block_index_def)

lemma peer_inv_pending:
  "peer_inv t p \<Longrightarrow> peer_inv t (p\<lparr>pending := filter P (pending p)\<rparr>)"
  by (auto simp: peer_inv_def distinct_map_filter intro: le_trans [OF length_filter_le])

lemma release_block_guar: "guar t p (release_block i p) []"
proof (cases "map_of (pending p) i")
  case (Some a)
  let ?st = "(heap p)[a := block_release (heap p ! a)]"
  have eq: "release_block i p = (p\<lparr>heap := ?st\<rparr>)\<lparr>pending := filter (\<lambda>(k, _). k \<noteq> i) (pending (p\<lparr>heap := ?st\<rparr>))\<rparr>"
    using Some by (simp add: release_block_def)
  have grows: "heap_grows (heap p) ?st" by (rule heap_grows_update) simp_all
  show ?thesis
  proof (cases "peer_inv t p")
    case True
    then have "a < length (heap p)"
      using Some by (auto simp: peer_inv_def dest: map_of_SomeD)
    then have "peer_inv t (p\<lparr>heap := ?st\<rparr>)"
      by (intro peer_inv_heap [OF True grows]) (auto intro: piece_inv_update)
    then have "peer_inv t (release_block i p)"
      unfolding eq by (rule peer_inv_pending)
    with grows show ?thesis
      by (simp add: guar_def conserved_def eq)
  qed (simp add: guar_def eq)
qed (simp add: release_block_def guar.ok_refl)

lemma release_block_piece:
  assumes "piece_inv q (heap p)"
  shows "piece_inv q (heap (release_block i p))" and "abs_piece q (heap (release_block i p)) = abs_piece q (heap p)"
proof -
  have "abs_block ((heap p)[a := block_release (heap p ! a)] ! b) = abs_block (heap p ! b)" for a b
    by (cases "a < length (heap p)") (auto simp: nth_list_update list_update_beyond)
  then show "abs_piece q (heap (release_block i p)) = abs_piece q (heap p)"
    by (auto simp: release_block_def abs_piece_def split: option.split)
  have "piece_inv q ((heap p)[a := block_release (heap p ! a)])" for a
    using assms by (cases "a < length (heap p)") (simp_all add: piece_inv_update list_update_beyond)
  then show "piece_inv q (heap (release_block i p))"
    using assms by (auto simp: release_block_def split: option.split)
qed

section \<open>A block arrives\<close>

text \<open>What the locals without initializer are: objects of their size.\<close>

definition uninit_ok :: "torrent \<Rightarrow> uninit \<Rightarrow> bool" where
  "uninit_ok t u \<longleftrightarrow> length (u_hash u) = HASH_SIZE \<and> length (u_array u) = unat (piece_length t)"

lemma release_block_fields [simp]:
  "cur_piece (release_block i p) = cur_piece p" "peer_addr (release_block i p) = peer_addr p"
  by (simp_all add: release_block_def split: option.split)

lemma accept_guar:
  assumes "cur_piece p = Some q" and "length pl < 2 ^ 32" and "accept j1 j2 pl q (heap p) = (r, st)"
  shows "guar t p (p\<lparr>heap := st\<rparr>) []"
proof (cases "peer_inv t p")
  case True
  with assms(1) have q: "piece_inv q (heap p)" by (simp add: peer_inv_def)
  note acc = accept_inv [OF q assms(2,3)]
  have grows: "heap_grows (heap p) st"
    using acc(2,4) by (simp add: heap_grows_def)
  then have "peer_inv t (p\<lparr>heap := st\<rparr>)"
    using True acc(1) assms(1) by (intro peer_inv_heap) auto
  with grows show ?thesis by (simp add: guar_def conserved_def)
qed (simp add: guar_def)

lemma finalize_Some:
  assumes "finalized q = None" and "finalize junk q st = Some (cp, q')"
    and "length junk = unat (piece_size q)"
  shows "q' = q\<lparr>finalized := Some cp\<rparr>" and "cp_index cp = index q" and "cp_size cp = piece_size q"
    and "length (cp_data cp) = unat (piece_size q)"
  using assms by (auto simp: finalize_def Let_def length_overlay split: if_splits)

text \<open>The two ways a piece ends: it is reported, or the peer is dropped.\<close>

lemma piece_done_guar:
  assumes "cur_piece p = Some q" and "uninit_ok t u" and "finalize (u_array u) q (heap p) = Some (cp, q')"
  shows "cp_hash cp = Some hash \<Longrightarrow> piece_hash t (index q') = Some hash \<Longrightarrow>
      guar t p (p\<lparr>pending := [], cur_piece := None\<rparr>) [PushResult (ResultPieceComplete cp)]"
    and "close (p\<lparr>cur_piece := Some q', pending := []\<rparr>) = (p', acts) \<Longrightarrow> guar t p p' acts"
proof -
  have q: "finalized q = None" "length (u_array u) = unat (piece_size q)" "piece_size q = piece_length t"
    if "peer_inv t p"
    using that assms(1,2) by (simp_all add: peer_inv_def piece_inv_def uninit_ok_def)
  note fin = finalize_Some [OF q(1) assms(3) q(2)]
  have inv: "peer_inv t (p\<lparr>pending := [], cur_piece := None\<rparr>)" "peer_inv t (p\<lparr>pending := [], cur_piece := None, closed := True\<rparr>)"
    if "peer_inv t p" by (simp_all add: peer_inv_def)
  show "guar t p (p\<lparr>pending := [], cur_piece := None\<rparr>) [PushResult (ResultPieceComplete cp)]"
    if "cp_hash cp = Some hash" "piece_hash t (index q') = Some hash"
  proof (rule guarI)
    assume p: "peer_inv t p"
    have "good_piece t cp"
      using that fin [OF p p] q [OF p] by (simp add: good_piece_def cp_hash_def)
    moreover have "held p = {#index q#}" by (simp add: held_def assms(1))
    ultimately show "peer_inv t (p\<lparr>pending := [], cur_piece := None\<rparr>) \<and>
      peer_addr (p\<lparr>pending := [], cur_piece := None\<rparr>) = peer_addr p \<and>
      conserved p (p\<lparr>pending := [], cur_piece := None\<rparr>) [PushResult (ResultPieceComplete cp)] \<and>
      (\<forall>cp \<in> set (completed (results [PushResult (ResultPieceComplete cp)])). good_piece t cp) \<and>
      heap_grows (heap p) (heap (p\<lparr>pending := [], cur_piece := None\<rparr>)) \<and>
      (\<forall>a \<in> set (targets [PushResult (ResultPieceComplete cp)]).
        a < length (heap (p\<lparr>pending := [], cur_piece := None\<rparr>)))"
      using inv(1) [OF p] fin(2) [OF p p] by (simp add: conserved_def)
  qed simp
  show "guar t p p' acts" if "close (p\<lparr>cur_piece := Some q', pending := []\<rparr>) = (p', acts)"
  proof (rule guarI)
    assume p: "peer_inv t p"
    have eq: "p' = p\<lparr>pending := [], cur_piece := None, closed := True\<rparr>"
      "acts = [PushWork (index q), CloseSocket, PushResult (ResultPeerDropped (peer_addr p))]"
      using that fin(1) [OF p p] by (auto simp: close_def release_piece_def)
    have "held p = {#index q#}" by (simp add: held_def assms(1))
    then show "peer_inv t p' \<and> peer_addr p' = peer_addr p \<and> conserved p p' acts \<and>
      (\<forall>cp \<in> set (completed (results acts)). good_piece t cp) \<and>
      heap_grows (heap p) (heap p') \<and> (\<forall>a \<in> set (targets acts). a < length (heap p'))"
      using inv(2) [OF p] by (simp add: eq conserved_def)
  qed (use that in \<open>auto simp: close_def release_piece_def\<close>)
qed

lemma handle_piece_guar:
  assumes "handle_piece c u msg p = Some (p', acts)" and "uninit_ok (ctx_tor c) u"
    and "length (payload msg) < 2 ^ 32"
  shows "guar (ctx_tor c) p p' acts"
proof (cases "cur_piece p")
  case None
  with assms(1) show ?thesis by (simp add: handle_piece_def guar.ok_refl)
next
  case (Some q)
  obtain r i st where acc: "accept (u_word1 u) (u_word2 u) (payload msg) q (heap p) = ((r, i), st)"
    by (metis surj_pair)
  let ?p = "release_block i (p\<lparr>heap := st\<rparr>)"
  have g: "guar (ctx_tor c) p ?p []"
    by (rule guar.ok_then [OF accept_guar [OF Some assms(3) acc] release_block_guar])
  have q: "cur_piece ?p = Some q" by (simp add: Some)
  show ?thesis
  proof (cases "r = Ok \<and> is_complete q (heap ?p)")
    case False
    then have "p' = ?p \<and> acts = []"
      using assms(1) by (auto simp: handle_piece_def Some acc Let_def split: if_splits)
    with g show ?thesis by simp
  next
    case True
    then obtain cp q' hash expected where fin: "finalize (u_array u) q (heap ?p) = Some (cp, q')"
      and h: "cp_hash cp = Some hash" and e: "piece_hash (ctx_tor c) (index q') = Some expected"
      using assms(1) by (auto simp: handle_piece_def Some acc Let_def split: option.splits prod.splits)
    have res: "Some (p', acts) =
        (if hash = expected
         then Some (?p\<lparr>pending := [], cur_piece := None\<rparr>, [PushResult (ResultPieceComplete cp)])
         else Some (close (?p\<lparr>cur_piece := Some q', pending := []\<rparr>)))"
      using assms(1) True by (auto simp: handle_piece_def Some acc Let_def fin h e split: if_splits)
    have "guar (ctx_tor c) ?p p' acts"
    proof (cases "hash = expected")
      case eq: True
      with res piece_done_guar(1) [OF q assms(2) fin h] e show ?thesis by simp
    next
      case False
      with res have "close (?p\<lparr>cur_piece := Some q', pending := []\<rparr>) = (p', acts)" by simp
      then show ?thesis by (rule piece_done_guar(2) [OF q assms(2) fin])
    qed
    with g show ?thesis by (rule guar.then_ok)
  qed
qed

section \<open>The pipeline\<close>

lemma next_block_keeps:
  assumes "next_block q st = (r, q', st')"
  shows "index q' = index q" and "piece_size q' = piece_size q" and "heap_grows st st'"
proof -
  have "index q' = index q \<and> piece_size q' = piece_size q \<and> heap_grows st st'"
    using assms
    by (auto simp: next_block_def Let_def heap_grows_update split: if_splits option.splits)
      (simp add: heap_grows_def nth_append)
  then show "index q' = index q" "piece_size q' = piece_size q" "heap_grows st st'" by auto
qed

lemma release_piece_some [simp]:
  "release_piece (p\<lparr>cur_piece := Some q\<rparr>) = (p\<lparr>cur_piece := None\<rparr>, [PushWork (index q)])"
  by (simp add: release_piece_def)

lemma Piece_fields [simp]: "index (Piece i n) = i" "piece_size (Piece i n) = n"
  by (simp_all add: Piece_def)

lemma next_block_none: "next_block q st = (None, q', st') \<Longrightarrow> q' = q \<and> st' = st"
  using next_block_None by blast

lemma acquire_Inl: "acquire c pop p = Inl (p', acts) \<Longrightarrow> guar t p p' acts"
  by (auto simp: acquire_def guar_def conserved_def Let_def peer_inv_no_piece
      split: option.splits if_splits) (simp_all add: held_def)

lemma acquire_Inr:
  assumes "acquire c pop p = Inr (q, p', acts)"
  shows "guar (ctx_tor c) p p' acts" and "cur_piece p' = Some q" and "pending p' = pending p"
proof -
  have "guar (ctx_tor c) p p' acts \<and> cur_piece p' = Some q \<and> pending p' = pending p"
    using assms
    by (auto simp: acquire_def guar_def conserved_def Let_def guar.ok_refl peer_inv_def piece_inv_Piece
        split: option.splits if_splits) (simp_all add: held_def)
  then show "guar (ctx_tor c) p p' acts" "cur_piece p' = Some q" "pending p' = pending p" by auto
qed

lemma emplace_block_set: "set (emplace_block k a bs) \<subseteq> insert (k, a) (set bs)"
  by (auto simp: emplace_block_def)

lemma emplace_block_distinct:
  "distinct (map fst bs) \<Longrightarrow> distinct (map fst (emplace_block k a bs))"
  by (auto simp: emplace_block_def map_of_eq_None_iff)

lemma length_emplace_block: "length (emplace_block k a bs) \<le> Suc (length bs)"
  by (simp add: emplace_block_def)

lemma start_block_guar:
  assumes "cur_piece p = Some q" and "next_block q (heap p) = (Some a, q', st)"
    and "length (pending p) < PIPELINE_LIMIT"
  shows "guar t p (p\<lparr>cur_piece := Some q', heap := st,
      pending := emplace_block (block_index (st ! a)) a (pending p)\<rparr>) [StartTimer a, WriteRequest msg a]"
    (is "guar t p ?p ?acts")
proof (rule guarI)
  assume inv: "peer_inv t p"
  then have q: "piece_inv q (heap p)" "piece_size q = piece_length t"
    using assms(1) by (simp_all add: peer_inv_def)
  note nb = next_block_Some [OF q(1) assms(2)]
  note keeps = next_block_keeps [OF assms(2)]
  have old: "b < length st \<and> block_index (st ! b) = k" if "(k, b) \<in> set (pending p)" for k b
  proof -
    from that inv have "b < length (heap p)" "block_index (heap p ! b) = k"
      by (auto simp: peer_inv_def)
    with keeps(3) show ?thesis
      by (auto simp: heap_grows_def block_index_def)
  qed
  have "\<forall>(k, b) \<in> set (pending ?p). b < length st \<and> block_index (st ! b) = k"
    using emplace_block_set old nb(3) by fastforce
  moreover have "distinct (map fst (pending ?p))" "length (pending ?p) \<le> PIPELINE_LIMIT"
    using inv emplace_block_distinct assms(3) length_emplace_block [of "block_index (st ! a)" a "pending p"]
    by (auto simp: peer_inv_def)
  ultimately have "peer_inv t ?p"
    using nb(1) keeps(2) q(2) by (simp add: peer_inv_def)
  moreover have "held p = {#index q#}" by (simp add: held_def assms(1))
  ultimately show "peer_inv t ?p \<and> peer_addr ?p = peer_addr p \<and> conserved p ?p ?acts \<and>
      (\<forall>cp \<in> set (completed (results ?acts)). good_piece t cp) \<and>
      heap_grows (heap p) (heap ?p) \<and> (\<forall>a \<in> set (targets ?acts). a < length (heap ?p))"
    using keeps(1,3) nb(3) by (simp add: conserved_def)
qed simp

text \<open>Blocks that can still be handed out.\<close>

definition work_left :: "piece \<Rightarrow> store \<Rightarrow> nat" where
  "work_left q st =
     unat (block_count q) - length (blocks q) + length (filter (block_free st) (blocks q))"

lemma next_block_work_left:
  assumes "piece_inv q st" and "next_block q st = (Some a, q', st')"
  shows "work_left q' st' < work_left q st"
proof (cases "length (blocks q) < unat (block_count q)")
  case True
  then have eq: "q' = q\<lparr>blocks := blocks q @ [length st]\<rparr>"
      "st' = st @ [(Block (word_of_nat (length (blocks q) * BLOCK_SIZE)))\<lparr>reserved := True\<rparr>]"
    using assms by (auto simp: next_block_def)
  have count: "block_count q' = block_count q" by (simp add: eq block_count_def)
  have "filter (block_free st') (blocks q) = filter (block_free st) (blocks q)"
    using piece_inv_addr [OF assms(1)] by (intro filter_cong) (auto simp: eq block_free_def nth_append)
  moreover have "\<not> block_free st' (length st)"
    by (simp add: eq block_free_def)
  ultimately show ?thesis
    using True by (simp add: work_left_def count) (simp add: eq)
next
  case False
  with assms have eq: "find (block_free st) (blocks q) = Some a" "q' = q"
      "st' = st[a := (st ! a)\<lparr>reserved := True\<rparr>]"
    by (auto simp: next_block_def split: option.splits)
  then have a: "a \<in> set (blocks q)" "block_free st a"
    by (auto simp: find_Some_iff)
  then have "a < length st" using piece_inv_addr [OF assms(1)] by blast
  then have "block_free st' b \<longleftrightarrow> block_free st b \<and> b \<noteq> a" for b
    by (cases "b < length st") (auto simp: eq block_free_def nth_list_update)
  then have "filter (block_free st') (blocks q) = filter (\<lambda>b. b \<noteq> a) (filter (block_free st) (blocks q))"
    unfolding filter_filter by (intro filter_cong) auto
  moreover have "length (filter (\<lambda>b. b \<noteq> a) (filter (block_free st) (blocks q))) <
      length (filter (block_free st) (blocks q))"
    by (rule length_filter_less [of a]) (use a in simp_all)
  ultimately show ?thesis
    by (simp add: work_left_def eq(2))
qed

lemma serialize_request [simp]: "\<exists>msg. serialize (request q b) = Some msg"
  by (simp add: serialize_def request_def Let_def)

text \<open>
  One pass: it returns with everything in order, or starts a block of the piece that the
  peer then holds.
\<close>

lemma download_step_Inl: "download_step c pop p = Some (Inl (p', acts)) \<Longrightarrow> guar (ctx_tor c) p p' acts"
proof -
  assume step: "download_step c pop p = Some (Inl (p', acts))"
  show ?thesis
  proof (cases "acquire c pop p")
    case (Inl r)
    with step show ?thesis
      by (cases r) (auto simp: download_step_def acquire_Inl guar.ok_refl split: if_splits)
  next
    case (Inr r)
    obtain q p1 a1 where r: "r = (q, p1, a1)" by (metis surj_pair)
    note acq = acquire_Inr [OF Inr [unfolded r]]
    have "p1\<lparr>cur_piece := Some q, heap := heap p1\<rparr> = p1" using acq(2) by simp
    with step acq(1) show ?thesis
      by (auto simp: download_step_def Inr r guar.ok_refl Let_def dest!: next_block_none
          split: if_splits prod.splits option.splits)
  qed
qed

lemma download_step_Inr:
  assumes "download_step c pop p = Some (Inr (p', acts))"
  obtains q0 p0 a0 q a st msg where "acquire c pop p = Inr (q0, p0, a0)"
    and "cur_piece p0 = Some q0" and "\<not> is_complete q0 (heap p0)"
    and "next_block q0 (heap p0) = (Some a, q, st)" and "serialize (request q (st ! a)) = Some msg"
    and "p' = p0\<lparr>cur_piece := Some q, heap := st,
           pending := emplace_block (block_index (st ! a)) a (pending p0)\<rparr>"
    and "acts = a0 @ [StartTimer a, WriteRequest msg a]"
    and "guar (ctx_tor c) p p' acts"
proof -
  from assms obtain r where r: "acquire c pop p = Inr r"
    by (auto simp: download_step_def split: if_splits sum.splits)
  obtain q0 p0 a0 where r': "r = (q0, p0, a0)" by (metis surj_pair)
  note acq = acquire_Inr [OF r [unfolded r']]
  obtain nb q st where nb: "next_block q0 (heap p0) = (nb, q, st)" by (metis surj_pair)
  have free: "length (pending p) < PIPELINE_LIMIT" "\<not> is_complete q0 (heap p0)"
    using assms by (auto simp: download_step_def r r' split: if_splits)
  obtain a where a: "nb = Some a"
    using assms by (cases nb) (auto simp: download_step_def r r' nb split: if_splits)
  obtain msg where msg: "serialize (request q (st ! a)) = Some msg"
    using serialize_request by blast
  have eq: "p' = p0\<lparr>cur_piece := Some q, heap := st,
      pending := emplace_block (block_index (st ! a)) a (pending p0)\<rparr>"
    "acts = a0 @ [StartTimer a, WriteRequest msg a]"
    using assms by (auto simp: download_step_def r r' nb a msg Let_def split: if_splits)
  have "guar (ctx_tor c) p p' acts"
    unfolding eq using acq free
    by (intro guar.ok_trans [OF acq(1)] start_block_guar [OF acq(2) nb [unfolded a]]) simp
  then show ?thesis
    using that [OF r [unfolded r'] acq(2) free(2) nb [unfolded a] msg eq] by blast
qed

text \<open>The loop ends: every pass takes a block out of what can be handed out.\<close>

lemma download_step_total: "download_step c pop p \<noteq> None"
  by (auto simp: download_step_def Let_def serialize_def request_def
      split: if_splits option.splits sum.splits prod.splits)

lemma async_download_step:
  "download_step c pop p = Some (Inl (p', a)) \<Longrightarrow> async_download c pop p acts = Some (p', acts @ a)"
  "download_step c pop p = Some (Inr (p', a)) \<Longrightarrow>
    async_download c pop p acts = async_download c pop p' (acts @ a)"
  by (subst async_download.simps; simp)+

lemma download_step_cases:
  obtains (stop) p' a where "download_step c pop p = Some (Inl (p', a))"
  | (go) p' a where "download_step c pop p = Some (Inr (p', a))"
  using download_step_total by (metis option.exhaust sum.exhaust surj_pair)

lemma async_download_holding:
  assumes "peer_inv (ctx_tor c) p" and "cur_piece p = Some q"
  shows "async_download c pop p acts \<noteq> None"
  using assms
proof (induction "work_left q (heap p)" arbitrary: p q acts rule: less_induct)
  case less
  show ?case
  proof (cases rule: download_step_cases [of c pop p])
    case (stop p' a)
    then show ?thesis by (simp add: async_download_step)
  next
    case (go p' a)
    from go obtain q0 p0 a0 q' b st msg where acq: "acquire c pop p = Inr (q0, p0, a0)"
      and nb: "next_block q0 (heap p0) = (Some b, q', st)"
      and p': "p' = p0\<lparr>cur_piece := Some q', heap := st,
           pending := emplace_block (block_index (st ! b)) b (pending p0)\<rparr>"
      and g: "guar (ctx_tor c) p p' a"
      by (rule download_step_Inr)
    have "q0 = q" "p0 = p"
      using acq less.prems(2) by (simp_all add: acquire_def)
    moreover have "piece_inv q (heap p)" using less.prems by (simp add: peer_inv_def)
    ultimately have "work_left q' (heap p') < work_left q (heap p)"
      using next_block_work_left nb p' by simp
    moreover have "peer_inv (ctx_tor c) p'" using g less.prems(1) by (simp add: guar_def)
    moreover have "cur_piece p' = Some q'" by (simp add: p')
    ultimately show ?thesis
      using less.hyps go by (simp add: async_download_step)
  qed
qed

lemma async_download_total:
  assumes "peer_inv (ctx_tor c) p"
  shows "async_download c pop p acts \<noteq> None"
proof (cases rule: download_step_cases [of c pop p])
  case (stop p' a)
  then show ?thesis by (simp add: async_download_step)
next
  case (go p' a)
  from go obtain q' where q': "cur_piece p' = Some q'" and g: "guar (ctx_tor c) p p' a"
    by (rule download_step_Inr) simp
  then have "peer_inv (ctx_tor c) p'" using assms by (simp add: guar_def)
  from async_download_holding [OF this q'] go show ?thesis
    by (simp add: async_download_step)
qed

text \<open>The partial-correctness rule of the loop, from a property of one pass.\<close>

lemma async_download_rule:
  assumes "async_download c pop p acts = Some (p', acts')"
    and "\<And>p acts p' a. download_step c pop p = Some (Inl (p', a)) \<Longrightarrow> P p acts p' (acts @ a)"
    and "\<And>p acts p1 a p' acts'. download_step c pop p = Some (Inr (p1, a)) \<Longrightarrow> P p1 (acts @ a) p' acts' \<Longrightarrow>
          P p acts p' acts'"
  shows "P p acts p' acts'"
proof -
  have "c = c \<longrightarrow> pop = pop \<longrightarrow> P p acts (fst (p', acts')) (snd (p', acts'))"
    using _ assms(1)
  proof (rule async_download.raw_induct
      [where P = "\<lambda>c' pop' p acts r. c' = c \<longrightarrow> pop' = pop \<longrightarrow> P p acts (fst r) (snd r)"])
    fix f c' pop' p acts r
    assume IH: "\<And>c' pop' p acts r. f c' pop' p acts = Some r \<Longrightarrow>
        c' = c \<longrightarrow> pop' = pop \<longrightarrow> P p acts (fst r) (snd r)"
      and body: "(case download_step c' pop' p of None \<Rightarrow> None
        | Some (Inl (p, acts2)) \<Rightarrow> Some (p, acts @ acts2)
        | Some (Inr (p, acts2)) \<Rightarrow> f c' pop' p (acts @ acts2)) = Some r"
    show "c' = c \<longrightarrow> pop' = pop \<longrightarrow> P p acts (fst r) (snd r)"
    proof (intro impI)
      assume "c' = c" "pop' = pop"
      with body consider p' a where "download_step c pop p = Some (Inl (p', a))" "r = (p', acts @ a)"
        | p1 a where "download_step c pop p = Some (Inr (p1, a))" "f c pop p1 (acts @ a) = Some r"
        by (auto split: option.splits sum.splits prod.splits)
      then show "P p acts (fst r) (snd r)"
      proof cases
        case 1
        with assms(2) show ?thesis by simp
      next
        case 2
        with IH [OF 2(2)] assms(3) show ?thesis by simp
      qed
    qed
  qed
  then show ?thesis by simp
qed

lemma async_download_guar:
  assumes "async_download c pop p acts = Some (p', acts')"
  shows "\<exists>a. acts' = acts @ a \<and> guar (ctx_tor c) p p' a"
  using assms
proof (rule async_download_rule [where P = "\<lambda>p acts p' acts'. \<exists>a. acts' = acts @ a \<and> guar (ctx_tor c) p p' a"])
  fix p acts p1 a p' acts'
  assume "download_step c pop p = Some (Inr (p1, a))"
    and "\<exists>b. acts' = (acts @ a) @ b \<and> guar (ctx_tor c) p1 p' b"
  then show "\<exists>a. acts' = acts @ a \<and> guar (ctx_tor c) p p' a"
    by (elim download_step_Inr) (metis append_assoc guar.ok_trans)
qed (auto dest: download_step_Inl)

section \<open>Why the loop stops\<close>

definition stalled :: "peer \<Rightarrow> bool" where
  "stalled p \<longleftrightarrow>
     length (pending p) \<ge> PIPELINE_LIMIT \<or> choked p \<or> available_pieces p = [] \<or>
     (case cur_piece p of
        None \<Rightarrow> True
      | Some q \<Rightarrow> is_complete q (heap p) \<or>
          (unat (block_count q) \<le> length (blocks q) \<and>
           (\<forall>a \<in> set (blocks q). filled (heap p ! a) \<or> reserved (heap p ! a))))"

lemma download_step_stalled: "download_step c pop p = Some (Inl (p', acts)) \<Longrightarrow> stalled p'"
proof -
  assume step: "download_step c pop p = Some (Inl (p', acts))"
  show ?thesis
  proof (cases "acquire c pop p")
    case (Inl r)
    then have "cur_piece (fst r) = None"
      by (auto simp: acquire_def Let_def split: option.splits if_splits)
    with step Inl show ?thesis
      by (auto simp: download_step_def stalled_def split: if_splits)
  next
    case (Inr r)
    obtain q p1 a1 where r: "r = (q, p1, a1)" by (metis surj_pair)
    note acq = acquire_Inr [OF Inr [unfolded r]]
    obtain nb q' st where nb: "next_block q (heap p1) = (nb, q', st)" by (metis surj_pair)
    show ?thesis
    proof (cases "PIPELINE_LIMIT \<le> length (pending p) \<or> choked p \<or> available_pieces p = []")
      case True
      with step have "p' = p" by (auto simp: download_step_def split: if_splits)
      with True show ?thesis by (auto simp: stalled_def)
    next
      case False
      show ?thesis
      proof (cases "is_complete q (heap p1)")
        case True
        with step False acq(2) show ?thesis
          by (simp add: download_step_def Inr r stalled_def)
      next
        case unfinished: False
        with step False nb have "nb = None" "p' = p1\<lparr>cur_piece := Some q', heap := st\<rparr>"
          by (auto simp: download_step_def Inr r Let_def split: option.splits)
        with next_block_None [of q "heap p1" q' st] nb show ?thesis
          by (simp add: stalled_def)
      qed
    qed
  qed
qed

lemma async_download_stalled: "async_download c pop p acts = Some (p', acts') \<Longrightarrow> stalled p'"
  by (rule async_download_rule [where P = "\<lambda>p acts p' acts'. stalled p'"])
    (auto dest: download_step_stalled)

section \<open>What a peer asks for\<close>

text \<open>The request for block \<open>k\<close> of piece \<open>i\<close>, as the protocol lays it out.\<close>

definition request_bytes :: "u32 \<Rightarrow> u32 \<Rightarrow> nat \<Rightarrow> bytes" where
  "request_bytes n i k =
     be32 13 @ [6] @ be32 i @ be32 (word_of_nat (k * BLOCK_SIZE)) @ be32 (word_of_nat (block_len (unat n) k))"

lemma request_wire:
  assumes "piece_inv q st" and "a \<in> set (blocks q)"
  obtains k where "k < unat (block_count q)" and "blocks q ! k = a"
    and "serialize (request q (st ! a)) = Some (request_bytes (piece_size q) (index q) k)"
proof -
  obtain k where k: "k < length (blocks q)" "blocks q ! k = a"
    using assms(2) by (auto simp: in_set_conv_nth)
  with assms(1) have count: "k < unat (block_count q)"
    and off: "block.offset (st ! a) = word_of_nat (k * BLOCK_SIZE)"
    by (auto simp: piece_inv_def)
  have "unat (min (piece_size q - block.offset (st ! a)) (word_of_nat BLOCK_SIZE)) =
      block_len (unat (piece_size q)) k"
    by (rule request_length [OF count off])
  then have l: "min (piece_size q - block.offset (st ! a)) (word_of_nat BLOCK_SIZE) =
      word_of_nat (block_len (unat (piece_size q)) k)"
    by (metis of_nat_unat ucast_id)
  have "mtype (request q (st ! a)) = Some Request" by (simp add: request_def Let_def)
  then have "serialize (request q (st ! a)) = Some (request_bytes (piece_size q) (index q) k)"
    using serialize_be32 [of "request q (st ! a)" Request]
    by (simp add: request_payload l [unfolded off] off request_bytes_def del: of_nat_mult)
  with that count k(2) show ?thesis by blast
qed

definition requests_in :: "torrent \<Rightarrow> action list \<Rightarrow> bool" where
  "requests_in t acts \<longleftrightarrow>
     (\<forall>msg a. WriteRequest msg a \<in> set acts \<longrightarrow>
        (\<exists>i k. msg = request_bytes (piece_length t) i k \<and> k * BLOCK_SIZE < unat (piece_length t)))"

lemma requests_in_append [simp]:
  "requests_in t (acts @ acts') \<longleftrightarrow> requests_in t acts \<and> requests_in t acts'"
  by (auto simp: requests_in_def)

lemma acquire_requests_in:
  "acquire c pop p = Inl (p', acts) \<Longrightarrow> requests_in t acts"
  "acquire c pop p = Inr (q, p', acts) \<Longrightarrow> requests_in t acts"
  by (auto simp: acquire_def requests_in_def Let_def split: option.splits if_splits)

lemma download_step_requests:
  assumes "peer_inv (ctx_tor c) p"
  shows "download_step c pop p = Some (Inl (p', acts)) \<Longrightarrow> requests_in t acts"
    and "download_step c pop p = Some (Inr (p', acts)) \<Longrightarrow> requests_in (ctx_tor c) acts"
proof -
  show "requests_in t acts" if "download_step c pop p = Some (Inl (p', acts))"
    using that acquire_requests_in
    by (auto simp: download_step_def Let_def requests_in_def [of t "[]"]
        split: if_splits option.splits sum.splits prod.splits)
  show "requests_in (ctx_tor c) acts" if step: "download_step c pop p = Some (Inr (p', acts))"
  proof -
    from step obtain q0 p0 a0 q a st msg where acq: "acquire c pop p = Inr (q0, p0, a0)"
      and q0: "cur_piece p0 = Some q0" and nb: "next_block q0 (heap p0) = (Some a, q, st)"
      and msg: "serialize (request q (st ! a)) = Some msg"
      and acts: "acts = a0 @ [StartTimer a, WriteRequest msg a]"
      by (rule download_step_Inr)
    have "peer_inv (ctx_tor c) p0"
      using acquire_Inr(1) [OF acq] assms by (simp add: guar_def)
    then have inv: "piece_inv q0 (heap p0)" "piece_size q0 = piece_length (ctx_tor c)"
      using q0 by (simp_all add: peer_inv_def)
    note nbs = next_block_Some [OF inv(1) nb]
    have size: "piece_size q = piece_length (ctx_tor c)"
      using next_block_keeps(2) [OF nb] inv(2) by simp
    obtain k where "k < unat (block_count q)"
      and "serialize (request q (st ! a)) = Some (request_bytes (piece_size q) (index q) k)"
      by (rule request_wire [OF nbs(1,2)])
    with msg size block_in_piece [of k q]
    have "requests_in (ctx_tor c) [StartTimer a, WriteRequest msg a]"
      by (auto simp: requests_in_def)
    with acquire_requests_in(2) [OF acq] show ?thesis
      by (simp add: acts)
  qed
qed

lemma async_download_requests:
  assumes "async_download c pop p acts = Some (p', acts')" and "peer_inv (ctx_tor c) p"
    and "requests_in (ctx_tor c) acts"
  shows "requests_in (ctx_tor c) acts'"
proof -
  have "peer_inv (ctx_tor c) p \<longrightarrow> requests_in (ctx_tor c) acts \<longrightarrow> requests_in (ctx_tor c) acts'"
    using assms(1)
  proof (rule async_download_rule [where
        P = "\<lambda>p acts p' acts'. peer_inv (ctx_tor c) p \<longrightarrow> requests_in (ctx_tor c) acts \<longrightarrow>
          requests_in (ctx_tor c) acts'"])
    fix p acts p1 a p' acts'
    assume step: "download_step c pop p = Some (Inr (p1, a))"
    then have "guar (ctx_tor c) p p1 a" by (rule download_step_Inr)
    with step show "peer_inv (ctx_tor c) p1 \<longrightarrow> requests_in (ctx_tor c) (acts @ a) \<longrightarrow>
        requests_in (ctx_tor c) acts' \<Longrightarrow>
        peer_inv (ctx_tor c) p \<longrightarrow> requests_in (ctx_tor c) acts \<longrightarrow> requests_in (ctx_tor c) acts'"
      using download_step_requests(2) by (auto simp: guar_def)
  qed (use download_step_requests(1) in auto)
  with assms show ?thesis by blast
qed

section \<open>The handlers\<close>

fun event_bytes :: "event \<Rightarrow> bytes" where
  "event_bytes (HandshakeRead ec dat) = dat"
| "event_bytes (LengthRead ec dat) = dat"
| "event_bytes (BodyRead ec dat) = dat"
| "event_bytes _ = []"

lemma length_resize [simp]: "length (resize n v) = n"
  by (simp add: resize_def)

lemma buffer_ok_received: "buffer_ok p \<Longrightarrow> length dat < 2 ^ 32 \<Longrightarrow> buffer_ok (received dat p)"
  by (simp add: buffer_ok_def received_def overlay_def)

lemma received_guar: "length dat < 2 ^ 32 \<Longrightarrow> guar t p (received dat p) []"
  by (auto simp: received_def guar_def conserved_def) (simp add: buffer_ok_def overlay_def)

lemma async_read_message_guar: "async_read_message p = (p', acts) \<Longrightarrow> guar t p p' acts"
  by (auto simp: async_read_message_def neutral_def intro!: guar_neutral guar_fields)

lemma async_handshake_guar:
  "async_handshake_write c ec p = (p', acts) \<Longrightarrow> guar t p p' acts"
  "length (ctx_handshake c) < 2 ^ 32 \<Longrightarrow> async_handshake_read c ec p = (p', acts) \<Longrightarrow> guar t p p' acts"
  by (cases ec; auto simp: async_handshake_write_def async_handshake_read_def Let_def neutral_def
      close_guar intro!: guar_neutral guar_fields guar.ok_refl)+

lemma async_next_guar:
  assumes "async_next u ec p = Some (p', acts)"
  shows "guar t p p' acts"
proof (cases ec)
  case True
  with assms show ?thesis by (simp add: async_next_def close_guar)
next
  case False
  with assms obtain h msg where "Handshake_parse (u_byte u) (u_hash u) (recv_buffer p) = Some h"
    and "serialize interested = Some msg"
    by (auto simp: async_next_def split: option.splits)
  with assms False obtain pid a where read: "async_read_message (p\<lparr>peer_id := pid\<rparr>) = (p', a)"
    and acts: "acts = [PushResult (ResultPeerConnected (peer_addr p)), WriteMessage msg] @ a"
    by (fastforce simp: async_next_def Let_def async_read_message_def)
  have "guar t p p [PushResult (ResultPeerConnected (peer_addr p)), WriteMessage msg]"
    by (rule guar_neutral) (simp_all add: neutral_def guar.ok_refl)
  then show ?thesis
    unfolding acts
    by (rule guar.ok_trans) (rule guar.then_ok [OF guar_fields(2) async_read_message_guar [OF read]])
qed

lemma async_read_len_guar: "async_read_len ec p = (p', acts) \<Longrightarrow> guar t p p' acts"
  by (cases ec; cases "ntohl (load32 (recv_buffer p)) = 0")
    (auto simp: async_read_len_def Let_def neutral_def close_guar async_read_message_guar
      unat_bounds(3) [simplified]
      intro!: guar_neutral guar_fields)

lemma timer_fired_guar:
  assumes "timer_fired ec a p = (p', acts)"
  shows "guar t p p' acts"
  using assms guar.then_ok [OF guar_fields(5) close_guar]
  by (auto simp: timer_fired_def guar.ok_refl split: if_splits)

lemma request_written_guar: "request_written ec a p = Some (p', acts) \<Longrightarrow> guar t p p' acts"
  by (auto simp: request_written_def release_block_guar guar.ok_refl split: if_splits)

lemma Message_payload: "Message bs = Some m \<Longrightarrow> length (payload m) < length bs"
  by (auto simp: Message_def split: list.splits)

text \<open>What the switch of \<open>async_handle_message\<close> does.\<close>

lemma async_handle_message_cases:
  assumes "async_handle_message c u pop p = Some (p', acts)"
  obtains (unknown) "p' = p" "acts = []"
  | (known) m t p1 a1 p2 a2 a3 where "Message (recv_buffer p) = Some m" and "mtype m = Some t"
    and "(t = PieceMsg \<and> handle_piece c u m p = Some (p1, a1)) \<or>
         (t \<noteq> PieceMsg \<and> a1 = [] \<and>
          p1 \<in> {p, p\<lparr>choked := True\<rparr>, p\<lparr>choked := False\<rparr>,
            p\<lparr>available_pieces := bitfield_copy_from (payload m)\<rparr>})"
    and "async_download c pop p1 a1 = Some (p2, a2)" and "async_read_message p2 = (p', a3)"
    and "acts = a2 @ a3"
proof -
  from assms obtain m where m: "Message (recv_buffer p) = Some m"
    by (auto simp: async_handle_message_def split: option.splits)
  show ?thesis
  proof (cases "mtype m")
    case None
    with assms m show ?thesis by (intro unknown) (simp_all add: async_handle_message_def)
  next
    case (Some t)
    define r where "r = (case t of
                        Choke \<Rightarrow> Some (p\<lparr>choked := True\<rparr>, [])
                      | Unchoke \<Rightarrow> Some (p\<lparr>choked := False\<rparr>, [])
                      | Bitfield \<Rightarrow> Some (p\<lparr>available_pieces := bitfield_copy_from (payload m)\<rparr>, [])
                      | PieceMsg \<Rightarrow> handle_piece c u m p
                      | _ \<Rightarrow> Some (p, []))"
    have body: "(case r of None \<Rightarrow> None
       | Some (p, acts) \<Rightarrow> (case async_download c pop p acts of None \<Rightarrow> None
           | Some (p, acts) \<Rightarrow> (let (p, acts2) = async_read_message p in Some (p, acts @ acts2)))) =
       Some (p', acts)"
      using assms by (simp add: async_handle_message_def m Some r_def)
    then obtain p1 a1 p2 a2 a3 where r1: "r = Some (p1, a1)"
      and d: "async_download c pop p1 a1 = Some (p2, a2)" "async_read_message p2 = (p', a3)" "acts = a2 @ a3"
      by (auto simp: Let_def split: option.splits prod.splits)
    from r1 have "(t = PieceMsg \<and> handle_piece c u m p = Some (p1, a1)) \<or>
         (t \<noteq> PieceMsg \<and> a1 = [] \<and>
          p1 \<in> {p, p\<lparr>choked := True\<rparr>, p\<lparr>choked := False\<rparr>,
            p\<lparr>available_pieces := bitfield_copy_from (payload m)\<rparr>})"
      unfolding r_def by (cases t) auto
    from known [OF m Some this d] show ?thesis .
  qed
qed

lemma async_handle_message_guar:
  assumes "async_handle_message c u pop p = Some (p', acts)" and "uninit_ok (ctx_tor c) u" and "buffer_ok p"
  shows "guar (ctx_tor c) p p' acts"
  using assms(1)
proof (cases rule: async_handle_message_cases)
  case unknown
  then show ?thesis by (simp add: guar.ok_refl)
next
  case (known m t p1 a1 p2 a2 a3)
  have "length (payload m) < 2 ^ 32"
    using Message_payload [OF known(1)] assms(3) by (simp add: buffer_ok_def)
  with known(3) assms(2) have g1: "guar (ctx_tor c) p p1 a1"
    by (auto intro: handle_piece_guar guar_fields guar.ok_refl)
  from async_download_guar [OF known(4)] obtain a where "a2 = a1 @ a" "guar (ctx_tor c) p1 p2 a" by auto
  with g1 guar.ok_trans have "guar (ctx_tor c) p p2 a2" by blast
  with guar.ok_trans async_read_message_guar [OF known(5)] show ?thesis
    unfolding known(6) by blast
qed

lemma body_read_guar:
  assumes "body_read c u pop ec p = Some (p', acts)" and "uninit_ok (ctx_tor c) u" and "buffer_ok p"
  shows "guar (ctx_tor c) p p' acts"
  using assms
  by (auto simp: body_read_def async_handle_message_guar release_piece_guar split: if_splits)

text \<open>The guarantee of every completion handler.\<close>

lemma handle_guar:
  assumes "handle c u pop e p = Some (p', acts)" and "uninit_ok (ctx_tor c) u"
    and "buffer_ok p" and "length (event_bytes e) < 2 ^ 32" and "length (ctx_handshake c) < 2 ^ 32"
  shows "guar (ctx_tor c) p p' acts"
proof (cases e)
  case (HandshakeRead ec dat)
  with assms show ?thesis
    by (auto intro: guar.then_ok [OF received_guar async_next_guar])
next
  case (LengthRead ec dat)
  with assms show ?thesis
    by (auto intro: guar.then_ok [OF received_guar async_read_len_guar])
next
  case (BodyRead ec dat)
  with assms show ?thesis
    by (auto intro!: guar.then_ok [OF received_guar body_read_guar] buffer_ok_received)
qed (use assms in \<open>auto simp: guar.ok_refl intro: async_handshake_guar request_written_guar
      timer_fired_guar\<close>)

section \<open>Which handlers are safe\<close>

text \<open>
  What a torrent must satisfy for the handlers never to leave defined behaviour: a piece is
  a whole number of blocks (\<open>finalize\<close> copies a full last block) and no piece is without
  its hash.
\<close>

definition torrent_ok :: "torrent \<Rightarrow> bool" where
  "torrent_ok t \<longleftrightarrow>
     unat (piece_length t) mod BLOCK_SIZE = 0 \<and> unat (pieces t) \<le> length (piece_hashes t)"

definition event_safe :: "peer \<Rightarrow> event \<Rightarrow> bool" where
  "event_safe p e \<longleftrightarrow>
     (case e of
        RequestWritten ec a \<Rightarrow> ec \<longrightarrow> cur_piece p \<noteq> None
      | BodyRead ec dat \<Rightarrow> ec \<or> dat \<noteq> [] \<or> recv_buffer p \<noteq> []
      | _ \<Rightarrow> True)"

lemma handle_piece_total:
  assumes "peer_inv (ctx_tor c) p" and "torrent_ok (ctx_tor c)" and "length (payload m) < 2 ^ 32"
    and "\<forall>i \<in># held p. unat i < unat (pieces (ctx_tor c))"
  shows "handle_piece c u m p \<noteq> None"
proof (cases "cur_piece p")
  case (Some q)
  obtain r i st where acc: "accept (u_word1 u) (u_word2 u) (payload m) q (heap p) = ((r, i), st)"
    by (metis surj_pair)
  let ?p = "release_block i (p\<lparr>heap := st\<rparr>)"
  have "guar (ctx_tor c) p ?p []"
    by (rule guar.ok_then [OF accept_guar [OF Some assms(3) acc] release_block_guar])
  with assms(1) have "peer_inv (ctx_tor c) ?p" by (simp add: guar_def)
  then have "piece_inv q (heap ?p)" "piece_size q = piece_length (ctx_tor c)"
    by (simp_all add: peer_inv_def Some)
  with assms(2) have fin: "finalize (u_array u) q (heap ?p) \<noteq> None"
    by (intro finalize_fits) (simp_all add: torrent_ok_def)
  then obtain cp q' where fin: "finalize (u_array u) q (heap ?p) = Some (cp, q')" by auto
  then have "index q' = index q"
    by (auto simp: finalize_def Let_def split: option.splits if_splits)
  then have "unat (index q') < length (piece_hashes (ctx_tor c))"
    using assms(2,4) Some by (auto simp: held_def torrent_ok_def)
  then obtain h where h: "piece_hash (ctx_tor c) (index q') = Some h"
    by (simp add: piece_hash_def)
  obtain g where g: "cp_hash cp = Some g" by (simp add: cp_hash_def)
  show ?thesis
    unfolding handle_piece_def Some option.case acc Let_def prod.case fin h g
    by (simp split del: if_split add: if_distrib [of "\<lambda>x. x = None"] cong: if_cong)
qed (simp add: handle_piece_def)

lemma async_handle_message_total:
  assumes "peer_inv (ctx_tor c) p" and "torrent_ok (ctx_tor c)" and "buffer_ok p"
    and "uninit_ok (ctx_tor c) u" and "\<forall>i \<in># held p. unat i < unat (pieces (ctx_tor c))"
    and "recv_buffer p \<noteq> []"
  shows "async_handle_message c u pop p \<noteq> None"
proof -
  obtain m where m: "Message (recv_buffer p) = Some m"
    using assms(6) by (auto simp: Message_def neq_Nil_conv)
  have len: "length (payload m) < 2 ^ 32"
    using Message_payload [OF m] assms(3) by (simp add: buffer_ok_def)
  obtain p1 a1 where hp: "handle_piece c u m p = Some (p1, a1)"
    using handle_piece_total [OF assms(1,2) len assms(5)] by fastforce
  then have "peer_inv (ctx_tor c) p1"
    using handle_piece_guar [OF hp assms(4) len] assms(1) by (simp add: guar_def)
  then have d1: "async_download c pop p1 a1 \<noteq> None" by (rule async_download_total)
  have d2: "async_download c pop p2 [] \<noteq> None" if "peer_inv (ctx_tor c) p2" for p2
    using that by (rule async_download_total)
  show ?thesis
  proof (cases "mtype m")
    case (Some t)
    have d3: "\<exists>p3 a3. async_download c pop p2 [] = Some (p3, a3)" if "peer_inv (ctx_tor c) p2" for p2
      using d2 [OF that] by auto
    have inv: "peer_inv (ctx_tor c) (p\<lparr>choked := b\<rparr>)"
      "peer_inv (ctx_tor c) (p\<lparr>available_pieces := av\<rparr>)" for b av
      using assms(1) by simp_all
    show ?thesis
      using d1 d3 [OF assms(1)] d3 [OF inv(1), of True] d3 [OF inv(1), of False]
        d3 [OF inv(2), of "bitfield_copy_from (payload m)"]
      by (cases t) (auto simp: async_handle_message_def m Some hp Let_def split: prod.splits)
  qed (simp add: async_handle_message_def m)
qed

lemma handle_total:
  assumes "peer_inv (ctx_tor c) p" and "torrent_ok (ctx_tor c)" and "buffer_ok p"
    and "uninit_ok (ctx_tor c) u" and "\<forall>i \<in># held p. unat i < unat (pieces (ctx_tor c))"
    and "length (event_bytes e) < 2 ^ 32" and "event_safe p e"
  shows "handle c u pop e p \<noteq> None"
proof (cases e)
  case (HandshakeRead ec dat)
  have "Handshake_parse (u_byte u) (u_hash u) (recv_buffer (received dat p)) \<noteq> None"
    using assms(4) by (intro Handshake_parse_total) (simp add: uninit_ok_def)
  then show ?thesis
    by (auto simp: HandshakeRead async_next_def serialize_def interested_def Let_def split: prod.splits)
next
  case (BodyRead ec dat)
  have "peer_inv (ctx_tor c) (received dat p)" "held (received dat p) = held p"
    using assms(1) by (simp_all add: received_def)
  moreover have "recv_buffer (received dat p) \<noteq> []" if "\<not> ec"
    using that assms(7) by (auto simp: BodyRead event_safe_def received_def overlay_def)
  moreover have "buffer_ok (received dat p)"
    using assms(3,6) by (simp add: BodyRead buffer_ok_received)
  ultimately show ?thesis
    using async_handle_message_total assms(2,4,5) by (simp add: BodyRead body_read_def)
qed (use assms in \<open>auto simp: request_written_def event_safe_def\<close>)

end
