(* ===== verification/Monitor.thy ===== *)
theory Monitor
  imports Peer_Correct
begin

text \<open>
  \<^verbatim>\<open>MonitorVisitor\<close> and \<^verbatim>\<open>monitor_thread\<close> of \<^verbatim>\<open>src/peer.cpp\<close>: the thread that takes the
  results off their queue and writes the pieces to the file. The file is an array of slots
  (\<open>slot_store\<close>), one per piece, so the order in which the pieces arrive does not matter.
  The clock and the progress report, which only goes to the log, are in \<open>Progress\<close>.
\<close>

section \<open>The file\<close>

text \<open>
  \<^verbatim>\<open>seekp\<close> and \<^verbatim>\<open>write\<close> on an output file: a write beyond the end leaves a gap of zeros.
\<close>

definition file_write :: "nat \<Rightarrow> bytes \<Rightarrow> bytes \<Rightarrow> bytes" where
  "file_write off dat f =
     take off f @ replicate (off - length f) 0 @ dat @ drop (off + length dat) f"

section \<open>The visitor\<close>

record monitor =
  out_file :: bytes
  missing_pieces :: "u32 set"
  peers_set :: "address set"
  bytes_downloaded :: nat

definition MonitorVisitor :: "torrent \<Rightarrow> monitor" where
  "MonitorVisitor t =
     \<lparr>out_file = replicate (unat (file_length t)) 0,
      missing_pieces = set (map word_of_nat [0..<unat (pieces t)]),
      peers_set = {}, bytes_downloaded = 0\<rparr>"

definition complete :: "monitor \<Rightarrow> bool" where
  "complete m \<longleftrightarrow> missing_pieces m = {}"

fun visit :: "peer_result \<Rightarrow> monitor \<Rightarrow> monitor" where
  "visit (ResultPieceComplete cp) m =
     m\<lparr>out_file := file_write (unat (cp_offset cp)) (take (unat (cp_size cp)) (cp_data cp)) (out_file m),
       missing_pieces := missing_pieces m - {cp_index cp},
       bytes_downloaded := bytes_downloaded m + unat (cp_size cp)\<rparr>"
| "visit (ResultPeerConnected a) m = m\<lparr>peers_set := insert a (peers_set m)\<rparr>"
| "visit (ResultPeerDropped a) m = m\<lparr>peers_set := peers_set m - {a}\<rparr>"

text \<open>
  The loop over the results in the order the queue delivers them, with what is left in the
  queue when it ends. \<open>None\<close>: the thread still spins on the empty queue.
\<close>

fun monitor_loop :: "monitor \<Rightarrow> peer_result list \<Rightarrow> (monitor \<times> peer_result list) option" where
  "monitor_loop m [] = (if complete m then Some (m, []) else None)"
| "monitor_loop m (r # rs) = (if complete m then Some (m, r # rs) else monitor_loop (visit r m) rs)"

definition monitor_thread :: "torrent \<Rightarrow> peer_result list \<Rightarrow> (monitor \<times> peer_result list) option" where
  "monitor_thread t rs = monitor_loop (MonitorVisitor t) rs"

section \<open>Slots\<close>

locale slot_store =
  fixes get :: "'s \<Rightarrow> nat \<Rightarrow> 'd"
    and put :: "nat \<Rightarrow> 'd \<Rightarrow> 's \<Rightarrow> 's"
    and inv :: "'s \<Rightarrow> bool"
    and slot :: "nat \<Rightarrow> bool"
    and fits :: "'d \<Rightarrow> bool"
  assumes put_inv: "inv s \<Longrightarrow> slot i \<Longrightarrow> fits d \<Longrightarrow> inv (put i d s)"
    and get_put: "inv s \<Longrightarrow> slot i \<Longrightarrow> fits d \<Longrightarrow> slot j \<Longrightarrow>
      get (put i d s) j = (if j = i then d else get s j)"
begin

definition writable :: "(nat \<times> 'd) list \<Rightarrow> bool" where
  "writable ws \<longleftrightarrow> (\<forall>(i, d) \<in> set ws. slot i \<and> fits d)"

lemma puts_inv: "writable ws \<Longrightarrow> inv s \<Longrightarrow> inv (fold (\<lambda>(i, d). put i d) ws s)"
  by (induction ws arbitrary: s) (auto simp: writable_def put_inv)

lemma puts_other:
  "writable ws \<Longrightarrow> inv s \<Longrightarrow> slot j \<Longrightarrow> j \<notin> fst ` set ws \<Longrightarrow>
    get (fold (\<lambda>(i, d). put i d) ws s) j = get s j"
  by (induction ws arbitrary: s) (auto simp: writable_def put_inv get_put)

text \<open>A slot that was written holds one of the values written to it.\<close>

lemma puts_written:
  "writable ws \<Longrightarrow> inv s \<Longrightarrow> slot j \<Longrightarrow> j \<in> fst ` set ws \<Longrightarrow>
    (j, get (fold (\<lambda>(i, d). put i d) ws s) j) \<in> set ws"
proof (induction ws arbitrary: s)
  case (Cons w ws)
  obtain i d where w: "w = (i, d)" by fastforce
  with Cons.prems have inv: "inv (put i d s)" and ws: "writable ws" "slot i" "fits d"
    by (auto simp: writable_def put_inv)
  show ?case
  proof (cases "j \<in> fst ` set ws")
    case True
    with Cons.IH [OF ws(1) inv Cons.prems(3)] show ?thesis by (simp add: w)
  next
    case False
    with Cons.prems ws inv show ?thesis
      by (auto simp: w puts_other get_put)
  qed
qed simp

end

lemma length_file_write:
  "off + length dat \<le> length f \<Longrightarrow> length (file_write off dat f) = length f"
  by (simp add: file_write_def)

lemma slice_file_write:
  assumes "length d = n" and "Suc i * n \<le> length f"
  shows "slice n j (file_write (i * n) d f) = (if j = i then d else slice n j f)"
proof -
  have f: "file_write (i * n) d f = take (i * n) f @ d @ drop (Suc i * n) f"
    using assms by (simp add: file_write_def add.commute)
  consider "j < i" | "j = i" | "i < j" by linarith
  then show ?thesis
  proof cases
    case 1
    then have "Suc j * n \<le> i * n" by (intro mult_le_mono1) simp
    then have "take n (drop (j * n) (take (i * n) f)) = take n (drop (j * n) f)"
      by (simp add: drop_take min_def)
    with 1 \<open>Suc j * n \<le> i * n\<close> assms show ?thesis
      by (simp add: slice_def f)
  next
    case 2
    with assms show ?thesis by (simp add: slice_def f)
  next
    case 3
    then have "Suc i * n \<le> j * n" by (intro mult_le_mono1) simp
    with 3 assms show ?thesis
      by (simp add: slice_def f)
  qed
qed

lemma file_write_tail:
  assumes "length d = n" and "Suc i * n \<le> length f" and "Suc i * n \<le> k"
  shows "drop k (file_write (i * n) d f) = drop k f"
proof -
  have "file_write (i * n) d f = (take (i * n) f @ d) @ drop (Suc i * n) f"
    using assms(1,2) by (simp add: file_write_def add.commute)
  moreover have "length (take (i * n) f @ d) = Suc i * n"
    using assms(1,2) by simp
  ultimately show ?thesis using assms(3) by (simp add: drop_append)
qed

interpretation piece_slots:
  slot_store "\<lambda>f i. slice n i f" "\<lambda>i d. file_write (i * n) d" "\<lambda>f. k * n \<le> length f" "\<lambda>i. i < k"
    "\<lambda>d. length d = n"
proof unfold_locales
  fix f :: bytes and i d
  assume f: "k * n \<le> length f" and "i < k" and d: "length (d :: bytes) = n"
  then have i: "Suc i * n \<le> length f"
    using mult_le_mono1 [of "Suc i" k n] by simp
  then show "k * n \<le> length (file_write (i * n) d f)"
    using f d by (subst length_file_write) simp_all
  show "slice n j (file_write (i * n) d f) = (if j = i then d else slice n j f)" for j
    by (rule slice_file_write [OF d i])
qed

section \<open>Results that the peers report\<close>

definition results_ok :: "torrent \<Rightarrow> peer_result list \<Rightarrow> bool" where
  "results_ok t rs \<longleftrightarrow> (\<forall>cp \<in> set (completed rs). good_piece t cp \<and> cp_index cp < pieces t)"

definition writes :: "peer_result list \<Rightarrow> (nat \<times> bytes) list" where
  "writes rs = map (\<lambda>cp. (unat (cp_index cp), cp_data cp)) (completed rs)"

lemma unat_pieces: "unat (pieces t) = unat (file_length t) div unat (piece_length t)"
  by (simp add: pieces_def unat_div)

lemma pieces_fit: "unat (pieces t) * unat (piece_length t) \<le> unat (file_length t)"
  by (simp add: unat_pieces)

text \<open>The 32-bit product of the offset does not wrap around.\<close>

lemma unat_cp_offset:
  assumes "cp_index cp < pieces t" and "cp_size cp = piece_length t"
  shows "unat (cp_offset cp) = unat (cp_index cp) * unat (piece_length t)"
    and "unat (cp_index cp) * unat (piece_length t) + unat (piece_length t) \<le> unat (file_length t)"
proof -
  have "Suc (unat (cp_index cp)) \<le> unat (pieces t)"
    using assms(1) by (simp add: word_less_nat_alt Suc_le_eq)
  then have "Suc (unat (cp_index cp)) * unat (piece_length t) \<le> unat (pieces t) * unat (piece_length t)"
    by (rule mult_le_mono1)
  with pieces_fit [of t] show fit: "unat (cp_index cp) * unat (piece_length t) + unat (piece_length t) \<le> unat (file_length t)"
    by simp
  have "unat (file_length t) < 2 ^ 32" by (rule unat_bounds)
  with fit have "unat (cp_index cp) * unat (piece_length t) < 2 ^ 32" by linarith
  then show "unat (cp_offset cp) = unat (cp_index cp) * unat (piece_length t)"
    by (simp add: cp_offset_def assms(2) unat_word_ariths)
qed

lemma results_ok_simps [simp]:
  "results_ok t []"
  "results_ok t (r # rs) \<longleftrightarrow>
     (\<forall>cp \<in> set (completed_of r). good_piece t cp \<and> cp_index cp < pieces t) \<and> results_ok t rs"
  by (auto simp: results_ok_def)

lemma writable_writes: "results_ok t rs \<Longrightarrow> piece_slots.writable (unat (pieces t)) (unat (piece_length t)) (writes rs)"
  by (auto simp: piece_slots.writable_def writes_def results_ok_def good_piece_def word_less_nat_alt)

lemma writes_simps [simp]:
  "writes [] = []" "writes (r # rs) = map (\<lambda>cp. (unat (cp_index cp), cp_data cp)) (completed_of r) @ writes rs"
  by (simp_all add: writes_def)

text \<open>What the visits have done, as a function of the results visited.\<close>

definition visited :: "torrent \<Rightarrow> monitor \<Rightarrow> peer_result list \<Rightarrow> monitor \<Rightarrow> bool" where
  "visited t m rs m' \<longleftrightarrow>
     out_file m' = fold (\<lambda>(i, d). file_write (i * unat (piece_length t)) d) (writes rs) (out_file m) \<and>
     missing_pieces m' = missing_pieces m - cp_index ` set (completed rs) \<and>
     bytes_downloaded m' = bytes_downloaded m + length (completed rs) * unat (piece_length t) \<and>
     length (out_file m') = unat (file_length t)"

lemma visit_visited:
  assumes "results_ok t [r]" and "length (out_file m) = unat (file_length t)"
  shows "visited t m [r] (visit r m)"
proof (cases r)
  case (ResultPieceComplete cp)
  with assms(1) have ok: "good_piece t cp" "cp_index cp < pieces t" by (simp_all add: results_ok_def)
  then have size: "cp_size cp = piece_length t" "length (cp_data cp) = unat (piece_length t)"
    by (simp_all add: good_piece_def)
  note off = unat_cp_offset [OF ok(2) size(1)]
  have "length (file_write (unat (cp_index cp) * unat (piece_length t)) (cp_data cp) (out_file m)) =
      unat (file_length t)"
    using assms(2) off(2) size by (subst length_file_write) simp_all
  then show ?thesis
    by (simp add: ResultPieceComplete visited_def off(1) size)
qed (use assms in \<open>simp_all add: visited_def\<close>)

lemma visit_fold:
  assumes "results_ok t rs" and "length (out_file m) = unat (file_length t)"
  shows "visited t m rs (fold visit rs m)"
  using assms
proof (induction rs arbitrary: m)
  case (Cons r rs)
  then have v: "visited t m [r] (visit r m)" by (intro visit_visited) auto
  then have "visited t (visit r m) rs (fold visit rs (visit r m))"
    using Cons.prems by (intro Cons.IH) (auto simp: visited_def)
  with v show ?case by (auto simp: visited_def algebra_simps)
qed (simp add: visited_def)

section \<open>The finished file\<close>

text \<open>
  Every piece of the file has the hash that the torrent names. The bytes behind the last
  whole piece are the zeros that the constructor wrote.
\<close>

definition file_ok :: "torrent \<Rightarrow> bytes \<Rightarrow> bool" where
  "file_ok t f \<longleftrightarrow>
     length f = unat (file_length t) \<and>
     (\<forall>i < pieces t. piece_hash t i = Some (sha1_bytes (slice (unat (piece_length t)) (unat i) f)))"

definition tail_zero :: "torrent \<Rightarrow> bytes \<Rightarrow> bool" where
  "tail_zero t f \<longleftrightarrow>
     (let k = unat (pieces t) * unat (piece_length t)
      in drop k f = replicate (unat (file_length t) - k) 0)"

lemma MonitorVisitor_fields:
  "length (out_file (MonitorVisitor t)) = unat (file_length t)" "tail_zero t (out_file (MonitorVisitor t))"
  "missing_pieces (MonitorVisitor t) = {i. i < pieces t}"
proof -
  have "i \<in> word_of_nat ` {..<unat (pieces t)} \<longleftrightarrow> i < pieces t" for i :: u32
  proof
    assume "i \<in> word_of_nat ` {..<unat (pieces t)}"
    then obtain n where n: "n < unat (pieces t)" "i = word_of_nat n" by auto
    then have "n < 2 ^ 32" using unat_bounds(3) [of "pieces t"] by linarith
    with n show "i < pieces t" unfolding word_less_nat_alt n(2) unat_of_nat by simp
  next
    assume "i < pieces t"
    then have "unat i \<in> {..<unat (pieces t)}" "i = word_of_nat (unat i)"
      by (simp_all add: word_less_nat_alt)
    then show "i \<in> word_of_nat ` {..<unat (pieces t)}" by blast
  qed
  then show "missing_pieces (MonitorVisitor t) = {i. i < pieces t}"
    by (auto simp: MonitorVisitor_def atLeast0LessThan)
qed (simp_all add: MonitorVisitor_def tail_zero_def Let_def)

lemma fold_write_tail:
  assumes "\<forall>(i, d) \<in> set ws. i < k \<and> length d = n" and "k * n \<le> length f"
  shows "drop (k * n) (fold (\<lambda>(i, d). file_write (i * n) d) ws f) = drop (k * n) f"
  using assms
proof (induction ws arbitrary: f)
  case (Cons w ws)
  obtain i d where w: "w = (i, d)" by (rule prod.exhaust)
  with Cons.prems have "Suc i \<le> k" and d: "length d = n" by auto
  then have i: "Suc i * n \<le> k * n" by (intro mult_le_mono1)
  with Cons.prems have "drop (k * n) (file_write (i * n) d f) = drop (k * n) f"
    "length (file_write (i * n) d f) = length f"
    using file_write_tail [OF d, of i f "k * n"] length_file_write [of "i * n" d f]
    by (simp_all add: w d)
  with Cons.IH [of "file_write (i * n) d f"] Cons.prems show ?case
    by (simp add: w)
qed simp

text \<open>The slots of the file after a list of results.\<close>

lemma visited_slot:
  assumes "results_ok t rs" and "i < pieces t" and "i \<in> cp_index ` set (completed rs)"
    and "length (out_file m) = unat (file_length t)"
  shows "\<exists>cp \<in> set (completed rs). cp_index cp = i \<and>
    slice (unat (piece_length t)) (unat i) (out_file (fold visit rs m)) = cp_data cp"
proof -
  let ?n = "unat (piece_length t)" and ?k = "unat (pieces t)"
  let ?f = "out_file (fold visit rs m)"
  have f: "?f = fold (\<lambda>(i, d). file_write (i * ?n) d) (writes rs) (out_file m)"
    using visit_fold [OF assms(1,4)] by (simp add: visited_def)
  have "unat i \<in> fst ` set (writes rs)"
    using assms(3) by (force simp: writes_def)
  moreover have "unat i < ?k" using assms(2) by (simp add: word_less_nat_alt)
  moreover have "?k * ?n \<le> length (out_file m)" using assms(4) pieces_fit by simp
  ultimately have "(unat i, slice ?n (unat i) ?f) \<in> set (writes rs)"
    unfolding f by (intro piece_slots.puts_written [OF writable_writes [OF assms(1)]])
  then show ?thesis
    by (auto simp: writes_def) (metis word_unat_eq_iff)
qed

lemma visited_tail:
  assumes "results_ok t rs" and "length (out_file m) = unat (file_length t)" and "tail_zero t (out_file m)"
  shows "tail_zero t (out_file (fold visit rs m))"
proof -
  let ?n = "unat (piece_length t)" and ?k = "unat (pieces t)"
  have "out_file (fold visit rs m) = fold (\<lambda>(i, d). file_write (i * ?n) d) (writes rs) (out_file m)"
    using visit_fold [OF assms(1,2)] by (simp add: visited_def)
  moreover have "\<forall>(i, d) \<in> set (writes rs). i < ?k \<and> length d = ?n"
    using writable_writes [OF assms(1)] by (simp add: piece_slots.writable_def)
  ultimately show ?thesis
    using assms(2,3) pieces_fit fold_write_tail [of "writes rs" ?k ?n "out_file m"]
    by (simp add: tail_zero_def Let_def)
qed

section \<open>The loop\<close>

lemma monitor_loop_Some:
  "monitor_loop m rs = Some (m', queued) \<Longrightarrow> \<exists>used. rs = used @ queued \<and> m' = fold visit used m \<and> complete m'"
proof (induction m rs rule: monitor_loop.induct)
  case (2 m r rs)
  show ?case
  proof (cases "complete m")
    case True
    with 2 show ?thesis by (auto intro: exI [of _ "[]"])
  next
    case False
    with 2 obtain used where "rs = used @ queued" "m' = fold visit used (visit r m)" "complete m'"
      by auto
    then show ?thesis by (intro exI [of _ "r # used"]) simp
  qed
qed (auto split: if_splits)

lemma missing_pieces_visit [simp]:
  "missing_pieces (visit r m) = missing_pieces m - cp_index ` set (completed_of r)"
  by (cases r) auto

lemma monitor_loop_None:
  "monitor_loop m rs = None \<Longrightarrow> \<not> missing_pieces m \<subseteq> cp_index ` set (completed rs)"
  by (induction m rs rule: monitor_loop.induct) (auto simp: complete_def split: if_splits)

lemma visits_file:
  assumes ok: "results_ok t used" and c: "complete (fold visit used (MonitorVisitor t))"
    and m: "m = fold visit used (MonitorVisitor t)"
  shows "file_ok t (out_file m) \<and> tail_zero t (out_file m)"
proof -
  note v = visit_fold [OF ok MonitorVisitor_fields(1), folded m]
  have "i \<in> cp_index ` set (completed used)" if "i < pieces t" for i
    using v c that by (auto simp: visited_def complete_def MonitorVisitor_fields m)
  then have "\<exists>cp \<in> set (completed used). cp_index cp = i \<and>
      slice (unat (piece_length t)) (unat i) (out_file m) = cp_data cp" if "i < pieces t" for i
    unfolding m using visited_slot [OF ok that _ MonitorVisitor_fields(1)] that by blast
  then have "piece_hash t i = Some (sha1_bytes (slice (unat (piece_length t)) (unat i) (out_file m)))"
    if "i < pieces t" for i
    using ok that by (fastforce simp: results_ok_def good_piece_def)
  moreover have "length (out_file m) = unat (file_length t)"
    using v unfolding visited_def by blast
  ultimately show ?thesis
    using visited_tail [OF ok MonitorVisitor_fields(1,2)] unfolding file_ok_def m by blast
qed

lemma monitor_thread_file:
  assumes "monitor_thread t rs = Some (m, queued)" and "results_ok t rs"
  shows "file_ok t (out_file m) \<and> tail_zero t (out_file m)"
proof -
  obtain used where rs: "rs = used @ queued" and m: "m = fold visit used (MonitorVisitor t)" and c: "complete m"
    using monitor_loop_Some assms(1) unfolding monitor_thread_def by blast
  have "results_ok t used" using assms(2) by (auto simp: results_ok_def rs)
  with c m show ?thesis by (intro visits_file) simp_all
qed

lemma monitor_thread_returns:
  assumes "\<forall>i < pieces t. i \<in> cp_index ` set (completed rs)"
  shows "monitor_thread t rs \<noteq> None"
proof -
  have "missing_pieces (MonitorVisitor t) \<subseteq> cp_index ` set (completed rs)"
    using assms by (auto simp: MonitorVisitor_fields)
  then show ?thesis
    unfolding monitor_thread_def using monitor_loop_None by blast
qed

text \<open>If every result carries its part of one file, that file is written, in any order.\<close>

lemma take_slices:
  assumes "\<forall>i < k. slice n i f = slice n i g"
  shows "take (k * n) f = take (k * n) g"
proof -
  have "map (\<lambda>i. slice n i f) [0..<k] = map (\<lambda>i. slice n i g) [0..<k]" using assms by simp
  then show ?thesis unfolding concat_slices [symmetric] by (rule arg_cong)
qed

lemma visits_content:
  assumes ok: "results_ok t used" and c: "complete (fold visit used (MonitorVisitor t))"
    and "\<forall>cp \<in> set (completed used). cp_data cp = slice (unat (piece_length t)) (unat (cp_index cp)) content"
    and m: "m = fold visit used (MonitorVisitor t)"
  shows "out_file m =
    (let k = unat (pieces t) * unat (piece_length t)
     in take k content @ replicate (unat (file_length t) - k) 0)"
proof -
  let ?n = "unat (piece_length t)" and ?k = "unat (pieces t)"
  note v = visit_fold [OF ok MonitorVisitor_fields(1), folded m]
  have "slice ?n i (out_file m) = slice ?n i content" if "i < ?k" for i
  proof -
    let ?i = "word_of_nat i :: u32"
    have "i < 2 ^ 32" using that unat_bounds(3) [of "pieces t"] by linarith
    then have i: "unat ?i = i" unfolding unat_of_nat by simp
    with that have "?i < pieces t" by (simp add: word_less_nat_alt)
    moreover have "?i \<in> cp_index ` set (completed used)"
      using v c calculation by (auto simp: visited_def complete_def MonitorVisitor_fields m)
    ultimately obtain cp where "cp \<in> set (completed used)" "cp_index cp = ?i"
      "slice ?n (unat ?i) (out_file m) = cp_data cp"
      unfolding m using visited_slot [OF ok _ _ MonitorVisitor_fields(1)] by blast
    with assms(3) i show ?thesis by simp
  qed
  then have "take (?k * ?n) (out_file m) = take (?k * ?n) content"
    by (intro take_slices) simp
  moreover have "tail_zero t (out_file m)"
    using visits_file [OF ok c m] by simp
  ultimately show ?thesis
    by (metis append_take_drop_id tail_zero_def Let_def)
qed

lemma monitor_thread_content:
  assumes "monitor_thread t rs = Some (m, queued)" and "results_ok t rs"
    and "\<forall>cp \<in> set (completed rs). cp_data cp = slice (unat (piece_length t)) (unat (cp_index cp)) content"
  shows "out_file m =
    (let k = unat (pieces t) * unat (piece_length t)
     in take k content @ replicate (unat (file_length t) - k) 0)"
proof -
  obtain used where rs: "rs = used @ queued" and m: "m = fold visit used (MonitorVisitor t)" and c: "complete m"
    using monitor_loop_Some assms(1) unfolding monitor_thread_def by blast
  have "results_ok t used" using assms(2) by (auto simp: results_ok_def rs)
  with assms(3) c m show ?thesis by (intro visits_content) (simp_all add: rs)
qed

end
