(* ===== verification/System.thy ===== *)
theory System
  imports Monitor
begin

text \<open>
  \<^verbatim>\<open>src/main.cpp\<close> and the program as a whole: the peers, whose handlers the I/O thread runs
  one at a time, the queue of piece indices they share, and the monitor thread that takes
  results off the other queue. A step is the completion of one outstanding operation or one
  result taken by the monitor. The lock-free queues are Boost's: \<open>pop\<close> may return any of the
  elements that are in the queue, or fail, so nothing here depends on their order.
\<close>

section \<open>main.cpp\<close>

definition main_peer_id :: bytes where
  "main_peer_id = str ''-pt0001-0123456789ab''"

definition main_port :: u16 where
  "main_port = 6881"

text \<open>The request to the tracker, up to the HTTP library.\<close>

definition request_url :: "torrent \<Rightarrow> bytes" where
  "request_url t =
     announce t @ str ''?'' @
     str ''info_hash='' @ urlencode (info_hash t) @ str ''&'' @
     str ''peer_id='' @ main_peer_id @ str ''&'' @
     str ''port='' @ decimal (unat main_port) @ str ''&'' @
     str ''uploaded='' @ str ''0'' @ str ''&'' @
     str ''downloaded='' @ str ''0'' @ str ''&'' @
     str ''compact='' @ str ''1'' @ str ''&'' @
     str ''left='' @ decimal (unat (file_length t))"

section \<open>The state of the program\<close>

text \<open>
  \<open>ops\<close> are the outstanding operations, each with the index of its peer; \<open>taken\<close> is the
  list of the results that the monitor has visited.
\<close>

record system =
  conns :: "peer list"
  ops :: "(nat \<times> action) multiset"
  work :: "u32 multiset"
  queue :: "peer_result list"
  taken :: "peer_result list"
  mon :: monitor

definition all_pieces :: "torrent \<Rightarrow> u32 list" where
  "all_pieces t = map word_of_nat [0..<unat (pieces t)]"

definition main_ctx :: "torrent \<Rightarrow> ctx" where
  "main_ctx t = \<lparr>ctx_handshake = serialise (Handshake (info_hash t) main_peer_id), ctx_tor = t\<rparr>"

definition start_run_connections :: "torrent \<Rightarrow> tracker_response \<Rightarrow> system" where
  "start_run_connections t response =
     \<lparr>conns = map (\<lambda>a. fst (Peer a)) (peers response),
      ops = mset (map (\<lambda>i. (i, AsyncConnect)) [0..<length (peers response)]),
      work = mset (all_pieces t), queue = [], taken = [], mon = MonitorVisitor t\<rparr>"

text \<open>
  The actions of a handler of peer \<open>i\<close>. The queue only gives out what it holds. Closing a
  socket makes its outstanding operations fail, which every operation may do at any time.
\<close>

fun perform1 :: "nat \<Rightarrow> action \<Rightarrow> system \<Rightarrow> system option" where
  "perform1 i (PopWork None) s = Some s"
| "perform1 i (PopWork (Some x)) s =
     (if x \<in># work s then Some (s\<lparr>work := work s - {#x#}\<rparr>) else None)"
| "perform1 i (PushWork x) s = Some (s\<lparr>work := work s + {#x#}\<rparr>)"
| "perform1 i (PushResult r) s = Some (s\<lparr>queue := queue s @ [r]\<rparr>)"
| "perform1 i CloseSocket s = Some s"
| "perform1 i a s = Some (s\<lparr>ops := ops s + {#(i, a)#}\<rparr>)"

fun perform :: "nat \<Rightarrow> action list \<Rightarrow> system \<Rightarrow> system option" where
  "perform i [] s = Some s"
| "perform i (a # acts) s = (case perform1 i a s of None \<Rightarrow> None | Some s' \<Rightarrow> perform i acts s')"

inductive sys_step :: "ctx \<Rightarrow> system \<Rightarrow> system \<Rightarrow> bool" for c where
  handler: "(i, act) \<in># ops s \<Longrightarrow> completes act e \<Longrightarrow> uninit_ok (ctx_tor c) u \<Longrightarrow>
    handle c u pop e (conns s ! i) = Some (p, acts) \<Longrightarrow>
    perform i acts (s\<lparr>conns := (conns s)[i := p], ops := ops s - {#(i, act)#}\<rparr>) = Some s' \<Longrightarrow>
    sys_step c s s'"
| result: "\<not> complete (mon s) \<Longrightarrow> queue s = a @ r # b \<Longrightarrow>
    sys_step c s (s\<lparr>queue := a @ b, taken := taken s @ [r], mon := visit r (mon s)\<rparr>)"

inductive_cases sys_step_cases: "sys_step c s s'"

section \<open>The invariant\<close>

text \<open>Where the piece indices are: waiting, held by a peer, reported, or written.\<close>

definition accounted :: "system \<Rightarrow> u32 multiset" where
  "accounted s =
     work s + sum_list (map held (conns s)) + mset (map cp_index (completed (queue s))) +
     mset (map cp_index (completed (taken s)))"

definition op_ok :: "system \<Rightarrow> nat \<Rightarrow> action \<Rightarrow> bool" where
  "op_ok s i act \<longleftrightarrow>
     i < length (conns s) \<and> (\<forall>n \<in> set (reads_of act). n < 2 ^ 32) \<and>
     (\<forall>a \<in> set (target_of act). a < length (heap (conns s ! i)))"

definition sys_inv :: "torrent \<Rightarrow> system \<Rightarrow> bool" where
  "sys_inv t s \<longleftrightarrow>
     (\<forall>p \<in> set (conns s). peer_inv t p \<and> buffer_ok p) \<and>
     (\<forall>(i, act) \<in># ops s. op_ok s i act) \<and>
     accounted s = mset (all_pieces t) \<and>
     (\<forall>cp \<in> set (completed (queue s @ taken s)). good_piece t cp) \<and>
     mon s = fold visit (taken s) (MonitorVisitor t)"

lemma sum_list_update_plus:
  fixes f :: "'a \<Rightarrow> 'b :: comm_monoid_add"
  shows "i < length xs \<Longrightarrow> sum_list (map f (xs[i := y])) + f (xs ! i) = sum_list (map f xs) + f y"
proof (induction xs arbitrary: i)
  case (Cons x xs)
  show ?case
  proof (cases i)
    case (Suc j)
    with Cons have "sum_list (map f (xs[j := y])) + f (xs ! j) = sum_list (map f xs) + f y" by simp
    then have "f x + (sum_list (map f (xs[j := y])) + f (xs ! j)) = f x + (sum_list (map f xs) + f y)"
      by simp
    with Suc show ?thesis by (simp add: add.assoc)
  qed (simp add: ac_simps)
qed simp

text \<open>The effect of a list of actions on the queues and the outstanding operations.\<close>

lemma perform1_effect:
  assumes "perform1 i a s = Some s'"
  shows "work s' + mset (popped_by a) = work s + mset (pushed_by a)"
    and "queue s' = queue s @ result_of a" and "taken s' = taken s" and "mon s' = mon s"
    and "conns s' = conns s" and "set_mset (ops s') \<subseteq> set_mset (ops s) \<union> {(i, a)}"
  using assms by (induction i a s rule: perform1.induct) (auto split: if_splits)

lemma perform_effect:
  assumes "perform i acts s = Some s'"
  shows "work s' + mset (popped acts) = work s + mset (pushed acts)"
    and "queue s' = queue s @ results acts" and "taken s' = taken s" and "mon s' = mon s"
    and "conns s' = conns s" and "set_mset (ops s') \<subseteq> set_mset (ops s) \<union> Pair i ` set acts"
proof -
  have "work s' + mset (popped acts) = work s + mset (pushed acts) \<and>
    queue s' = queue s @ results acts \<and> taken s' = taken s \<and> mon s' = mon s \<and>
    conns s' = conns s \<and> set_mset (ops s') \<subseteq> set_mset (ops s) \<union> Pair i ` set acts"
    using assms
  proof (induction acts arbitrary: s)
    case (Cons a acts)
    then obtain s1 where s1: "perform1 i a s = Some s1" "perform i acts s1 = Some s'"
      by (auto split: option.splits)
    note e = perform1_effect [OF s1(1)] Cons.IH [OF s1(2)]
    have "work s' + mset (popped acts) + mset (popped_by a) = work s1 + mset (pushed acts) + mset (popped_by a)"
      using e(7) by simp
    also have "\<dots> = work s + mset (pushed_by a) + mset (pushed acts)"
      using e(1) by (metis add.assoc add.commute)
    finally have "work s' + mset (popped (a # acts)) = work s + mset (pushed (a # acts))"
      by (simp add: ac_simps)
    with e(2-6) e(7) [THEN conjunct2] show ?case by auto
  qed simp
  then show "work s' + mset (popped acts) = work s + mset (pushed acts)"
    "queue s' = queue s @ results acts" "taken s' = taken s" "mon s' = mon s"
    "conns s' = conns s" "set_mset (ops s') \<subseteq> set_mset (ops s) \<union> Pair i ` set acts" by auto
qed

lemma all_pieces_iff: "i \<in> set (all_pieces t) \<longleftrightarrow> i < pieces t"
  using MonitorVisitor_fields(3) [of t] by (auto simp: MonitorVisitor_def all_pieces_def)

lemma distinct_all_pieces: "distinct (all_pieces t)"
proof -
  have "unat (word_of_nat n :: u32) = n" if "n < unat (pieces t)" for n
    using that unat_bounds(3) [of "pieces t"] unfolding unat_of_nat by simp
  then have "inj_on (word_of_nat :: nat \<Rightarrow> u32) {..<unat (pieces t)}"
    by (intro inj_on_inverseI [where g = unat]) simp
  then show ?thesis
    by (simp add: all_pieces_def distinct_map atLeast0LessThan)
qed

lemma held_sub: "p \<in> set ps \<Longrightarrow> i \<in># held p \<Longrightarrow> i \<in># sum_list (map held ps)"
  by (induction ps) auto

lemma accounted_member:
  assumes "sys_inv t s"
  shows "i \<in># accounted s \<longleftrightarrow> i < pieces t"
  using assms by (simp add: sys_inv_def all_pieces_iff)

lemma sys_inv_results_ok:
  assumes "sys_inv t s"
  shows "results_ok t (queue s)" and "results_ok t (taken s)"
proof -
  have "cp_index cp < pieces t" if "cp \<in> set (completed (queue s @ taken s))" for cp
    using that accounted_member [OF assms, of "cp_index cp"] by (auto simp: accounted_def)
  with assms show "results_ok t (queue s)" "results_ok t (taken s)"
    by (auto simp: results_ok_def sys_inv_def)
qed

lemma sys_inv_held:
  assumes "sys_inv t s" and "p \<in> set (conns s)" and "i \<in># held p"
  shows "i < pieces t"
  using accounted_member [OF assms(1), of i] held_sub [OF assms(2,3)] by (simp add: accounted_def)

section \<open>Every step keeps the invariant\<close>

lemma completes_bytes:
  assumes "completes act e" and "\<forall>n \<in> set (reads_of act). n < 2 ^ 32"
  shows "length (event_bytes e) < 2 ^ 32"
proof -
  have "length dat < 2 ^ 32" if "fills n ec dat" "n < 2 ^ 32" for n ec and dat :: bytes
    using that by (auto simp: fills_def split: if_splits)
  then show ?thesis
    using assms by (cases e) (auto simp: completes_def fills_def split: action.splits if_splits)
qed

lemma op_ok_step:
  assumes "op_ok s j act" and "heap_grows (heap (conns s ! i)) (heap p)" and "conns s' = (conns s)[i := p]"
  shows "op_ok s' j act"
  using assms by (cases "j = i") (auto simp: op_ok_def heap_grows_def)

lemma handler_inv:
  assumes inv: "sys_inv (ctx_tor c) s" and hs: "length (ctx_handshake c) < 2 ^ 32"
    and op: "(i, act) \<in># ops s" "completes act e" and u: "uninit_ok (ctx_tor c) u"
    and h: "handle c u pop e (conns s ! i) = Some (p, acts)"
    and perf: "perform i acts (s\<lparr>conns := (conns s)[i := p], ops := ops s - {#(i, act)#}\<rparr>) = Some s'"
  shows "sys_inv (ctx_tor c) s'"
proof -
  let ?t = "ctx_tor c" and ?p = "conns s ! i"
  have ok: "op_ok s i act" using inv op(1) by (auto simp: sys_inv_def)
  then have i: "i < length (conns s)" by (simp add: op_ok_def)
  then have p: "peer_inv ?t ?p" "buffer_ok ?p" using inv by (auto simp: sys_inv_def)
  have "guar ?t ?p p acts"
    using handle_guar [OF h u p(2) completes_bytes [OF op(2)] hs] ok by (simp add: op_ok_def)
  with p have g: "peer_inv ?t p" "buffer_ok p" "conserved ?p p acts"
    "\<forall>cp \<in> set (completed (results acts)). good_piece ?t cp" "heap_grows (heap ?p) (heap p)"
    "\<forall>a \<in> set (targets acts). a < length (heap p)" "\<forall>n \<in> set (reads acts). n < 2 ^ 32"
    by (simp_all add: guar_def)
  note e = perform_effect [OF perf, simplified]
  have conns: "\<forall>q \<in> set (conns s'). peer_inv ?t q \<and> buffer_ok q"
    using inv g(1,2) e(5) set_update_subset_insert [of "conns s" i p] by (auto simp: sys_inv_def)
  have old: "op_ok s' j a" if "(j, a) \<in># ops s" for j a
    using that inv by (intro op_ok_step [OF _ g(5) e(5)]) (auto simp: sys_inv_def)
  have new: "op_ok s' i a" if "a \<in> set acts" for a
    using that i g(6,7) by (auto simp: op_ok_def e(5) reads_def targets_def)
  have ops: "\<forall>(j, a) \<in># ops s'. op_ok s' j a"
    using e(6) old new in_diffD [of _ "ops s" "{#(i, act)#}"] by auto
  have "accounted s' + (held ?p + mset (popped acts)) =
      (work s' + mset (popped acts)) + (sum_list (map held ((conns s)[i := p])) + held ?p) +
      mset (map cp_index (completed (queue s @ results acts))) + mset (map cp_index (completed (taken s)))"
    by (simp add: accounted_def e(2,3,5) ac_simps)
  also have "\<dots> = (work s + mset (pushed acts)) + (sum_list (map held (conns s)) + held p) +
      mset (map cp_index (completed (queue s @ results acts))) + mset (map cp_index (completed (taken s)))"
    by (simp only: e(1) sum_list_update_plus [OF i])
  also have "\<dots> = accounted s + (held p + mset (pushed acts) + mset (map cp_index (completed (results acts))))"
    by (simp add: accounted_def ac_simps)
  also have "\<dots> = accounted s + (held ?p + mset (popped acts))"
    using g(3) by (simp only: conserved_def)
  finally have "accounted s' = accounted s" by (rule add_right_imp_eq)
  moreover from inv have acc: "accounted s = mset (all_pieces ?t)"
    and good: "\<forall>cp \<in> set (completed (queue s @ taken s)). good_piece ?t cp"
    and mon: "mon s = fold visit (taken s) (MonitorVisitor ?t)"
    unfolding sys_inv_def by blast+
  moreover have "\<forall>cp \<in> set (completed (queue s' @ taken s')). good_piece ?t cp"
    using good g(4) by (auto simp: e(2,3))
  ultimately show ?thesis
    unfolding sys_inv_def e(3,4) using conns ops by (intro conjI; assumption?) (simp_all only:)
qed

lemma sys_step_inv:
  assumes "sys_inv (ctx_tor c) s" and "sys_step c s s'" and "length (ctx_handshake c) < 2 ^ 32"
  shows "sys_inv (ctx_tor c) s'"
  using assms(2)
proof (cases rule: sys_step.cases)
  case (handler i act e u pop p acts)
  then show ?thesis by (rule handler_inv [OF assms(1,3)])
next
  case (result a r b)
  have "accounted s' = accounted s"
    by (simp add: result accounted_def ac_simps)
  with assms(1) show ?thesis
    by (auto simp: sys_inv_def result op_ok_def)
qed

lemma length_main_handshake: "length (ctx_handshake (main_ctx t)) = 68 + length (info_hash t) - HASH_SIZE"
  by (simp add: main_ctx_def serialise_def Handshake_def PROTOCOL_def main_peer_id_def HASH_SIZE_def)

lemma start_inv: "sys_inv t (start_run_connections t r)"
proof -
  let ?s = "start_run_connections t r"
  have p: "peer_inv t (fst (Peer a))" "buffer_ok (fst (Peer a))" "held (fst (Peer a)) = {#}" for a
    by (simp_all add: Peer_def peer_inv_def buffer_ok_def held_def)
  have "sum_list (map held (map (\<lambda>a. fst (Peer a)) as)) = {#}" for as
    by (induction as) (simp_all add: p)
  then have "accounted ?s = mset (all_pieces t)"
    by (simp only: accounted_def start_run_connections_def system.simps) simp
  moreover have "\<forall>q \<in> set (conns ?s). peer_inv t q \<and> buffer_ok q"
    by (auto simp: start_run_connections_def p)
  moreover have "\<forall>(i, act) \<in># ops ?s. op_ok ?s i act"
    by (auto simp: start_run_connections_def op_ok_def)
  ultimately show ?thesis
    by (simp add: sys_inv_def) (simp add: start_run_connections_def)
qed

section \<open>Reachable states\<close>

interpretation program: transition_system
  "\<lambda>s. length (info_hash t) = HASH_SIZE \<and> (\<exists>r. s = start_run_connections t r)" "sys_step (main_ctx t)"
  "\<lambda>s. length (info_hash t) = HASH_SIZE \<and> sys_inv t s"
proof unfold_locales
  have c: "ctx_tor (main_ctx t) = t" by (simp add: main_ctx_def)
  show "length (info_hash t) = HASH_SIZE \<and> sys_inv t s'"
    if "length (info_hash t) = HASH_SIZE \<and> sys_inv t s" and "sys_step (main_ctx t) s s'" for s s'
    using that sys_step_inv [of "main_ctx t" s s'] by (simp add: c length_main_handshake)
qed (auto simp: start_inv)

definition reachable :: "torrent \<Rightarrow> system \<Rightarrow> bool" where
  "reachable t s \<longleftrightarrow>
     length (info_hash t) = HASH_SIZE \<and>
     (\<exists>r. (sys_step (main_ctx t))\<^sup>*\<^sup>* (start_run_connections t r) s)"

lemma reachable_step: "reachable t s \<Longrightarrow> sys_step (main_ctx t) s s' \<Longrightarrow> reachable t s'"
  by (auto simp: reachable_def intro: rtranclp.rtrancl_into_rtrancl)

lemma reachable_inv: "reachable t s \<Longrightarrow> sys_inv t s"
  unfolding reachable_def using program.inv_steps by blast

text \<open>What the monitor has written of the file so far.\<close>

lemma reachable_file:
  assumes "reachable t s"
  shows "length (out_file (mon s)) = unat (file_length t)"
    and "i < pieces t \<Longrightarrow> i \<notin> missing_pieces (mon s) \<Longrightarrow>
      piece_hash t i = Some (sha1_bytes (slice (unat (piece_length t)) (unat i) (out_file (mon s))))"
    and "tail_zero t (out_file (mon s))"
proof -
  note inv = reachable_inv [OF assms]
  note ok = sys_inv_results_ok(2) [OF inv]
  have m: "mon s = fold visit (taken s) (MonitorVisitor t)" using inv by (simp add: sys_inv_def)
  note v = visit_fold [OF ok MonitorVisitor_fields(1), folded m]
  show "length (out_file (mon s)) = unat (file_length t)"
    using v unfolding visited_def by blast
  show "tail_zero t (out_file (mon s))"
    unfolding m by (rule visited_tail [OF ok MonitorVisitor_fields(1,2)])
  assume i: "i < pieces t" and "i \<notin> missing_pieces (mon s)"
  then have "i \<in> cp_index ` set (completed (taken s))"
    using v by (auto simp: visited_def MonitorVisitor_fields)
  from visited_slot [OF ok i this MonitorVisitor_fields(1), folded m]
  obtain cp where cp: "cp \<in> set (completed (taken s))" "cp_index cp = i"
    "slice (unat (piece_length t)) (unat i) (out_file (mon s)) = cp_data cp" by blast
  moreover have "good_piece t cp"
    using ok cp(1) by (simp add: results_ok_def)
  ultimately show "piece_hash t i =
      Some (sha1_bytes (slice (unat (piece_length t)) (unat i) (out_file (mon s))))"
    by (simp add: good_piece_def)
qed

text \<open>A handler that the I/O thread runs stays within defined behaviour.\<close>

lemma reachable_complete_file:
  assumes "reachable t s" and "complete (mon s)"
  shows "file_ok t (out_file (mon s)) \<and> tail_zero t (out_file (mon s))"
proof -
  note inv = reachable_inv [OF assms(1)]
  then have "mon s = fold visit (taken s) (MonitorVisitor t)" by (simp add: sys_inv_def)
  with assms(2) sys_inv_results_ok(2) [OF inv] show ?thesis by (intro visits_file) simp_all
qed

lemma reachable_handle:
  assumes "reachable t s" and "torrent_ok t" and "(i, act) \<in># ops s" and "completes act e"
    and "uninit_ok t u" and "event_safe (conns s ! i) e"
  shows "handle (main_ctx t) u pop e (conns s ! i) \<noteq> None"
proof -
  have c: "ctx_tor (main_ctx t) = t" by (simp add: main_ctx_def)
  note inv = reachable_inv [OF assms(1)]
  have ok: "op_ok s i act" using inv assms(3) by (auto simp: sys_inv_def)
  then have i: "conns s ! i \<in> set (conns s)" by (simp add: op_ok_def)
  then have p: "peer_inv t (conns s ! i)" "buffer_ok (conns s ! i)" using inv by (auto simp: sys_inv_def)
  have "unat j < unat (pieces t)" if "j \<in># held (conns s ! i)" for j
    using sys_inv_held [OF inv i that] by (simp add: word_less_nat_alt)
  then show ?thesis
    using p assms(2,5,6) ok completes_bytes [OF assms(4)]
    by (intro handle_total) (auto simp: c op_ok_def)
qed

end
