(* ===== verification/Http_Parse.thy ===== *)
theory Http_Parse
  imports Prelude
begin

text \<open>
  The parsers of \<^verbatim>\<open>httprequest.hpp\<close>: character classes, the URI, and the parts of a
  response head. A parser that takes a pair of iterators takes the bytes between them and
  returns its value and the bytes it has not read; what it throws is a value of
  \<open>http_exn\<close>.
\<close>

section \<open>Errors\<close>

type_synonym errno = int

datatype http_exn =
    RequestError bytes
  | ResponseError bytes
  | SystemError errno bytes
  | LengthError

type_synonym 'a http = "http_exn + 'a"

section \<open>Character classes\<close>

definition isWhiteSpaceChar :: "byte \<Rightarrow> bool" where
  "isWhiteSpaceChar c \<longleftrightarrow> c = 0x20 \<or> c = 0x09"

definition isDigitChar :: "byte \<Rightarrow> bool" where
  "isDigitChar c \<longleftrightarrow> 0x30 \<le> c \<and> c \<le> 0x39"

definition isAlphaChar :: "byte \<Rightarrow> bool" where
  "isAlphaChar c \<longleftrightarrow> (0x61 \<le> c \<and> c \<le> 0x7A) \<or> (0x41 \<le> c \<and> c \<le> 0x5A)"

definition isTokenChar :: "byte \<Rightarrow> bool" where
  "isTokenChar c \<longleftrightarrow>
     c \<in> set [0x21, 0x23, 0x24, 0x25, 0x26, 0x27, 0x2A, 0x2B, 0x2D, 0x2E, 0x5E, 0x5F, 0x60, 0x7C, 0x7E] \<or>
     isDigitChar c \<or> isAlphaChar c"

definition isVisibleChar :: "byte \<Rightarrow> bool" where
  "isVisibleChar c \<longleftrightarrow> 0x21 \<le> c \<and> c \<le> 0x7E"

definition isObsoleteTextChar :: "byte \<Rightarrow> bool" where
  "isObsoleteTextChar c \<longleftrightarrow> 0x80 \<le> c \<and> c \<le> 0xFF"

text \<open>The condition that three of the loops share.\<close>

definition is_text_char :: "byte \<Rightarrow> bool" where
  "is_text_char c \<longleftrightarrow> isWhiteSpaceChar c \<or> isVisibleChar c \<or> isObsoleteTextChar c"

definition skipWhiteSpaces :: "bytes \<Rightarrow> bytes" where
  "skipWhiteSpaces bs = dropWhile isWhiteSpaceChar bs"

section \<open>Digits\<close>

definition digitToUint :: "byte \<Rightarrow> 'a::len word http" where
  "digitToUint c =
     (if 0x30 \<le> c \<and> c \<le> 0x39 then Inr (ucast (c - 0x30))
      else Inl (ResponseError (str ''Invalid digit'')))"

definition hexDigitToUint :: "byte \<Rightarrow> 'a::len word http" where
  "hexDigitToUint c =
     (if 0x30 \<le> c \<and> c \<le> 0x39 then Inr (ucast (c - 0x30))
      else if 0x41 \<le> c \<and> c \<le> 0x46 then Inr (ucast (c - 0x41) + 10)
      else if 0x61 \<le> c \<and> c \<le> 0x66 then Inr (ucast (c - 0x61) + 10)
      else Inl (ResponseError (str ''Invalid hex digit'')))"

text \<open>The two loops over a string of digits; \<^verbatim>\<open>T\<close> is \<^verbatim>\<open>size_t\<close> and wraps around.\<close>

fun digits_from :: "(byte \<Rightarrow> u64 http) \<Rightarrow> u64 \<Rightarrow> u64 \<Rightarrow> bytes \<Rightarrow> u64 http" where
  "digits_from to_uint base n [] = Inr n"
| "digits_from to_uint base n (c # cs) =
     and_then (to_uint c) (\<lambda>d. digits_from to_uint base (base * n + d) cs)"

definition stringToUint :: "bytes \<Rightarrow> u64 http" where
  "stringToUint bs = digits_from digitToUint 10 0 bs"

definition hexStringToUint :: "bytes \<Rightarrow> u64 http" where
  "hexStringToUint bs = digits_from hexDigitToUint 16 0 bs"

section \<open>The URI\<close>

record uri =
  uri_scheme :: bytes
  uri_user :: bytes
  uri_password :: bytes
  uri_host :: bytes
  uri_port :: bytes
  uri_path :: bytes
  uri_query :: bytes
  uri_fragment :: bytes

text \<open>\<^verbatim>\<open>if (i == end || *i++ != c) throw e\<close>\<close>

definition expect :: "http_exn \<Rightarrow> byte \<Rightarrow> bytes \<Rightarrow> bytes http" where
  "expect e c bs = (case bs of [] \<Rightarrow> Inl e | b # r \<Rightarrow> if b = c then Inr r else Inl e)"

fun expect_all :: "http_exn \<Rightarrow> bytes \<Rightarrow> bytes \<Rightarrow> bytes http" where
  "expect_all e [] bs = Inr bs"
| "expect_all e (c # cs) bs = and_then (expect e c bs) (expect_all e cs)"

text \<open>
  \<^verbatim>\<open>s.find(c)\<close> with the two strings that the code makes from the position: what is before
  it (\<^verbatim>\<open>resize\<close>) and what is after it (\<^verbatim>\<open>substr(position + 1)\<close>).
\<close>

definition cut_at :: "byte \<Rightarrow> bytes \<Rightarrow> (bytes \<times> bytes) option" where
  "cut_at c s = map_option (\<lambda>n. (take n s, drop (Suc n) s)) (find_sub [c] s)"

definition scheme_char :: "byte \<Rightarrow> bool" where
  "scheme_char c \<longleftrightarrow>
     isAlphaChar c \<or> isDigitChar c \<or> c = of_char CHR ''+'' \<or> c = of_char CHR ''-'' \<or> c = of_char CHR ''.''"

text \<open>Fragment, query, path, user information, host and port, in the order of the code.\<close>

definition parse_authority :: "bytes \<Rightarrow> bytes \<Rightarrow> uri" where
  "parse_authority scheme authority =
     (let (authority, fragment) =
            (case cut_at (of_char CHR ''#'') authority of None \<Rightarrow> (authority, []) | Some r \<Rightarrow> r);
          (authority, query) =
            (case cut_at (of_char CHR ''?'') authority of None \<Rightarrow> (authority, []) | Some r \<Rightarrow> r);
          (authority, path) =
            (case find_sub [of_char CHR ''/''] authority of
               None \<Rightarrow> (authority, str ''/'')
             | Some n \<Rightarrow> (take n authority, drop n authority));
          (user, password, host) =
            (case cut_at (of_char CHR ''@'') authority of
               None \<Rightarrow> ([], [], authority)
             | Some (userinfo, host) \<Rightarrow>
                 (case cut_at (of_char CHR '':'') userinfo of
                    None \<Rightarrow> (userinfo, [], host)
                  | Some (user, password) \<Rightarrow> (user, password, host)));
          (host, port) =
            (case cut_at (of_char CHR '':'') host of None \<Rightarrow> (host, []) | Some r \<Rightarrow> r)
      in \<lparr>uri_scheme = scheme, uri_user = user, uri_password = password, uri_host = host,
          uri_port = port, uri_path = path, uri_query = query, uri_fragment = fragment\<rparr>)"

definition parseUri :: "bytes \<Rightarrow> uri http" where
  "parseUri bs =
     (let e = RequestError (str ''Invalid scheme'')
      in case bs of
           [] \<Rightarrow> Inl e
         | c # i \<Rightarrow>
             if \<not> isAlphaChar c then Inl e
             else and_then (expect_all e (str ''://'') (dropWhile scheme_char i))
               (\<lambda>authority. Inr (parse_authority (c # takeWhile scheme_char i) authority)))"

section \<open>The status line\<close>

type_synonym http_version = "u16 \<times> u16"

record status =
  http_version :: http_version
  status_code :: u16
  reason :: bytes

definition parseHttpVersion :: "bytes \<Rightarrow> (http_version \<times> bytes) http" where
  "parseHttpVersion bs =
     (let e = ResponseError (str ''Invalid HTTP version'')
      in and_then (expect_all e (str ''HTTP/'') bs) (\<lambda>i.
         case i of
           [] \<Rightarrow> Inl e
         | c # i \<Rightarrow>
             and_then (digitToUint c) (\<lambda>major.
             and_then (expect e (of_char CHR ''.'') i) (\<lambda>i.
             case i of
               [] \<Rightarrow> Inl e
             | c # i \<Rightarrow> and_then (digitToUint c) (\<lambda>minor. Inr ((major, minor), i))))))"

fun status_digits :: "u16 \<Rightarrow> bytes \<Rightarrow> (u16 \<times> bytes) http" where
  "status_digits n [] = Inr (n, [])"
| "status_digits n (c # cs) =
     (if isDigitChar c then and_then (digitToUint c) (\<lambda>d. status_digits (n * 10 + d) cs)
      else Inr (n, c # cs))"

definition parseStatusCode :: "bytes \<Rightarrow> (u16 \<times> bytes) http" where
  "parseStatusCode bs =
     and_then (status_digits 0 bs) (\<lambda>(n, i).
       if length bs - length i \<noteq> 3 then Inl (ResponseError (str ''Invalid status code''))
       else Inr (n, i))"

definition parseReasonPhrase :: "bytes \<Rightarrow> bytes \<times> bytes" where
  "parseReasonPhrase bs = (takeWhile is_text_char bs, dropWhile is_text_char bs)"

definition crlf :: bytes where
  "crlf = [0x0D, 0x0A]"

definition parseStatusLine :: "bytes \<Rightarrow> (status \<times> bytes) http" where
  "parseStatusLine bs =
     (let e = ResponseError (str ''Invalid status line'')
      in and_then (parseHttpVersion bs) (\<lambda>(version, i).
         and_then (expect e 0x20 i) (\<lambda>i.
         and_then (parseStatusCode i) (\<lambda>(code, i).
         and_then (expect e 0x20 i) (\<lambda>i.
         let (phrase, i) = parseReasonPhrase i
         in and_then (expect_all e crlf i) (\<lambda>i.
              Inr (\<lparr>http_version = version, status_code = code, reason = phrase\<rparr>, i)))))))"

section \<open>Header fields\<close>

type_synonym header_field = "bytes \<times> bytes"

definition parseToken :: "bytes \<Rightarrow> (bytes \<times> bytes) http" where
  "parseToken bs =
     (let result = takeWhile isTokenChar bs
      in if result = [] then Inl (ResponseError (str ''Invalid token''))
         else Inr (result, dropWhile isTokenChar bs))"

definition trim_end :: "bytes \<Rightarrow> bytes" where
  "trim_end s = rev (dropWhile isWhiteSpaceChar (rev s))"

definition parseFieldValue :: "bytes \<Rightarrow> bytes \<times> bytes" where
  "parseFieldValue bs = (trim_end (takeWhile is_text_char bs), dropWhile is_text_char bs)"

text \<open>Obsolete folding: a line break that is followed by white space is one space.\<close>

fun obsolete_fold :: "bytes \<Rightarrow> bytes option" where
  "obsolete_fold (a # b # c # r) =
     (if a = 0x0D \<and> b = 0x0A \<and> isWhiteSpaceChar c then Some r else None)"
| "obsolete_fold _ = None"

lemma obsolete_fold_length: "obsolete_fold bs = Some r \<Longrightarrow> length r < length bs"
  by (induction bs rule: obsolete_fold.induct) (auto split: if_splits)

function parse_field_content_from :: "bytes \<Rightarrow> bytes \<Rightarrow> bytes \<times> bytes" where
  "parse_field_content_from result bs =
     (let (v, i) = parseFieldValue bs;
          result = result @ v
      in case obsolete_fold i of
           None \<Rightarrow> (result, i)
         | Some i \<Rightarrow> parse_field_content_from (result @ [0x20]) i)"
  by pat_completeness auto
termination
proof (relation "measure (\<lambda>(result, bs). length bs)")
  fix result bs p v i r j
  assume "p = parseFieldValue bs" and "(v, i) = p" and "r = result @ v" and "obsolete_fold i = Some j"
  then have "length j < length i" and "i = dropWhile is_text_char bs"
    by (auto dest: obsolete_fold_length simp: parseFieldValue_def)
  with length_dropWhile_le [of is_text_char bs] have "length j < length bs" by simp
  then show "((r @ [0x20], j), result, bs) \<in> measure (\<lambda>(result, bs). length bs)" by simp
qed simp

declare parse_field_content_from.simps [simp del]

definition parseFieldContent :: "bytes \<Rightarrow> bytes \<times> bytes" where
  "parseFieldContent bs = parse_field_content_from [] bs"

definition parseHeaderField :: "bytes \<Rightarrow> (header_field \<times> bytes) http" where
  "parseHeaderField bs =
     (let e = ResponseError (str ''Invalid header'')
      in and_then (parseToken bs) (\<lambda>(name, i).
         and_then (expect e (of_char CHR '':'') i) (\<lambda>i.
         let (v, i) = parseFieldContent (skipWhiteSpaces i)
         in and_then (expect_all e crlf i) (\<lambda>i. Inr ((name, v), i)))))"

end
