(* ===== verification/Http_Socket.thy ===== *)
theory Http_Socket
  imports Http_Parse "HOL-Library.Signed_Division"
begin

text \<open>
  The class \<^verbatim>\<open>Socket\<close> of \<^verbatim>\<open>httprequest.hpp\<close> on a POSIX system. What the operating system
  answers is data of the state \<open>os\<close>: for every system call the list of its results in the
  order of the calls. A call whose list is used up has not returned, and the result is
  \<open>None\<close>. The calls that have been made, those that are repeated after \<open>EINTR\<close> included, are
  recorded in \<open>trace\<close>, with the descriptor and the time-out they were given.
\<close>

section \<open>The operating system\<close>

datatype 'a sysret = Ret 'a | Fail errno

definition EINTR :: errno where
  "EINTR = 4"

definition EINPROGRESS :: errno where
  "EINPROGRESS = 115"

datatype internet_protocol = v4 | v6

definition AF_INET :: int where
  "AF_INET = 2"

definition AF_INET6 :: int where
  "AF_INET6 = 10"

definition getAddressFamily :: "internet_protocol \<Rightarrow> int" where
  "getAddressFamily p = (if p = v4 then AF_INET else AF_INET6)"

datatype select_type = SelectRead | SelectWrite

text \<open>\<^verbatim>\<open>timeval\<close>: seconds and microseconds.\<close>

type_synonym timeval = "int \<times> int"

text \<open>
  \<open>Clock\<close> is a reading of the steady clock in nanoseconds. \<open>Interrupted\<close> stands for the end of
  a \<^verbatim>\<open>select\<close> with \<open>EINTR\<close> and gives the microseconds that it has waited.
\<close>

datatype sys_call =
    Clock int
  | Get_addresses int
  | Free_addresses
  | Open_socket int int
  | Get_flags int
  | Set_flags int
  | Connect int
  | Get_error int
  | Select int select_type "timeval option"
  | Interrupted nat
  | Send int
  | Recv int
  | Close int

text \<open>
  \<open>slept\<close> is the time that a \<^verbatim>\<open>select\<close> waits before it is interrupted, by the number of answers
  that are left; \<open>left_time\<close> is what it then leaves in the \<^verbatim>\<open>timeval\<close> that it was given a
  pointer to.
\<close>

record os =
  address_infos :: "bytes \<Rightarrow> bytes \<Rightarrow> errno option"
  new_socket :: "nat sysret"
  get_flags :: "unit sysret"
  set_flags :: "unit sysret"
  close_result :: "unit sysret"
  connects :: "unit sysret list"
  so_error :: "errno sysret"
  selects :: "nat sysret list"
  slept :: "nat \<Rightarrow> nat"
  left_time :: "nat \<Rightarrow> timeval \<Rightarrow> timeval"
  sends :: "nat sysret list"
  recvs :: "bytes sysret list"
  clock :: "nat \<Rightarrow> int"
  readings :: nat
  sent :: bytes
  trace :: "sys_call list"

type_synonym 'a io = "('a http \<times> os) option"

definition record_call :: "sys_call \<Rightarrow> os \<Rightarrow> os" where
  "record_call c w = w\<lparr>trace := trace w @ [c]\<rparr>"

lemma record_call_simps [simp]:
  "address_infos (record_call c w) = address_infos w" "new_socket (record_call c w) = new_socket w"
  "get_flags (record_call c w) = get_flags w" "set_flags (record_call c w) = set_flags w"
  "close_result (record_call c w) = close_result w" "connects (record_call c w) = connects w"
  "so_error (record_call c w) = so_error w" "selects (record_call c w) = selects w"
  "sends (record_call c w) = sends w" "recvs (record_call c w) = recvs w"
  "clock (record_call c w) = clock w" "readings (record_call c w) = readings w"
  "sent (record_call c w) = sent w" "slept (record_call c w) = slept w"
  "left_time (record_call c w) = left_time w" "trace (record_call c w) = trace w @ [c]"
  by (simp_all add: record_call_def)

text \<open>\<^verbatim>\<open>while (result == -1 && errno == EINTR)\<close> the call again.\<close>

fun retry :: "sys_call \<Rightarrow> 'a sysret list \<Rightarrow> os \<Rightarrow> ('a sysret \<times> 'a sysret list \<times> os) option" where
  "retry c [] w = None"
| "retry c (Ret x # r) w = Some (Ret x, r, record_call c w)"
| "retry c (Fail e # r) w =
     (let w = record_call c w in if e = EINTR then retry c r w else Some (Fail e, r, w))"

text \<open>The next call after one that has returned, and what is done at the end of a scope.\<close>

definition io_bind :: "'a io \<Rightarrow> ('a \<Rightarrow> os \<Rightarrow> 'b io) \<Rightarrow> 'b io" where
  "io_bind m f =
     (case m of
        None \<Rightarrow> None
      | Some (Inl e, w) \<Rightarrow> Some (Inl e, w)
      | Some (Inr x, w) \<Rightarrow> f x w)"

definition at_exit :: "(os \<Rightarrow> os) \<Rightarrow> 'a io \<Rightarrow> 'a io" where
  "at_exit d m = map_option (map_prod id d) m"

section \<open>Time\<close>

definition steady_now :: "os \<Rightarrow> int \<times> os" where
  "steady_now w =
     (let t = clock w (readings w) in (t, record_call (Clock t) (w\<lparr>readings := Suc (readings w)\<rparr>)))"

text \<open>A duration of the clock in whole milliseconds; \<^verbatim>\<open>duration_cast\<close> cuts off.\<close>

definition NS_PER_MS :: int where
  "NS_PER_MS = 1000000"

definition getRemainingMilliseconds :: "int \<Rightarrow> os \<Rightarrow> int \<times> os" where
  "getRemainingMilliseconds time w =
     (let (now, w) = steady_now w;
          remainingTime = (time - now) sdiv NS_PER_MS
      in (if remainingTime > 0 then remainingTime else 0, w))"

text \<open>The parameter \<^verbatim>\<open>timeout\<close> of a request in milliseconds, and \<^verbatim>\<open>stopTime\<close>.\<close>

record deadline =
  timeout :: int
  stopTime :: int

definition remaining_or_none :: "deadline \<Rightarrow> os \<Rightarrow> int \<times> os" where
  "remaining_or_none dl w = (if timeout dl \<ge> 0 then getRemainingMilliseconds (stopTime dl) w else (- 1, w))"

definition select_timeout :: "int \<Rightarrow> timeval option" where
  "select_timeout tmo = (if tmo \<ge> 0 then Some (tmo sdiv 1000, (tmo smod 1000) * 1000) else None)"

section \<open>The class Socket\<close>

record socket =
  endpoint :: int

definition invalid :: int where
  "invalid = - 1"

definition socket_close :: "socket \<Rightarrow> os \<Rightarrow> os" where
  "socket_close sk w = record_call (Close (endpoint sk)) w"

text \<open>
  The constructor. The exceptions after a failed \<^verbatim>\<open>fcntl\<close> carry the \<^verbatim>\<open>errno\<close> that is set when
  they are made, after the descriptor has been closed.
\<close>

definition errno_after_close :: "errno \<Rightarrow> os \<Rightarrow> errno" where
  "errno_after_close e w = (case close_result w of Ret _ \<Rightarrow> e | Fail e' \<Rightarrow> e')"

definition set_nonblocking :: "socket \<Rightarrow> os \<Rightarrow> socket io" where
  "set_nonblocking sk w =
     (let w = record_call (Get_flags (endpoint sk)) w
      in case get_flags w of
           Fail e \<Rightarrow>
             Some (Inl (SystemError (errno_after_close e w) (str ''Failed to get socket flags'')), socket_close sk w)
         | Ret _ \<Rightarrow>
             (let w = record_call (Set_flags (endpoint sk)) w
              in case set_flags w of
                   Fail e \<Rightarrow>
                     Some (Inl (SystemError (errno_after_close e w) (str ''Failed to set socket flags'')),
                       socket_close sk w)
                 | Ret _ \<Rightarrow> Some (Inr sk, w)))"

definition Socket :: "internet_protocol \<Rightarrow> os \<Rightarrow> socket io" where
  "Socket p w =
     (let family = getAddressFamily p
      in case new_socket w of
           Fail e \<Rightarrow> Some (Inl (SystemError e (str ''Failed to create socket'')), w)
         | Ret fd \<Rightarrow> set_nonblocking \<lparr>endpoint = int fd\<rparr> (record_call (Open_socket family (int fd)) w))"

definition destroy_socket :: "socket \<Rightarrow> os \<Rightarrow> os" where
  "destroy_socket sk w = (if endpoint sk \<noteq> invalid then socket_close sk w else w)"

text \<open>
  \<^verbatim>\<open>select\<close> is repeated without another look at the clock and with the same
  \<^verbatim>\<open>timeval\<close> object, which holds what the interrupted call has left in it:
  \<open>left_time\<close> is the operating system's choice.
\<close>

fun select_retry :: "int \<Rightarrow> select_type \<Rightarrow> timeval option \<Rightarrow> nat sysret list \<Rightarrow> os \<Rightarrow>
    (nat sysret \<times> nat sysret list \<times> os) option" where
  "select_retry fd ty tv [] w = None"
| "select_retry fd ty tv (Ret count # r) w = Some (Ret count, r, record_call (Select fd ty tv) w)"
| "select_retry fd ty tv (Fail e # r) w =
     (let w = record_call (Select fd ty tv) w
      in if e = EINTR then
           (let d = slept w (length r)
            in select_retry fd ty (map_option (left_time w d) tv) r (record_call (Interrupted d) w))
         else Some (Fail e, r, w))"

definition socket_select :: "socket \<Rightarrow> select_type \<Rightarrow> int \<Rightarrow> os \<Rightarrow> unit io" where
  "socket_select sk ty tmo w =
     (case select_retry (endpoint sk) ty (select_timeout tmo) (selects w) w of
        None \<Rightarrow> None
      | Some (Fail e, r, w) \<Rightarrow> Some (Inl (SystemError e (str ''Failed to select socket'')), w\<lparr>selects := r\<rparr>)
      | Some (Ret count, r, w) \<Rightarrow>
          Some (if count = 0 then Inl (ResponseError (str ''Request timed out'')) else Inr (),
                w\<lparr>selects := r\<rparr>))"

text \<open>\<^verbatim>\<open>getsockopt\<close> after a connection attempt that was in progress.\<close>

definition connect_result :: "os \<Rightarrow> unit http" where
  "connect_result w =
     (case so_error w of
        Fail e \<Rightarrow> Inl (SystemError e (str ''Failed to get socket option''))
      | Ret e \<Rightarrow> if e \<noteq> 0 then Inl (SystemError e (str ''Failed to connect'')) else Inr ())"

definition socket_connect :: "socket \<Rightarrow> int \<Rightarrow> os \<Rightarrow> unit io" where
  "socket_connect sk tmo w =
     (case retry (Connect (endpoint sk)) (connects w) w of
        None \<Rightarrow> None
      | Some (Ret _, r, w) \<Rightarrow> Some (Inr (), w\<lparr>connects := r\<rparr>)
      | Some (Fail e, r, w) \<Rightarrow>
          if e = EINPROGRESS then
            io_bind (socket_select sk SelectWrite tmo (w\<lparr>connects := r\<rparr>)) (\<lambda>_ w.
              Some (connect_result w, record_call (Get_error (endpoint sk)) w))
          else Some (Inl (SystemError e (str ''Failed to connect'')), w\<lparr>connects := r\<rparr>))"

definition socket_send :: "socket \<Rightarrow> bytes \<Rightarrow> int \<Rightarrow> os \<Rightarrow> nat io" where
  "socket_send sk dat tmo w =
     io_bind (socket_select sk SelectWrite tmo w) (\<lambda>_ w.
       case retry (Send (endpoint sk)) (sends w) w of
         None \<Rightarrow> None
       | Some (Fail e, r, w) \<Rightarrow> Some (Inl (SystemError e (str ''Failed to send data'')), w\<lparr>sends := r\<rparr>)
       | Some (Ret n, r, w) \<Rightarrow> Some (Inr n, w\<lparr>sends := r, sent := sent w @ take n dat\<rparr>))"

definition socket_recv :: "socket \<Rightarrow> int \<Rightarrow> os \<Rightarrow> bytes io" where
  "socket_recv sk tmo w =
     io_bind (socket_select sk SelectRead tmo w) (\<lambda>_ w.
       case retry (Recv (endpoint sk)) (recvs w) w of
         None \<Rightarrow> None
       | Some (Fail e, r, w) \<Rightarrow>
           Some (Inl (SystemError e (str ''Failed to handle_message data'')), w\<lparr>recvs := r\<rparr>)
       | Some (Ret seg, r, w) \<Rightarrow> Some (Inr seg, w\<lparr>recvs := r\<rparr>))"

text \<open>
  The argument \<^verbatim>\<open>(timeout.count() >= 0) ? getRemainingMilliseconds(stopTime) : -1\<close> of the three
  calls in \<^verbatim>\<open>Request::send\<close> is evaluated first.
\<close>

definition connect_by :: "deadline \<Rightarrow> socket \<Rightarrow> os \<Rightarrow> unit io" where
  "connect_by dl sk w = (let (tmo, w) = remaining_or_none dl w in socket_connect sk tmo w)"

definition send_by :: "deadline \<Rightarrow> socket \<Rightarrow> bytes \<Rightarrow> os \<Rightarrow> nat io" where
  "send_by dl sk dat w = (let (tmo, w) = remaining_or_none dl w in socket_send sk dat tmo w)"

definition recv_by :: "deadline \<Rightarrow> socket \<Rightarrow> os \<Rightarrow> bytes io" where
  "recv_by dl sk w = (let (tmo, w) = remaining_or_none dl w in socket_recv sk tmo w)"

section \<open>What the calls change\<close>

lemma io_bind_step: "io_bind (Some (Inr x, w)) f = f x w"
  by (simp add: io_bind_def)

lemma io_bind_Inr:
  "io_bind m f = Some (Inr y, w') \<longleftrightarrow> (\<exists>x w. m = Some (Inr x, w) \<and> f x w = Some (Inr y, w'))"
  by (auto simp: io_bind_def split: option.splits sum.splits)

lemma io_bind_Some:
  "io_bind m f = Some (r, w') \<longleftrightarrow>
    (\<exists>e. m = Some (Inl e, w') \<and> r = Inl e) \<or> (\<exists>x w. m = Some (Inr x, w) \<and> f x w = Some (r, w'))"
  by (auto simp: io_bind_def split: option.splits sum.splits)

lemma at_exit_Some [simp]: "at_exit d m = Some (r, w') \<longleftrightarrow> (\<exists>w. m = Some (r, w) \<and> w' = d w)"
  by (auto simp: at_exit_def)

text \<open>The fields that none of the calls on the clock and none of the waits change.\<close>

definition same_data :: "os \<Rightarrow> os \<Rightarrow> bool" where
  "same_data w w' \<longleftrightarrow>
     recvs w' = recvs w \<and> sends w' = sends w \<and> sent w' = sent w \<and> connects w' = connects w"

lemma remaining_or_none_frame:
  "remaining_or_none dl w = (tmo, w') \<Longrightarrow> same_data w w' \<and> selects w' = selects w"
  by (auto simp: remaining_or_none_def getRemainingMilliseconds_def steady_now_def Let_def same_data_def
      split: if_splits)

lemma retry_frame:
  "retry c rs w = Some (x, r, w') \<Longrightarrow>
    length r < length rs \<and> same_data w w' \<and> selects w' = selects w \<and> left_time w' = left_time w \<and>
    (\<exists>n. trace w' = trace w @ replicate n c)"
proof (induction c rs w rule: retry.induct)
  case (3 c e rs w)
  then show ?case
  proof (cases "e = EINTR")
    case True
    with 3 obtain n where "length r < length rs" "same_data (record_call c w) w'" "selects w' = selects w"
      "left_time w' = left_time w" "trace w' = trace (record_call c w) @ replicate n c" by auto
    then show ?thesis by (auto simp: same_data_def intro!: exI [of _ "Suc n"])
  qed (auto simp: same_data_def intro!: exI [of _ "Suc 0"])
qed (auto simp: same_data_def intro!: exI [of _ "Suc 0"])

lemma select_retry_frame: "select_retry fd ty tv rs w = Some (x, r, w') \<Longrightarrow> same_data w w'"
  by (induction fd ty tv rs w rule: select_retry.induct)
    (auto simp: same_data_def Let_def split: if_splits)

lemma socket_select_frame: "socket_select sk ty tmo w = Some (r, w') \<Longrightarrow> same_data w w'"
  by (auto simp: socket_select_def same_data_def split: option.splits sysret.splits dest!: select_retry_frame)

lemma recv_by_Inr:
  "recv_by dl sk w = Some (Inr seg, w') \<longleftrightarrow>
    (\<exists>tmo w0 w1 w2 r. remaining_or_none dl w = (tmo, w0) \<and> socket_select sk SelectRead tmo w0 = Some (Inr (), w1) \<and>
      retry (Recv (endpoint sk)) (recvs w1) w1 = Some (Ret seg, r, w2) \<and> w' = w2\<lparr>recvs := r\<rparr>)"
  by (cases "remaining_or_none dl w")
    (auto simp: recv_by_def socket_recv_def io_bind_def Let_def split: option.split sum.split prod.split sysret.split)

lemma send_by_Inr:
  "send_by dl sk dat w = Some (Inr n, w') \<longleftrightarrow>
    (\<exists>tmo w0 w1 w2 r. remaining_or_none dl w = (tmo, w0) \<and> socket_select sk SelectWrite tmo w0 = Some (Inr (), w1) \<and>
      retry (Send (endpoint sk)) (sends w1) w1 = Some (Ret n, r, w2) \<and>
      w' = w2\<lparr>sends := r, sent := sent w2 @ take n dat\<rparr>)"
  by (cases "remaining_or_none dl w")
    (auto simp: send_by_def socket_send_def io_bind_def Let_def split: option.split sum.split prod.split sysret.split)

lemma recv_by_length: "recv_by dl sk w = Some (Inr seg, w') \<Longrightarrow> length (recvs w') < length (recvs w)"
  by (auto simp: recv_by_Inr same_data_def
      dest!: remaining_or_none_frame socket_select_frame retry_frame)

lemma send_by_length: "send_by dl sk dat w = Some (Inr n, w') \<Longrightarrow> length (sends w') < length (sends w)"
  by (auto simp: send_by_Inr same_data_def
      dest!: remaining_or_none_frame socket_select_frame retry_frame)

end
