(* ===== verification/Http_Client.thy ===== *)
theory Http_Client
  imports Http_Socket
begin

text \<open>
  The client of \<^verbatim>\<open>httprequest.hpp\<close>: the encoders of a request, the loop over the received
  segments, and \<^verbatim>\<open>Request::send\<close>.
\<close>

section \<open>Encoding a request\<close>

definition encodeRequestLine :: "bytes \<Rightarrow> bytes \<Rightarrow> bytes" where
  "encodeRequestLine method target = method @ str '' '' @ target @ str '' HTTP/1.1'' @ crlf"

definition encode_field :: "header_field \<Rightarrow> bytes" where
  "encode_field f = fst f @ str '': '' @ snd f @ crlf"

fun encodeHeaderFields :: "header_field list \<Rightarrow> bytes http" where
  "encodeHeaderFields [] = Inr []"
| "encodeHeaderFields (f # fs) =
     (if fst f = [] then Inl (RequestError (str ''Invalid header field name''))
      else if \<not> list_all isTokenChar (fst f)
      then Inl (RequestError (str ''Invalid header field name''))
      else if \<not> list_all is_text_char (snd f)
      then Inl (RequestError (str ''Invalid header field value''))
      else and_then (encodeHeaderFields fs) (\<lambda>r. Inr (encode_field f @ r)))"

text \<open>
  Base 64. \<^verbatim>\<open>charArray\<close> is the list of the bytes that have been written to it since the last
  group of three.
\<close>

definition base64_chars :: bytes where
  "base64_chars = str ''ABCDEFGHIJKLMNOPQRSTUVWXYZabcdefghijklmnopqrstuvwxyz0123456789+/''"

definition base64_char :: "byte \<Rightarrow> byte" where
  "base64_char w = base64_chars ! unat w"

definition base64_group :: "byte \<Rightarrow> byte \<Rightarrow> byte \<Rightarrow> bytes" where
  "base64_group x y z =
     [base64_char (drop_bit 2 (x AND 0xFC)),
      base64_char (push_bit 4 (x AND 0x03) + drop_bit 4 (y AND 0xF0)),
      base64_char (push_bit 2 (y AND 0x0F) + drop_bit 6 (z AND 0xC0)),
      base64_char (z AND 0x3F)]"

definition base64_tail :: "bytes \<Rightarrow> bytes" where
  "base64_tail arr =
     (if arr = [] then []
      else
        [base64_char (drop_bit 2 (arr ! 0 AND 0xFC))] @
        (if length arr = 1 then [base64_char (push_bit 4 (arr ! 0 AND 0x03))]
         else
           [base64_char (push_bit 4 (arr ! 0 AND 0x03) + drop_bit 4 (arr ! 1 AND 0xF0)),
            base64_char (push_bit 2 (arr ! 1 AND 0x0F))]) @
        replicate (3 - length arr) (of_char CHR ''=''))"

fun base64_from :: "bytes \<Rightarrow> bytes \<Rightarrow> bytes" where
  "base64_from arr [] = base64_tail arr"
| "base64_from arr (b # bs) =
     (let arr = arr @ [b]
      in if length arr = 3 then base64_group (arr ! 0) (arr ! 1) (arr ! 2) @ base64_from [] bs
         else base64_from arr bs)"

definition encodeBase64 :: "bytes \<Rightarrow> bytes" where
  "encodeBase64 bs = base64_from [] bs"

definition only_http :: http_exn where
  "only_http = RequestError (str ''Only HTTP scheme is supported'')"

definition request_target :: "uri \<Rightarrow> bytes" where
  "request_target u = uri_path u @ (if uri_query u = [] then [] else of_char CHR ''?'' # uri_query u)"

definition all_fields :: "uri \<Rightarrow> bytes \<Rightarrow> header_field list \<Rightarrow> header_field list" where
  "all_fields u body hs =
     hs @ [(str ''Host'', uri_host u), (str ''Content-Length'', decimal (length body))] @
     (if uri_user u \<noteq> [] \<or> uri_password u \<noteq> []
      then [(str ''Authorization'',
             str ''Basic '' @ encodeBase64 (uri_user u @ of_char CHR '':'' # uri_password u))]
      else [])"

definition encodeHtml :: "uri \<Rightarrow> bytes \<Rightarrow> bytes \<Rightarrow> header_field list \<Rightarrow> bytes http" where
  "encodeHtml u method body hs =
     (if uri_scheme u \<noteq> str ''http'' then Inl only_http
      else
        and_then (encodeHeaderFields (all_fields u body hs)) (\<lambda>r.
          Inr (encodeRequestLine method (request_target u) @ r @ crlf @ body)))"

section \<open>Receiving the response\<close>

record response =
  resp_status :: status
  resp_headers :: "header_field list"
  resp_body :: bytes

text \<open>The locals of \<^verbatim>\<open>Request::send\<close> that the loop over the received segments keeps.\<close>

record recv_state =
  responseData :: bytes
  parsingBody :: bool
  contentLengthReceived :: bool
  contentLength :: u64
  chunkedResponse :: bool
  expectedChunkSize :: u64
  removeCrlfAfterChunk :: bool
  response :: response

text \<open>The size of such a state is the data it has not looked at: the chunk loop consumes it.\<close>

instantiation recv_state_ext :: (type) size
begin

definition size_recv_state_ext :: "'a recv_state_ext \<Rightarrow> nat" where
  "size_recv_state_ext s = length (responseData s)"

instance ..

end

text \<open>\<^verbatim>\<open>HttpVersion\<close> and the code of a default-constructed \<^verbatim>\<open>Status\<close> are uninitialised: \<open>junk\<close>.\<close>

definition initial_state :: "http_version \<times> u16 \<Rightarrow> recv_state" where
  "initial_state junk =
     \<lparr>responseData = [], parsingBody = False, contentLengthReceived = False, contentLength = 0,
      chunkedResponse = False, expectedChunkSize = 0, removeCrlfAfterChunk = False,
      response = \<lparr>resp_status = \<lparr>http_version = fst junk, status_code = snd junk, reason = []\<rparr>,
        resp_headers = [], resp_body = []\<rparr>\<rparr>"

definition toLower :: "byte \<Rightarrow> byte" where
  "toLower c = (if of_char CHR ''A'' \<le> c \<and> c \<le> of_char CHR ''Z'' then c + 32 else c)"

text \<open>\<^verbatim>\<open>vector::reserve\<close> throws when it is asked for more than \<^verbatim>\<open>max_size()\<close>.\<close>

definition max_size :: u64 where
  "max_size = 2 ^ 63 - 1"

definition use_field :: "header_field \<Rightarrow> recv_state \<Rightarrow> recv_state http" where
  "use_field f s =
     (if fst f = str ''transfer-encoding'' then
        (if snd f = str ''chunked'' then Inr (s\<lparr>chunkedResponse := True\<rparr>)
         else Inl (ResponseError (str ''Unsupported transfer encoding: '' @ snd f)))
      else if fst f = str ''content-length'' then
        and_then (stringToUint (snd f)) (\<lambda>n.
          if n > max_size then Inl LengthError
          else Inr (s\<lparr>contentLength := n, contentLengthReceived := True\<rparr>))
      else Inr s)"

definition push_field :: "header_field \<Rightarrow> recv_state \<Rightarrow> recv_state" where
  "push_field f s =
     s\<lparr>response := (response s)\<lparr>resp_headers := resp_headers (response s) @ [f]\<rparr>\<rparr>"

lemma parse_field_content_length: "length (snd (parse_field_content_from r bs)) \<le> length bs"
proof (induction r bs rule: parse_field_content_from.induct)
  case (1 r bs)
  let ?v = "trim_end (takeWhile is_text_char bs)" and ?i = "dropWhile is_text_char bs"
  have le: "length ?i \<le> length bs" by (rule length_dropWhile_le)
  show ?case
  proof (cases "obsolete_fold ?i")
    case None
    with le show ?thesis by (subst parse_field_content_from.simps) (simp add: parseFieldValue_def)
  next
    case (Some j)
    from 1 [OF refl _ refl Some] have "length (snd (parse_field_content_from ((r @ ?v) @ [0x20]) j)) \<le> length j"
      by (simp add: parseFieldValue_def)
    with le obsolete_fold_length [OF Some] Some show ?thesis
      by (subst parse_field_content_from.simps) (simp add: parseFieldValue_def)
  qed
qed

lemma expect_length: "expect e c bs = Inr r \<Longrightarrow> length bs = Suc (length r)"
  by (auto simp: expect_def split: list.splits if_splits)

lemma expect_all_length: "expect_all e cs bs = Inr r \<Longrightarrow> length bs = length cs + length r"
  by (induction cs arbitrary: bs) (auto simp: and_then_Inr dest: expect_length)

lemma parseHeaderField_length:
  assumes "parseHeaderField bs = Inr (f, r)"
  shows "length r < length bs"
proof -
  let ?i = "dropWhile isTokenChar bs"
  have "length ?i \<le> length bs" by (rule length_dropWhile_le)
  moreover obtain i where i: "expect (ResponseError (str ''Invalid header'')) (of_char CHR '':'') ?i = Inr i"
    and r: "expect_all (ResponseError (str ''Invalid header'')) crlf
      (snd (parseFieldContent (skipWhiteSpaces i))) = Inr r"
    using assms
    by (cases "parseFieldContent (skipWhiteSpaces (tl ?i))")
      (auto simp: parseHeaderField_def parseToken_def Let_def and_then_Inr expect_def
        split: if_split_asm list.split_asm)
  moreover have "length (snd (parseFieldContent (skipWhiteSpaces i))) \<le> length i"
    using parse_field_content_length [of "[]" "skipWhiteSpaces i"]
      length_dropWhile_le [of isWhiteSpaceChar i]
    by (simp add: parseFieldContent_def skipWhiteSpaces_def)
  ultimately show ?thesis using expect_length [OF i] expect_all_length [OF r] by simp
qed

function parse_header_fields :: "bytes \<Rightarrow> recv_state \<Rightarrow> recv_state http" where
  "parse_header_fields i s =
     (case parseHeaderField i of
        Inl e \<Rightarrow> Inl e
      | Inr (f, i) \<Rightarrow>
          (let f = (map toLower (fst f), snd f)
           in case use_field f s of
                Inl e \<Rightarrow> Inl e
              | Inr s \<Rightarrow>
                  (let s = push_field f s
                   in if i = [] then Inr s else parse_header_fields i s)))"
  by pat_completeness auto
termination
  by (relation "measure (\<lambda>(i, s). length i)") (auto dest: parseHeaderField_length)

declare parse_header_fields.simps [simp del]

text \<open>\<open>None\<close>: two consecutive line ends have not been found.\<close>

definition parse_head :: "recv_state \<Rightarrow> recv_state option http" where
  "parse_head s =
     (case find_sub (crlf @ crlf) (responseData s) of
        None \<Rightarrow> Inr None
      | Some n \<Rightarrow>
          and_then (parseStatusLine (take (n + 2) (responseData s))) (\<lambda>(st, i).
          and_then (parse_header_fields i (s\<lparr>response := (response s)\<lparr>resp_status := st\<rparr>\<rparr>)) (\<lambda>s.
          Inr (Some (s\<lparr>responseData := drop (n + 4) (responseData s), parsingBody := True\<rparr>)))))"

text \<open>
  The loop over chunks: it returns the response (\<open>Inl\<close>) or needs more data (\<open>Inr\<close>).
\<close>

definition take_chunk :: "recv_state \<Rightarrow> recv_state" where
  "take_chunk s =
     (let toWrite = min (unat (expectedChunkSize s)) (length (responseData s));
          left = expectedChunkSize s - word_of_nat toWrite
      in s\<lparr>response := (response s)\<lparr>resp_body := resp_body (response s) @ take toWrite (responseData s)\<rparr>,
           responseData := drop toWrite (responseData s),
           expectedChunkSize := left,
           removeCrlfAfterChunk := (if left = 0 then True else removeCrlfAfterChunk s)\<rparr>)"

definition remove_crlf :: "recv_state \<Rightarrow> recv_state option http" where
  "remove_crlf s =
     (if removeCrlfAfterChunk s then
        (if length (responseData s) < 2 then Inr None
         else if take 2 (responseData s) \<noteq> crlf then Inl (ResponseError (str ''Invalid chunk''))
         else Inr (Some (s\<lparr>removeCrlfAfterChunk := False, responseData := drop 2 (responseData s)\<rparr>)))
      else Inr (Some s))"

definition chunk_size :: "recv_state \<Rightarrow> recv_state option http" where
  "chunk_size s =
     (case find_sub crlf (responseData s) of
        None \<Rightarrow> Inr None
      | Some n \<Rightarrow>
          and_then (hexStringToUint (take n (responseData s))) (\<lambda>size.
          Inr (Some (s\<lparr>expectedChunkSize := size, responseData := drop (n + 2) (responseData s)\<rparr>))))"

lemma chunk_size_length:
  "chunk_size s = Inr (Some s') \<Longrightarrow> size s' < size s"
  by (auto simp: size_recv_state_ext_def chunk_size_def crlf_def and_then_Inr split: option.splits dest!: find_sub_Some)

lemma remove_crlf_length:
  "remove_crlf s = Inr (Some s') \<Longrightarrow> size s' \<le> size s"
  by (auto simp: size_recv_state_ext_def remove_crlf_def split: if_splits)

lemma take_chunk_length:
  "0 < expectedChunkSize s \<Longrightarrow> responseData (take_chunk s) \<noteq> [] \<Longrightarrow>
    size (take_chunk s) < size s"
  by (auto simp: size_recv_state_ext_def take_chunk_def Let_def word_gt_0 unat_gt_0 intro!: diff_less)

function chunk_loop :: "recv_state \<Rightarrow> (response + recv_state) http" where
  "chunk_loop s =
     (if expectedChunkSize s > 0 then
        (let s = take_chunk s
         in if responseData s = [] then Inr (Inr s) else chunk_loop s)
      else
        (case remove_crlf s of
           Inl e \<Rightarrow> Inl e
         | Inr None \<Rightarrow> Inr (Inr s)
         | Inr (Some s) \<Rightarrow>
             (case chunk_size s of
                Inl e \<Rightarrow> Inl e
              | Inr None \<Rightarrow> Inr (Inr s)
              | Inr (Some s) \<Rightarrow>
                  if expectedChunkSize s = 0 then Inr (Inl (response s)) else chunk_loop s)))"
  by pat_completeness auto
termination
  by (relation "measure size") (auto dest!: chunk_size_length remove_crlf_length simp: take_chunk_length)

declare chunk_loop.simps [simp del]

definition identity_body :: "recv_state \<Rightarrow> (response + recv_state) http" where
  "identity_body s =
     (let r = (response s)\<lparr>resp_body := resp_body (response s) @ responseData s\<rparr>;
          s = s\<lparr>response := r, responseData := []\<rparr>
      in if contentLengthReceived s \<and> unat (contentLength s) \<le> length (resp_body r)
         then Inr (Inl r) else Inr (Inr s))"

definition body_step :: "recv_state \<Rightarrow> (response + recv_state) http" where
  "body_step s = (if chunkedResponse s then chunk_loop s else identity_body s)"

text \<open>One received segment; \<^verbatim>\<open>break\<close> out of the loop returns the response as it is.\<close>

definition segment_step :: "bytes \<Rightarrow> recv_state \<Rightarrow> (response + recv_state) http" where
  "segment_step seg s =
     (let s = s\<lparr>responseData := responseData s @ seg\<rparr>
      in if parsingBody s then body_step s
         else and_then (parse_head s) (\<lambda>m. case m of None \<Rightarrow> Inr (Inl (response s)) | Some s \<Rightarrow> body_step s))"

section \<open>Request::send\<close>

function send_loop :: "deadline \<Rightarrow> socket \<Rightarrow> bytes \<Rightarrow> os \<Rightarrow> unit io" where
  "send_loop dl sk dat w =
     (if dat = [] then Some (Inr (), w)
      else
        (case send_by dl sk dat w of
           None \<Rightarrow> None
         | Some (Inl e, w) \<Rightarrow> Some (Inl e, w)
         | Some (Inr n, w) \<Rightarrow> send_loop dl sk (drop n dat) w))"
  by pat_completeness auto
termination
  by (relation "measure (\<lambda>(dl, sk, dat, w). length (sends w))") (auto dest: send_by_length)

function recv_loop :: "deadline \<Rightarrow> socket \<Rightarrow> recv_state \<Rightarrow> os \<Rightarrow> response io" where
  "recv_loop dl sk s w =
     (case recv_by dl sk w of
        None \<Rightarrow> None
      | Some (Inl e, w) \<Rightarrow> Some (Inl e, w)
      | Some (Inr seg, w) \<Rightarrow>
          if seg = [] then Some (Inr (response s), w)
          else
            (case segment_step seg s of
               Inl e \<Rightarrow> Some (Inl e, w)
             | Inr (Inl r) \<Rightarrow> Some (Inr r, w)
             | Inr (Inr s) \<Rightarrow> recv_loop dl sk s w))"
  by pat_completeness auto
termination
  by (relation "measure (\<lambda>(dl, sk, s, w). length (recvs w))") (auto dest: recv_by_length)

declare send_loop.simps [simp del] recv_loop.simps [simp del]

text \<open>\<^verbatim>\<open>c_str()\<close> ends at the first zero character.\<close>

definition c_str :: "bytes \<Rightarrow> bytes" where
  "c_str s = takeWhile (\<lambda>c. c \<noteq> 0) s"

definition get_address :: "internet_protocol \<Rightarrow> uri \<Rightarrow> os \<Rightarrow> unit io" where
  "get_address p u w =
     (let port = (if uri_port u = [] then str ''80'' else c_str (uri_port u))
      in case address_infos w (c_str (uri_host u)) port of
           None \<Rightarrow> Some (Inr (), record_call (Get_addresses (getAddressFamily p)) w)
         | Some e \<Rightarrow> Some (Inl (SystemError e (str ''Failed to get address info of '' @ uri_host u)), w))"

text \<open>
  The call. The addresses and the socket are released at the end of their scopes, in the
  reverse order, whether the scope is left by a return or by an exception.
\<close>

definition make_deadline :: "int \<Rightarrow> os \<Rightarrow> deadline \<times> os" where
  "make_deadline tmo w =
     (let (t, w) = steady_now w in (\<lparr>timeout = tmo, stopTime = t + tmo * NS_PER_MS\<rparr>, w))"

definition exchange :: "http_version \<times> u16 \<Rightarrow> deadline \<Rightarrow> socket \<Rightarrow> bytes \<Rightarrow> os \<Rightarrow> response io" where
  "exchange junk dl sk request_data w =
     io_bind (connect_by dl sk w) (\<lambda>_ w.
     io_bind (send_loop dl sk request_data w) (\<lambda>_ w.
     recv_loop dl sk (initial_state junk) w))"

definition Request_send ::
    "http_version \<times> u16 \<Rightarrow> internet_protocol \<Rightarrow> uri \<Rightarrow> bytes \<Rightarrow> bytes \<Rightarrow> header_field list \<Rightarrow> int \<Rightarrow> os \<Rightarrow>
      response io" where
  "Request_send junk p u method body hs tmo w =
     (let (dl, w) = make_deadline tmo w
      in if uri_scheme u \<noteq> str ''http'' then Some (Inl only_http, w)
         else
           io_bind (get_address p u w) (\<lambda>_ w.
           at_exit (record_call Free_addresses)
             (io_bind (Some (encodeHtml u method body hs, w)) (\<lambda>request_data w.
              io_bind (Socket p w) (\<lambda>sk w.
              at_exit (destroy_socket sk) (exchange junk dl sk request_data w))))))"

text \<open>\<^verbatim>\<open>std::chrono::milliseconds{-1}\<close>, the default of \<^verbatim>\<open>timeout\<close>.\<close>

definition no_timeout :: int where
  "no_timeout = - 1"

text \<open>
  The constructor of \<^verbatim>\<open>Request\<close>, and the overload of \<^verbatim>\<open>send\<close> for a body that is a string, which
  copies its characters.
\<close>

type_synonym http_request = "internet_protocol \<times> uri"

definition Request :: "bytes \<Rightarrow> internet_protocol \<Rightarrow> http_request http" where
  "Request uri_string p = and_then (parseUri uri_string) (\<lambda>u. Inr (p, u))"

definition send_text ::
    "http_version \<times> u16 \<Rightarrow> http_request \<Rightarrow> bytes \<Rightarrow> bytes \<Rightarrow> header_field list \<Rightarrow> int \<Rightarrow> os \<Rightarrow> response io" where
  "send_text junk req method body hs tmo w = Request_send junk (fst req) (snd req) method body hs tmo w"

end
