(* ===== verification/Http_Correct.thy ===== *)
theory Http_Correct
  imports Http_Client Common
begin

text \<open>
  The client against the grammar of RFC 7230: what a server writes as status line, header
  fields, blank line and body is what \<open>recv_loop\<close> returns, for every way the bytes are cut
  into segments once the head has arrived.
\<close>

section \<open>Searching\<close>

lemma find_sub_bound: "find_sub pat s = Some n \<Longrightarrow> n + length pat \<le> length s"
  by (auto dest!: find_sub_Some)

lemma find_sub_append: "find_sub pat s = Some n \<Longrightarrow> find_sub pat (s @ x) = Some n"
proof (induction s arbitrary: n)
  case Nil
  then show ?case by (cases x) (auto split: if_splits)
next
  case (Cons c s)
  show ?case
  proof (cases "take (length pat) (c # s) = pat")
    case True
    then have "length pat \<le> length (c # s)" by (metis nat_le_linear take_all)
    then have "take (length pat) (c # s @ x) = take (length pat) (c # s)"
      by (simp flip: append_Cons)
    with True Cons.prems show ?thesis by simp
  next
    case False
    with Cons.prems obtain m where m: "find_sub pat s = Some m" "n = Suc m" by auto
    from find_sub_bound [OF m(1)] have "length pat \<le> length s" by simp
    then have "take (length pat) (c # s @ x) = take (length pat) (c # s)"
      by (simp flip: append_Cons)
    with False m Cons.IH [OF m(1)] show ?thesis by simp
  qed
qed

lemma find_sub_skip:
  assumes "c \<notin> set l"
  shows "find_sub (c # p) (l @ s) = map_option ((+) (length l)) (find_sub (c # p) s)"
  using assms
proof (induction l)
  case (Cons b l)
  then show ?case by (auto simp: option.map_comp comp_def)
qed (cases "find_sub (c # p) s"; simp)

section \<open>Chunks arrive in any segmentation\<close>

definition add_data :: "bytes \<Rightarrow> recv_state \<Rightarrow> recv_state" where
  "add_data x s = s\<lparr>responseData := responseData s @ x\<rparr>"

lemma add_data_simps [simp]:
  "responseData (add_data x s) = responseData s @ x"
  "expectedChunkSize (add_data x s) = expectedChunkSize s"
  "removeCrlfAfterChunk (add_data x s) = removeCrlfAfterChunk s"
  "chunkedResponse (add_data x s) = chunkedResponse s"
  "parsingBody (add_data x s) = parsingBody s"
  "response (add_data x s) = response s"
  "add_data y (add_data x s) = add_data (x @ y) s"
  "add_data [] s = s"
  by (simp_all add: add_data_def)

lemma unat_minus_min:
  "unat (n - word_of_nat (min (unat n) k)) = unat n - min (unat (n :: u64)) k"
proof -
  have le: "min (unat n) k \<le> unat n" by simp
  moreover have "unat n < 2 ^ 64"
    by (rule order_less_le_trans [OF unsigned_less]) simp
  ultimately have "unat (word_of_nat (min (unat n) k) :: u64) = min (unat n) k"
    by (simp add: unat_of_nat min_def)
  with le show ?thesis by (simp add: unat_sub word_le_nat_alt)
qed

lemma take_chunk_append:
  assumes "responseData (take_chunk s) \<noteq> [] \<or> unat (expectedChunkSize s) = length (responseData s)"
  shows "take_chunk (add_data x s) = add_data x (take_chunk s)"
proof -
  from assms have "unat (expectedChunkSize s) \<le> length (responseData s)"
    by (auto simp: take_chunk_def Let_def)
  then show ?thesis by (simp add: take_chunk_def add_data_def Let_def min_def)
qed

lemma take_chunk_twice:
  assumes "length (responseData s) < unat (expectedChunkSize s)"
  shows "take_chunk (add_data x s) = take_chunk (add_data x (take_chunk s))"
    and "0 < expectedChunkSize (take_chunk s)"
proof -
  let ?E = "expectedChunkSize s" and ?n = "length (responseData s)"
  have E: "unat (?E - word_of_nat ?n) = unat ?E - ?n"
    using unat_minus_min [of ?E ?n] assms by simp
  with assms have ne: "?E - word_of_nat ?n \<noteq> 0"
    by (metis unsigned_0 zero_less_diff less_irrefl)
  with assms show "0 < expectedChunkSize (take_chunk s)"
    by (simp add: take_chunk_def Let_def word_gt_0)
  have "min (unat ?E) (?n + length x) = ?n + min (unat ?E - ?n) (length x)"
    using assms by simp
  with ne show "take_chunk (add_data x s) = take_chunk (add_data x (take_chunk s))"
    using assms E by (simp add: take_chunk_def add_data_def Let_def algebra_simps)
qed

lemma remove_crlf_append:
  "remove_crlf s = Inr (Some s') \<Longrightarrow> remove_crlf (add_data x s) = Inr (Some (add_data x s'))"
  "remove_crlf s = Inl e \<Longrightarrow> remove_crlf (add_data x s) = Inl e"
  by (auto simp: remove_crlf_def add_data_def split: if_splits)

lemma chunk_size_append:
  "chunk_size s = Inr (Some s') \<Longrightarrow> chunk_size (add_data x s) = Inr (Some (add_data x s'))"
  "chunk_size s = Inl e \<Longrightarrow> chunk_size (add_data x s) = Inl e"
proof -
  have cut: "chunk_size (add_data x s) = and_then (hexStringToUint (take n (responseData s)))
      (\<lambda>size. Inr (Some (s\<lparr>expectedChunkSize := size, responseData := drop (n + 2) (responseData s) @ x\<rparr>)))"
    if n: "find_sub crlf (responseData s) = Some n" for n
    using find_sub_append [OF n, of x] find_sub_bound [OF n]
    by (simp add: chunk_size_def add_data_def crlf_def)
  show "chunk_size s = Inr (Some s') \<Longrightarrow> chunk_size (add_data x s) = Inr (Some (add_data x s'))"
    by (auto simp: cut chunk_size_def [of s] and_then_Inr split: option.splits) (simp add: add_data_def)
  show "chunk_size s = Inl e \<Longrightarrow> chunk_size (add_data x s) = Inl e"
    by (auto simp: cut chunk_size_def [of s] and_then_def split: option.splits sum.splits)
qed


text \<open>
  The loop that is given more data later does what it would have done with all the data at
  once: errors and a finished response stay, an unfinished state goes on from where it was.
\<close>

lemma chunk_loop_body:
  "0 < expectedChunkSize s \<Longrightarrow> chunk_loop s =
    (if responseData (take_chunk s) = [] then Inr (Inr (take_chunk s)) else chunk_loop (take_chunk s))"
  by (subst chunk_loop.simps) (simp add: Let_def)

lemma chunk_loop_size:
  "expectedChunkSize s = 0 \<Longrightarrow> chunk_loop s =
    (case remove_crlf s of
       Inl e \<Rightarrow> Inl e
     | Inr None \<Rightarrow> Inr (Inr s)
     | Inr (Some s) \<Rightarrow>
         (case chunk_size s of
            Inl e \<Rightarrow> Inl e
          | Inr None \<Rightarrow> Inr (Inr s)
          | Inr (Some s) \<Rightarrow>
              if expectedChunkSize s = 0 then Inr (Inl (response s)) else chunk_loop s))"
  by (subst chunk_loop.simps) simp

lemma remove_crlf_Some:
  "remove_crlf s = Inr (Some s') \<Longrightarrow> remove_crlf s' = Inr (Some s') \<and> expectedChunkSize s' = expectedChunkSize s"
  by (auto simp: remove_crlf_def split: if_splits)

lemma chunk_loop_removed:
  "remove_crlf s = Inr (Some s') \<Longrightarrow> expectedChunkSize s = 0 \<Longrightarrow> chunk_loop s = chunk_loop s'"
  by (frule remove_crlf_Some) (simp add: chunk_loop_size)

definition resume :: "bytes \<Rightarrow> (response + recv_state) http \<Rightarrow> (response + recv_state) http" where
  "resume x r =
     (case r of Inl e \<Rightarrow> Inl e | Inr (Inl rs) \<Rightarrow> Inr (Inl rs) | Inr (Inr s) \<Rightarrow> chunk_loop (add_data x s))"

lemma resume_simps [simp]:
  "resume x (Inl e) = Inl e"
  "resume x (Inr (Inl rs)) = Inr (Inl rs)"
  "resume x (Inr (Inr s)) = chunk_loop (add_data x s)"
  by (simp_all add: resume_def)

lemma chunk_body_append:
  assumes E: "0 < expectedChunkSize s" and empty: "responseData (take_chunk s) = []"
  shows "chunk_loop (add_data x s) = chunk_loop (add_data x (take_chunk s))"
proof (cases "unat (expectedChunkSize s) = length (responseData s)")
  case True
  let ?t = "take_chunk s"
  have t: "take_chunk (add_data x s) = add_data x ?t" using True by (intro take_chunk_append) simp
  have fin: "expectedChunkSize ?t = 0" "removeCrlfAfterChunk ?t"
    using True by (auto simp: take_chunk_def Let_def simp flip: True)
  show ?thesis
  proof (cases "x = []")
    case True
    with E empty fin show ?thesis
      by (simp add: chunk_loop_body) (simp add: chunk_loop_size remove_crlf_def)
  next
    case False
    with E show ?thesis by (subst chunk_loop_body) (simp_all add: t)
  qed
next
  case False
  with empty have "length (responseData s) < unat (expectedChunkSize s)"
    by (auto simp: take_chunk_def Let_def)
  note twice = take_chunk_twice(1) [OF this, of x] take_chunk_twice(2) [OF this]
  from E twice show ?thesis by (simp add: chunk_loop_body)
qed

lemma chunk_loop_append: "chunk_loop (add_data x s) = resume x (chunk_loop s)"
proof (induction s rule: chunk_loop.induct)
  case (1 s)
  show ?case
  proof (cases "0 < expectedChunkSize s")
    case E: True
    let ?t = "take_chunk s"
    show ?thesis
    proof (cases "responseData ?t = []")
      case True
      with E chunk_body_append [OF E True] show ?thesis by (simp add: chunk_loop_body [of s])
    next
      case False
      then have "take_chunk (add_data x s) = add_data x ?t" by (intro take_chunk_append) simp
      with E False 1(1) [OF E refl False] show ?thesis by (simp add: chunk_loop_body)
    qed
  next
    case E: False
    then have zero: "expectedChunkSize s = 0" by (simp add: word_gt_0)
    consider (err) e where "remove_crlf s = Inl e" | (wait) "remove_crlf s = Inr None"
      | (ok) t where "remove_crlf s = Inr (Some t)"
      by (metis sum.exhaust option.exhaust)
    then show ?thesis
    proof cases
      case (err e)
      then show ?thesis by (simp add: chunk_loop_size zero remove_crlf_append(2) [OF err])
    next
      case wait
      then show ?thesis by (simp add: chunk_loop_size [OF zero])
    next
      case (ok t)
      note t = remove_crlf_Some [OF ok] remove_crlf_append(1) [OF ok, of x]
      have loop: "chunk_loop (add_data x s) = chunk_loop (add_data x t)" "chunk_loop s = chunk_loop t"
        using chunk_loop_removed [OF t(2)] chunk_loop_removed [OF ok] zero by simp_all
      have t2: "remove_crlf (add_data x t) = Inr (Some (add_data x t))"
        using remove_crlf_append(1) t(1) by blast
      consider (err2) e where "chunk_size t = Inl e" | (wait2) "chunk_size t = Inr None"
        | (ok2) u where "chunk_size t = Inr (Some u)"
        by (metis sum.exhaust option.exhaust)
      then show ?thesis
      proof cases
        case (err2 e)
        with t(1) t2 zero show ?thesis
          by (simp add: loop chunk_loop_size chunk_size_append(2) [OF err2])
      next
        case wait2
        with t(1) zero show ?thesis by (simp add: loop chunk_loop_size [of t])
      next
        case (ok2 u)
        note IH = 1(2) [OF E ok refl ok2 refl]
        with t(1) t2 zero ok2 show ?thesis
          by (simp add: loop chunk_loop_size chunk_size_append(1) [OF ok2])
      qed
    qed
  qed
qed

section \<open>Numbers\<close>

lemma digits_from_snoc:
  "digits_from f b n (cs @ [c]) = and_then (digits_from f b n cs) (\<lambda>m. and_then (f c) (\<lambda>d. Inr (b * m + d)))"
proof (induction cs arbitrary: n)
  case (Cons a cs)
  then show ?case by (cases "f a") simp_all
qed (cases "f c"; simp)

lemma word_digits: "(of_nat b * of_nat (n div b) + of_nat (n mod b) :: u64) = of_nat n"
  by (metis of_nat_add of_nat_mult mult_div_mod_eq)

lemma hexDigitToUint_digit: "n < 16 \<Longrightarrow> hexDigitToUint (hex_digit n) = Inr (of_nat n)"
  by (cases n rule: less16_cases) (simp_all add: hexDigitToUint_def hex_digit_def)

lemma digitToUint_digit: "n < 10 \<Longrightarrow> digitToUint (digit_byte n) = Inr (of_nat n)"
  by (cases n rule: less16_cases) (simp_all add: digitToUint_def digit_byte_def)

lemma hexStringToUint_digits: "hexStringToUint (hex_digits n) = Inr (of_nat n)"
proof (induction n rule: hex_digits.induct)
  case (1 n)
  then show ?case
    using word_digits [of 16 n]
    by (subst hex_digits.simps)
      (auto simp: hexStringToUint_def digits_from_snoc hexDigitToUint_digit)
qed

lemma stringToUint_decimal: "stringToUint (decimal n) = Inr (of_nat n)"
proof (induction n rule: decimal.induct)
  case (1 n)
  then show ?case
    using word_digits [of 10 n]
    by (subst decimal.simps) (auto simp: stringToUint_def digits_from_snoc digitToUint_digit)
qed

lemma hex_digits_no_cr: "0x0D \<notin> set (hex_digits n)"
proof (induction n rule: hex_digits.induct)
  case (1 n)
  have "m < 16 \<Longrightarrow> hex_digit m \<noteq> 0x0D" for m
    by (cases m rule: less16_cases) (simp_all add: hex_digit_def)
  with 1 show ?case by (subst hex_digits.simps) (auto split: if_splits)
qed

section \<open>The chunked coding\<close>

definition enc_chunk :: "bytes \<Rightarrow> bytes" where
  "enc_chunk c = hex_digits (length c) @ crlf @ c @ crlf"

definition enc_chunks :: "bytes list \<Rightarrow> bytes" where
  "enc_chunks cs = concat (map enc_chunk cs) @ str ''0'' @ crlf"

definition chunk_ok :: "bytes \<Rightarrow> bool" where
  "chunk_ok c \<longleftrightarrow> c \<noteq> [] \<and> length c < 2 ^ 64"

definition add_body :: "bytes \<Rightarrow> response \<Rightarrow> response" where
  "add_body b r = r\<lparr>resp_body := resp_body r @ b\<rparr>"

lemma find_crlf: "0x0D \<notin> set l \<Longrightarrow> find_sub crlf (l @ crlf @ y) = Some (length l)"
  by (simp add: crlf_def find_sub_skip)

lemma chunk_size_line:
  "0x0D \<notin> set l \<Longrightarrow> hexStringToUint l = Inr n \<Longrightarrow> responseData s = l @ crlf @ y \<Longrightarrow>
    chunk_size s = Inr (Some (s\<lparr>expectedChunkSize := n, responseData := y\<rparr>))"
  using find_crlf [of l y] by (simp add: chunk_size_def crlf_def)

lemma chunk_loop_chunk:
  assumes "chunk_ok c" and "expectedChunkSize s = 0" and "\<not> removeCrlfAfterChunk s"
    and "responseData s = enc_chunk c @ y"
  shows "chunk_loop s = chunk_loop (s\<lparr>responseData := y, response := add_body c (response s)\<rparr>)"
proof -
  let ?n = "of_nat (length c) :: u64"
  let ?t = "s\<lparr>expectedChunkSize := ?n, responseData := c @ crlf @ y\<rparr>"
  let ?u = "s\<lparr>responseData := crlf @ y, response := add_body c (response s), removeCrlfAfterChunk := True\<rparr>"
  let ?v = "s\<lparr>responseData := y, response := add_body c (response s)\<rparr>"
  from assms(1) have n: "unat ?n = length c" "?n \<noteq> 0"
    by (auto simp: chunk_ok_def unat_of_nat simp flip: unat_eq_zero)
  have line: "chunk_size s = Inr (Some ?t)"
    by (rule chunk_size_line [OF hex_digits_no_cr hexStringToUint_digits [of "length c"]])
      (simp add: assms(4) enc_chunk_def)
  have rem: "remove_crlf s = Inr (Some s)" by (simp add: remove_crlf_def assms(3))
  have "chunk_loop s = chunk_loop ?t"
    using line n(2) by (simp add: chunk_loop_size [OF assms(2)] rem)
  also have "take_chunk ?t = ?u"
    using n by (simp add: take_chunk_def add_body_def Let_def assms(2))
  then have "chunk_loop ?t = chunk_loop ?u"
    using n(2) by (subst chunk_loop_body) (simp_all add: crlf_def word_gt_0)
  also have "remove_crlf ?u = Inr (Some ?v)"
    using assms(3) by (simp add: remove_crlf_def crlf_def)
  then have "chunk_loop ?u = chunk_loop ?v"
    by (rule chunk_loop_removed) (simp add: assms(2))
  finally show ?thesis .
qed

lemma chunk_loop_last:
  assumes "expectedChunkSize s = 0" and "\<not> removeCrlfAfterChunk s"
    and "responseData s = str ''0'' @ crlf @ y"
  shows "chunk_loop s = Inr (Inl (response s))"
proof -
  have "chunk_size s = Inr (Some (s\<lparr>expectedChunkSize := 0, responseData := y\<rparr>))"
    using assms(3)
    by (intro chunk_size_line [of "str ''0''"]) (simp_all add: hexStringToUint_def hexDigitToUint_def)
  then show ?thesis
    by (simp add: chunk_loop_size [OF assms(1)] remove_crlf_def assms(2))
qed

lemma chunk_loop_chunks:
  assumes "\<forall>c \<in> set cs. chunk_ok c" and "expectedChunkSize s = 0" and "\<not> removeCrlfAfterChunk s"
    and "responseData s = enc_chunks cs @ y"
  shows "chunk_loop s = Inr (Inl (add_body (concat cs) (response s)))"
  using assms
proof (induction cs arbitrary: s)
  case Nil
  then show ?case using chunk_loop_last [of s y] by (simp add: enc_chunks_def add_body_def)
next
  case (Cons c cs)
  let ?t = "s\<lparr>responseData := enc_chunks cs @ y, response := add_body c (response s)\<rparr>"
  have "chunk_loop s = chunk_loop ?t"
    by (rule chunk_loop_chunk) (use Cons.prems in \<open>simp_all add: enc_chunks_def\<close>)
  also have "\<dots> = Inr (Inl (add_body (concat cs) (response ?t)))"
    by (rule Cons.IH) (use Cons.prems in simp_all)
  finally show ?case by (simp add: add_body_def)
qed

section \<open>The loop over the segments\<close>

text \<open>The next answers of the socket are these segments.\<close>

fun delivers :: "deadline \<Rightarrow> socket \<Rightarrow> os \<Rightarrow> bytes list \<Rightarrow> bool" where
  "delivers dl sk w [] = True"
| "delivers dl sk w (seg # segs) =
     (case recv_by dl sk w of Some (Inr x, w') \<Rightarrow> x = seg \<and> delivers dl sk w' segs | _ \<Rightarrow> False)"

lemma delivers_Cons:
  "delivers dl sk w (seg # segs) \<longleftrightarrow> (\<exists>w'. recv_by dl sk w = Some (Inr seg, w') \<and> delivers dl sk w' segs)"
  by (auto split: option.splits sum.splits)

declare delivers.simps(2) [simp del]

lemma recv_loop_seg:
  "recv_by dl sk w = Some (Inr seg, w') \<Longrightarrow> seg \<noteq> [] \<Longrightarrow>
    recv_loop dl sk s w =
      (case segment_step seg s of
         Inl e \<Rightarrow> Some (Inl e, w') | Inr (Inl r) \<Rightarrow> Some (Inr r, w') | Inr (Inr s) \<Rightarrow> recv_loop dl sk s w')"
  by (subst recv_loop.simps) simp

lemma chunk_loop_flags:
  "chunk_loop s = Inr (Inr s') \<Longrightarrow> parsingBody s' = parsingBody s \<and> chunkedResponse s' = chunkedResponse s"
proof (induction s rule: chunk_loop.induct)
  case (1 s)
  have frame: "parsingBody t = parsingBody s \<and> chunkedResponse t = chunkedResponse s"
    if "remove_crlf s = Inr (Some t)" for t
    using that by (auto simp: remove_crlf_def split: if_splits)
  have frame2: "parsingBody t = parsingBody s \<and> chunkedResponse t = chunkedResponse s"
    if "chunk_size s = Inr (Some t)" for s t
    using that by (auto simp: chunk_size_def and_then_Inr split: option.splits)
  have frame3: "parsingBody (take_chunk s) = parsingBody s" "chunkedResponse (take_chunk s) = chunkedResponse s"
    by (simp_all add: take_chunk_def Let_def)
  show ?case
  proof (cases "0 < expectedChunkSize s")
    case True
    with 1(1) [OF True refl] 1(3) frame3 show ?thesis
      by (auto simp: chunk_loop_body split: if_splits)
  next
    case False
    then have "expectedChunkSize s = 0" by (simp add: word_gt_0)
    note size = chunk_loop_size [OF this]
    show ?thesis
    proof (cases "s' = s")
      case False
      with 1(3) obtain t where t: "remove_crlf s = Inr (Some t)"
        by (auto simp: size split: sum.splits option.splits)
      show ?thesis
      proof (cases "s' = t")
        case True
        with frame [OF t] show ?thesis by simp
      next
        case False
        with 1(3) obtain u where "chunk_size t = Inr (Some u)" "expectedChunkSize u \<noteq> 0"
            "chunk_loop u = Inr (Inr s')"
          by (auto simp: size t split: sum.splits option.splits if_splits)
        with 1(2) [OF \<open>\<not> 0 < expectedChunkSize s\<close> t refl _ refl] frame [OF t] frame2 show ?thesis by simp
      qed
    qed simp
  qed
qed

lemma recv_chunked:
  assumes "parsingBody s" and "chunkedResponse s" and "chunk_loop s = Inr (Inr s)"
    and "delivers dl sk w segs" and "[] \<notin> set segs"
    and "chunk_loop (add_data (concat segs) s) = Inr (Inl rs)"
  shows "\<exists>w'. recv_loop dl sk s w = Some (Inr rs, w')"
  using assms
proof (induction segs arbitrary: s w)
  case (Cons seg segs)
  from Cons.prems(4) obtain w1 where w1: "recv_by dl sk w = Some (Inr seg, w1)" "delivers dl sk w1 segs"
    by (auto simp: delivers_Cons)
  have step: "segment_step seg s = chunk_loop (add_data seg s)"
    using Cons.prems(1,2) by (simp add: segment_step_def body_step_def add_data_def)
  have whole: "resume (concat segs) (chunk_loop (add_data seg s)) = Inr (Inl rs)"
    using Cons.prems(6) chunk_loop_append [of "concat segs" "add_data seg s"] by simp
  note loop = recv_loop_seg [OF w1(1), of s]
  show ?case
  proof (cases "chunk_loop (add_data seg s)")
    case (Inl e)
    with whole show ?thesis by simp
  next
    case (Inr r)
    show ?thesis
    proof (cases r)
      case r: (Inl r')
      with Inr whole loop step Cons.prems(5) show ?thesis by auto
    next
      case r: (Inr t)
      with Inr have t: "chunk_loop (add_data seg s) = Inr (Inr t)" by simp
      have "chunk_loop t = Inr (Inr t)"
        using chunk_loop_append [of "[]" "add_data seg s"] t by simp
      with Cons.IH [of t w1] chunk_loop_flags [OF t] whole w1(2) Cons.prems t
      have "\<exists>w'. recv_loop dl sk t w1 = Some (Inr rs, w')" by simp
      with loop step t Cons.prems(5) show ?thesis by auto
    qed
  qed
qed simp

end
