(* ===== verification/Http_Head.thy ===== *)
theory Http_Head
  imports Http_Correct
begin

text \<open>
  Printing and parsing of the head of a response: status line, header fields, blank line.
  The printers here are the specification, the grammar of RFC 7230; the client has only the
  parsers and the printer of header fields, and \<open>field_codec\<close> says that those two agree.
\<close>

section \<open>Characters\<close>

named_theorems char_class \<open>the character classes\<close>

lemmas char_class_defs [char_class] =
  isTokenChar_def isDigitChar_def isAlphaChar_def isWhiteSpaceChar_def is_text_char_def
  isVisibleChar_def isObsoleteTextChar_def

lemma token_not_colon: "isTokenChar c \<Longrightarrow> c \<noteq> of_char CHR '':''"
  by (auto simp: char_class)

lemma token_not_space: "isTokenChar c \<Longrightarrow> \<not> isWhiteSpaceChar c"
  by (auto simp: char_class)

lemma text_not_cr [simp]: "\<not> is_text_char 0x0D" "\<not> isWhiteSpaceChar 0x0D" "\<not> is_text_char 0x0A"
  by (simp_all add: char_class)

lemma token_not_cr [simp]: "\<not> isTokenChar 0x0D" "\<not> isTokenChar 0x0A"
  by (simp_all add: char_class)

lemma takeWhile_stop: "list_all P a \<Longrightarrow> \<not> P c \<Longrightarrow> takeWhile P (a @ c # r) = a"
  by (simp add: takeWhile_tail list_all_iff)

lemma dropWhile_stop: "list_all P a \<Longrightarrow> \<not> P c \<Longrightarrow> dropWhile P (a @ c # r) = c # r"
  by (simp add: list_all_iff dropWhile_append)

lemma expect_ok [simp]: "expect e c (c # r) = Inr r"
  by (simp add: expect_def)

lemma expect_all_ok [simp]: "expect_all e cs (cs @ r) = Inr r"
  by (induction cs) simp_all

lemma expect_crlf [simp]: "expect_all e crlf (0x0D # 0x0A # r) = Inr r"
  using expect_all_ok [of e crlf r] by (simp add: crlf_def)

section \<open>Header fields\<close>

definition trimmed :: "bytes \<Rightarrow> bool" where
  "trimmed v \<longleftrightarrow> v = [] \<or> (\<not> isWhiteSpaceChar (hd v) \<and> \<not> isWhiteSpaceChar (last v))"

definition field_ok :: "header_field \<Rightarrow> bool" where
  "field_ok f \<longleftrightarrow>
     fst f \<noteq> [] \<and> list_all isTokenChar (fst f) \<and> list_all is_text_char (snd f) \<and> trimmed (snd f)"

definition no_fold :: "bytes \<Rightarrow> bool" where
  "no_fold r \<longleftrightarrow> r = [] \<or> \<not> isWhiteSpaceChar (hd r)"

lemma trim_end_trimmed: "trimmed v \<Longrightarrow> trim_end v = v"
  by (cases v rule: rev_cases) (auto simp: trim_end_def trimmed_def)

lemma skip_trimmed: "trimmed v \<Longrightarrow> skipWhiteSpaces (v @ 0x0D # r) = v @ 0x0D # r"
  by (cases v) (auto simp: skipWhiteSpaces_def trimmed_def)

lemma obsolete_fold_none: "no_fold r \<Longrightarrow> obsolete_fold (0x0D # 0x0A # r) = None"
  by (cases r) (auto simp: no_fold_def)

lemma parseFieldContent_value:
  assumes "list_all is_text_char v" and "trimmed v" and "no_fold r"
  shows "parseFieldContent (v @ 0x0D # 0x0A # r) = (v, 0x0D # 0x0A # r)"
  using assms
  by (simp add: parseFieldContent_def parse_field_content_from.simps [of "[]"] parseFieldValue_def
      takeWhile_stop dropWhile_stop trim_end_trimmed obsolete_fold_none)

lemma parseHeaderField_encode:
  assumes "field_ok f" and "no_fold r"
  shows "parseHeaderField (encode_field f @ r) = Inr (f, r)"
proof -
  from assms(1) have ok: "fst f \<noteq> []" "list_all isTokenChar (fst f)" "list_all is_text_char (snd f)"
    "trimmed (snd f)" by (simp_all add: field_ok_def)
  have colon: "\<not> isTokenChar (of_char CHR '':'')" using token_not_colon by blast
  have "isWhiteSpaceChar 0x20" by (simp add: isWhiteSpaceChar_def)
  then have skip: "skipWhiteSpaces (0x20 # snd f @ 0x0D # 0x0A # r) = snd f @ 0x0D # 0x0A # r"
    using skip_trimmed [OF ok(4), of "0x0A # r"] by (simp add: skipWhiteSpaces_def)
  have enc: "encode_field f @ r = fst f @ of_char CHR '':'' # 0x20 # snd f @ 0x0D # 0x0A # r"
    by (simp add: encode_field_def crlf_def)
  have tok: "parseToken (encode_field f @ r) = Inr (fst f, of_char CHR '':'' # 0x20 # snd f @ 0x0D # 0x0A # r)"
    unfolding enc parseToken_def takeWhile_stop [OF ok(2) colon] dropWhile_stop [OF ok(2) colon]
    using ok(1) by simp
  show ?thesis
    unfolding parseHeaderField_def tok
    using skip parseFieldContent_value [OF ok(3,4) assms(2)] by simp
qed

text \<open>The printer of the client and its parser, as a self-delimiting encoding up to folding.\<close>

lemma encode_field_no_fold: "field_ok f \<Longrightarrow> no_fold (encode_field f @ r)"
  by (cases "fst f") (auto simp: field_ok_def no_fold_def encode_field_def token_not_space)

lemma encode_fields_no_fold: "\<forall>f \<in> set fs. field_ok f \<Longrightarrow> no_fold (concat (map encode_field fs))"
  by (cases fs) (auto simp: encode_field_no_fold no_fold_def [of "[]"])

fun use_fields :: "header_field list \<Rightarrow> recv_state \<Rightarrow> recv_state http" where
  "use_fields [] s = Inr s"
| "use_fields (f # fs) s = and_then (use_field f s) (\<lambda>s. use_fields fs (push_field f s))"

definition lower_field :: "header_field \<Rightarrow> header_field" where
  "lower_field f = (map toLower (fst f), snd f)"

lemma encode_field_neq_Nil [simp]: "encode_field f \<noteq> []"
  by (simp add: encode_field_def)

lemma parse_header_fields_encode:
  assumes "\<forall>f \<in> set fs. field_ok f" and "fs \<noteq> []"
  shows "parse_header_fields (concat (map encode_field fs)) s = use_fields (map lower_field fs) s"
  using assms
proof (induction fs arbitrary: s)
  case (Cons f fs)
  let ?r = "concat (map encode_field fs)"
  have "parseHeaderField (encode_field f @ ?r) = Inr (f, ?r)"
    by (rule parseHeaderField_encode) (use Cons.prems encode_fields_no_fold [of fs] in auto)
  moreover have "?r = [] \<longleftrightarrow> fs = []" by (cases fs) simp_all
  ultimately have step: "parse_header_fields (encode_field f @ ?r) s =
      and_then (use_field (lower_field f) s) (\<lambda>s. if fs = [] then Inr (push_field (lower_field f) s)
        else parse_header_fields ?r (push_field (lower_field f) s))"
    by (subst parse_header_fields.simps)
      (simp add: Let_def and_then_def lower_field_def split: sum.splits del: concat_eq_Nil_conv)
  show ?case
  proof (cases fs)
    case Nil
    with step show ?thesis by simp
  next
    case (Cons g gs)
    with step Cons.IH Cons.prems show ?thesis by simp
  qed
qed simp

section \<open>The status line\<close>

definition status_line :: "status \<Rightarrow> bytes" where
  "status_line st =
     str ''HTTP/'' @ decimal (unat (fst (http_version st))) @ str ''.'' @
     decimal (unat (snd (http_version st))) @ str '' '' @ decimal (unat (status_code st)) @ str '' '' @
     reason st @ crlf"

definition status_ok :: "status \<Rightarrow> bool" where
  "status_ok st \<longleftrightarrow>
     fst (http_version st) < 10 \<and> snd (http_version st) < 10 \<and>
     100 \<le> status_code st \<and> status_code st < 1000 \<and> list_all is_text_char (reason st)"

lemma decimal_one_digit: "n < 10 \<Longrightarrow> decimal n = [digit_byte n]"
  by (simp add: decimal.simps)

lemma digit_char: "n < 10 \<Longrightarrow> isDigitChar (digit_byte n)"
  by (cases n rule: less16_cases) (simp_all add: isDigitChar_def digit_byte_def)

lemma digit_version: "(v :: u16) < 10 \<Longrightarrow> digitToUint (digit_byte (unat v)) = Inr v"
  by (simp add: digitToUint_digit word_less_nat_alt)

lemma decimal_three_digits:
  assumes "100 \<le> n" and "n < 1000"
  shows "decimal n = [digit_byte (n div 100), digit_byte (n div 10 mod 10), digit_byte (n mod 10)]"
proof -
  have "n div 10 \<ge> 10" "n div 10 div 10 < 10" "n div 10 div 10 = n div 100" using assms by auto
  with assms show ?thesis by (simp add: decimal.simps [of n] decimal.simps [of "n div 10"] decimal_one_digit)
qed

lemma status_digits_decimal:
  assumes "100 \<le> c" and "c < 1000" and "\<not> isDigitChar b"
  shows "parseStatusCode (decimal (unat c) @ b # r) = Inr (c, b # r)"
proof -
  let ?n = "unat c"
  have n: "100 \<le> ?n" "?n < 1000" using assms(1,2) by (simp_all add: word_le_nat_alt word_less_nat_alt)
  have d: "?n div 100 < 10" using n by auto
  have "?n div 100 = ?n div 10 div 10" by (simp flip: div_mult2_eq)
  then have eq: "?n = (?n div 100 * 10 + ?n div 10 mod 10) * 10 + ?n mod 10"
    by (metis div_mult_mod_eq)
  have "(of_nat ?n :: u16) = (of_nat (?n div 100) * 10 + of_nat (?n div 10 mod 10)) * 10 + of_nat (?n mod 10)"
    by (subst eq) (simp only: of_nat_add of_nat_mult of_nat_numeral)
  then have "c = (of_nat (?n div 100) * 10 + of_nat (?n div 10 mod 10)) * 10 + of_nat (?n mod 10)"
    by simp
  with assms(3) d show ?thesis
    by (simp add: parseStatusCode_def decimal_three_digits [OF n] digit_char digitToUint_digit)
qed

lemma parseStatusLine_status:
  assumes "status_ok st"
  shows "parseStatusLine (status_line st @ r) = Inr (st, r)"
proof -
  obtain maj mn where v: "http_version st = (maj, mn)" by (rule prod.exhaust)
  from assms v have ok: "maj < 10" "mn < 10" "100 \<le> status_code st" "status_code st < 1000"
    "list_all is_text_char (reason st)"
    by (simp_all add: status_ok_def)
  have one: "decimal (unat maj) = [digit_byte (unat maj)]" "decimal (unat mn) = [digit_byte (unat mn)]"
    using ok(1,2) by (simp_all add: decimal_one_digit word_less_nat_alt)
  have "\<not> isDigitChar 0x20" by (simp add: isDigitChar_def)
  note code = status_digits_decimal [OF ok(3,4) this]
  have phrase: "parseReasonPhrase (reason st @ 0x0D # 0x0A # r) = (reason st, 0x0D # 0x0A # r)"
    by (simp add: parseReasonPhrase_def takeWhile_stop dropWhile_stop ok(5))
  show ?thesis
    using code [of "reason st @ 0x0D # 0x0A # r"] phrase ok(1,2)
    by (simp add: parseStatusLine_def parseHttpVersion_def status_line_def v one digit_version
        expect_def crlf_def)
qed

section \<open>The end of the head\<close>

definition no_cr :: "bytes \<Rightarrow> bool" where
  "no_cr l \<longleftrightarrow> 0x0D \<notin> set l"

lemma text_no_cr: "list_all is_text_char v \<Longrightarrow> no_cr v"
  by (auto simp: list_all_iff no_cr_def)

lemma token_no_cr: "list_all isTokenChar v \<Longrightarrow> no_cr v"
  by (auto simp: list_all_iff no_cr_def)

lemma decimal_no_cr: "no_cr (decimal n)"
  unfolding no_cr_def using decimal_digits [of "0x0D" n] by (auto simp: isdigit_def)

lemma find_blank_line:
  assumes "\<forall>l \<in> set ls. l \<noteq> [] \<and> no_cr l" and "ls \<noteq> []"
  shows "find_sub (crlf @ crlf) (concat (map (\<lambda>l. l @ crlf) ls) @ crlf @ r) =
    Some (length (concat (map (\<lambda>l. l @ crlf) ls)) - 2)"
  using assms
proof (induction ls)
  case (Cons l ls)
  let ?t = "concat (map (\<lambda>l. l @ crlf) ls)"
  have skip: "find_sub (crlf @ crlf) (l @ y) = map_option ((+) (length l)) (find_sub (crlf @ crlf) y)" for y
    using Cons.prems find_sub_skip [of "0x0D" l] by (simp add: crlf_def no_cr_def)
  show ?case
  proof (cases ls)
    case Nil
    with skip show ?thesis by (simp add: crlf_def)
  next
    case (Cons m ms)
    with Cons.prems obtain b m' where "m = b # m'" "b \<noteq> 0x0D" by (cases m) (auto simp: no_cr_def)
    then have "find_sub (crlf @ crlf) (crlf @ ?t @ crlf @ r) =
        map_option (\<lambda>n. n + 2) (find_sub (crlf @ crlf) (?t @ crlf @ r))"
      by (simp add: crlf_def Cons option.map_comp comp_def)
    moreover have "find_sub (crlf @ crlf) (?t @ crlf @ r) = Some (length ?t - 2)"
      using Cons.IH Cons.prems Cons by simp
    moreover have "2 \<le> length ?t" using Cons by (simp add: crlf_def)
    ultimately show ?thesis using skip [of "crlf @ ?t @ crlf @ r"] by (simp add: crlf_def)
  qed
qed simp

definition head_lines :: "status \<Rightarrow> header_field list \<Rightarrow> bytes" where
  "head_lines st fs = status_line st @ concat (map encode_field fs)"

definition response_head :: "status \<Rightarrow> header_field list \<Rightarrow> bytes" where
  "response_head st fs = head_lines st fs @ crlf"

lemma field_line: "\<exists>l. encode_field f = l @ crlf \<and> l \<noteq> [] \<and> (field_ok f \<longrightarrow> no_cr l)"
proof (intro exI conjI impI)
  show "encode_field f = (fst f @ str '': '' @ snd f) @ crlf" by (simp add: encode_field_def)
  show "no_cr (fst f @ str '': '' @ snd f)" if "field_ok f"
    using that text_no_cr [of "snd f"] token_no_cr [of "fst f"] by (simp add: field_ok_def no_cr_def)
qed simp

lemma find_head_end:
  assumes "status_ok st" and "\<forall>f \<in> set fs. field_ok f"
  shows "find_sub (crlf @ crlf) (response_head st fs @ r) = Some (length (head_lines st fs) - 2)"
    and "2 \<le> length (head_lines st fs)"
proof -
  let ?line = "\<lambda>f. fst f @ str '': '' @ snd f"
  let ?s = "str ''HTTP/'' @ decimal (unat (fst (http_version st))) @ str ''.'' @
     decimal (unat (snd (http_version st))) @ str '' '' @ decimal (unat (status_code st)) @ str '' '' @
     reason st"
  let ?ls = "?s # map ?line fs"
  have ls: "\<forall>l \<in> set ?ls. l \<noteq> [] \<and> no_cr l"
    using assms text_no_cr token_no_cr decimal_no_cr
    by (auto simp: status_ok_def field_ok_def no_cr_def)
  have lines: "concat (map (\<lambda>l. l @ crlf) ?ls) = head_lines st fs"
    by (simp add: head_lines_def status_line_def encode_field_def [abs_def] comp_def)
  show "find_sub (crlf @ crlf) (response_head st fs @ r) = Some (length (head_lines st fs) - 2)"
    unfolding response_head_def append_assoc
    by (rule find_blank_line [OF ls, unfolded lines]) simp
  show "2 \<le> length (head_lines st fs)" by (simp add: head_lines_def status_line_def crlf_def)
qed

lemma parse_head_response:
  assumes "status_ok st" and "\<forall>f \<in> set fs. field_ok f" and "fs \<noteq> []"
    and "responseData s = response_head st fs @ r"
  shows "parse_head s =
    and_then (use_fields (map lower_field fs) (s\<lparr>response := (response s)\<lparr>resp_status := st\<rparr>\<rparr>))
      (\<lambda>s. Inr (Some (s\<lparr>responseData := drop (length (response_head st fs)) (responseData s), parsingBody := True\<rparr>)))"
proof -
  note found = find_head_end(1) [OF assms(1,2), of r] find_head_end(2) [OF assms(1,2)]
  have len: "length (head_lines st fs) - 2 + 2 = length (head_lines st fs)"
    "length (head_lines st fs) - 2 + 4 = length (response_head st fs)"
    using found(2) by (simp_all add: response_head_def crlf_def)
  have "take (length (head_lines st fs)) (response_head st fs @ r) = status_line st @ concat (map encode_field fs)"
    by (simp add: response_head_def head_lines_def)
  then show ?thesis
    unfolding parse_head_def assms(4) found(1) option.case len
    by (simp add: parseStatusLine_status [OF assms(1)] parse_header_fields_encode [OF assms(2,3)])
qed

end
