(* ===== verification/Http_Request.thy ===== *)
theory Http_Request
  imports Http_Head
begin

text \<open>
  The request: Base 64 against the decoder of RFC 4648, the URI that \<open>parseUri\<close> takes apart,
  and what has been written to the connection when \<open>Request_send\<close> has sent its data.
\<close>

section \<open>Base 64\<close>

definition base64_val :: "byte \<Rightarrow> nat option" where
  "base64_val c =
     (if of_char CHR ''A'' \<le> c \<and> c \<le> of_char CHR ''Z'' then Some (unat c - 65)
      else if of_char CHR ''a'' \<le> c \<and> c \<le> of_char CHR ''z'' then Some (unat c - 71)
      else if of_char CHR ''0'' \<le> c \<and> c \<le> of_char CHR ''9'' then Some (unat c + 4)
      else if c = of_char CHR ''+'' then Some 62
      else if c = of_char CHR ''/'' then Some 63
      else None)"

abbreviation pad :: byte where
  "pad \<equiv> 0x3D"

text \<open>Three bytes of six-bit values, as far as they are complete.\<close>

definition byte1 :: "nat \<Rightarrow> nat \<Rightarrow> byte" where
  "byte1 a b = word_of_nat (a * 4 + b div 16)"

definition byte2 :: "nat \<Rightarrow> nat \<Rightarrow> byte" where
  "byte2 b c = word_of_nat (b mod 16 * 16 + c div 4)"

definition byte3 :: "nat \<Rightarrow> nat \<Rightarrow> byte" where
  "byte3 c d = word_of_nat (c mod 4 * 64 + d)"

fun base64_decode :: "bytes \<Rightarrow> bytes option" where
  "base64_decode [] = Some []"
| "base64_decode (p # q # r # s # cs) =
     (case (base64_val p, base64_val q) of
        (Some a, Some b) \<Rightarrow>
          if r = pad then (if s = pad \<and> cs = [] then Some [byte1 a b] else None)
          else
            (case base64_val r of
               None \<Rightarrow> None
             | Some c \<Rightarrow>
                 if s = pad then (if cs = [] then Some [byte1 a b, byte2 b c] else None)
                 else
                   (case base64_val s of
                      None \<Rightarrow> None
                    | Some d \<Rightarrow>
                        map_option (\<lambda>bs. byte1 a b # byte2 b c # byte3 c d # bs) (base64_decode cs)))
      | _ \<Rightarrow> None)"
| "base64_decode _ = None"

lemma base64_table: "map base64_val base64_chars = map Some [0..<64]"
  unfolding base64_chars_def by code_simp

lemma length_base64_chars: "length base64_chars = 64"
  by (simp add: base64_chars_def)

lemma base64_val_char:
  assumes "n < 64"
  shows "base64_val (base64_chars ! n) = Some n" and "base64_chars ! n \<noteq> pad"
proof -
  have "map base64_val base64_chars ! n = map Some [0..<64] ! n" by (simp add: base64_table)
  with assms show val: "base64_val (base64_chars ! n) = Some n"
    by (simp add: length_base64_chars)
  show "base64_chars ! n \<noteq> pad"
  proof
    assume "base64_chars ! n = pad"
    with val show False by (simp add: base64_val_def)
  qed
qed

text \<open>The bit fields of the code as arithmetic.\<close>

lemma and_low: "x AND (2 ^ n - 1) = take_bit n (x :: byte)"
  by (simp add: take_bit_eq_mask mask_eq_exp_minus_1)

lemma unat_high_bits:
  assumes "n + k = 8"
  shows "unat (drop_bit k x AND (2 ^ n - 1) :: byte) = unat x div 2 ^ k"
proof -
  have "unat x < 2 ^ k * 2 ^ n" using unat_bounds(1) [of x] assms by (simp flip: power_add add: add.commute)
  then have "unat x div 2 ^ k < 2 ^ n" by (simp add: less_mult_imp_div_less mult.commute)
  then show ?thesis
    using unat_bounds(1) [of x] unfolding and_low unsigned_take_bit_eq unsigned_drop_bit_eq
    by (simp add: take_bit_eq_mod drop_bit_eq_div)
qed

lemma unat_low_bits:
  assumes "n + k \<le> 8"
  shows "unat (push_bit k (x AND (2 ^ n - 1)) :: byte) = unat x mod 2 ^ n * 2 ^ k"
proof -
  have "unat x mod 2 ^ n * 2 ^ k < 2 ^ n * 2 ^ k" by simp
  also have "\<dots> \<le> 2 ^ 8" using power_increasing [OF assms, of "2 :: nat"] by (simp add: power_add)
  finally show ?thesis
    unfolding and_low unsigned_push_bit_eq unsigned_take_bit_eq
    by (simp add: take_bit_eq_mod push_bit_eq_mult)
qed

lemma bits_hi:
  "unat (drop_bit 2 (x AND 0xFC) :: byte) = unat x div 4"
  "unat (drop_bit 4 (x AND 0xF0) :: byte) = unat x div 16"
  "unat (drop_bit 6 (x AND 0xC0) :: byte) = unat x div 64"
  using unat_high_bits [of 6 2 x] unat_high_bits [of 4 4 x] unat_high_bits [of 2 6 x]
  by (simp_all add: drop_bit_and)

lemma bits_lo:
  "unat (push_bit 4 (x AND 0x03) :: byte) = unat x mod 4 * 16"
  "unat (push_bit 2 (x AND 0x0F) :: byte) = unat x mod 16 * 4"
  "unat (x AND 0x3F :: byte) = unat x mod 64"
  using unat_low_bits [of 2 4 x] unat_low_bits [of 4 2 x] unat_low_bits [of 6 0 x] by simp_all

lemma unat_plus_byte: "unat (a :: byte) + unat b < 256 \<Longrightarrow> unat (a + b) = unat a + unat b"
  by (simp add: unat_word_ariths)

lemma bits_join:
  "unat (push_bit 4 (x AND 0x03) + drop_bit 4 (y AND 0xF0) :: byte) = unat x mod 4 * 16 + unat y div 16"
  "unat (push_bit 2 (y AND 0x0F) + drop_bit 6 (z AND 0xC0) :: byte) = unat y mod 16 * 4 + unat z div 64"
proof -
  have "unat x mod 4 * 16 + unat y div 16 < 256" "unat y mod 16 * 4 + unat z div 64 < 256"
  proof -
    have "unat x mod 4 < 4" "unat y mod 16 < 16" by simp_all
    moreover have "unat y div 16 < 16" "unat z div 64 < 4"
      using unat_bounds(1) [of y] unat_bounds(1) [of z] by simp_all
    ultimately show "unat x mod 4 * 16 + unat y div 16 < 256" "unat y mod 16 * 4 + unat z div 64 < 256"
      by linarith+
  qed
  then show
    "unat (push_bit 4 (x AND 0x03) + drop_bit 4 (y AND 0xF0) :: byte) = unat x mod 4 * 16 + unat y div 16"
    "unat (push_bit 2 (y AND 0x0F) + drop_bit 6 (z AND 0xC0) :: byte) = unat y mod 16 * 4 + unat z div 64"
    by (subst unat_plus_byte; simp only: bits_lo bits_hi)+
qed

lemmas bit_fields = bits_hi bits_lo bits_join

lemma byte1_join: "k < 16 \<Longrightarrow> byte1 (unat x div 4) (unat x mod 4 * 16 + k) = x"
  by (simp add: byte1_def)

lemma byte2_join: "k < 4 \<Longrightarrow> byte2 (m * 16 + unat y div 16) (unat y mod 16 * 4 + k) = y"
  using unat_bounds(1) [of y] by (simp add: byte2_def less_mult_imp_div_less)

lemma byte3_join: "byte3 (m * 4 + unat z div 64) (unat z mod 64) = z"
  using unat_bounds(1) [of z] by (simp add: byte3_def less_mult_imp_div_less)

lemma sextets:
  "unat x div 4 < 64" "unat x mod 4 * 16 + unat y div 16 < 64" "unat x mod 4 * 16 < 64"
  "unat y mod 16 * 4 + unat z div 64 < 64" "unat y mod 16 * 4 < 64" "unat z mod 64 < 64"
  for x y z :: byte
proof -
  have "unat x mod 4 < 4" "unat y mod 16 < 16" by simp_all
  moreover have "unat y div 16 < 16" "unat z div 64 < 4" "unat x div 4 < 64"
    using unat_bounds(1) [of x] unat_bounds(1) [of y] unat_bounds(1) [of z] by simp_all
  ultimately show "unat x div 4 < 64" "unat x mod 4 * 16 + unat y div 16 < 64" "unat x mod 4 * 16 < 64"
    "unat y mod 16 * 4 + unat z div 64 < 64" "unat y mod 16 * 4 < 64" "unat z mod 64 < 64"
    by simp_all
qed

lemma encodeBase64_simps:
  "encodeBase64 [] = []"
  "encodeBase64 [x] = base64_tail [x]"
  "encodeBase64 [x, y] = base64_tail [x, y]"
  "encodeBase64 (x # y # z # bs) = base64_group x y z @ encodeBase64 bs"
  by (simp_all add: encodeBase64_def base64_tail_def [of "[]"])

lemma base64_group_sextets:
  "base64_group x y z =
     [base64_chars ! (unat x div 4), base64_chars ! (unat x mod 4 * 16 + unat y div 16),
      base64_chars ! (unat y mod 16 * 4 + unat z div 64), base64_chars ! (unat z mod 64)]"
  unfolding base64_group_def base64_char_def bit_fields by (rule refl)

lemma base64_tail_sextets:
  "base64_tail [x] = [base64_chars ! (unat x div 4), base64_chars ! (unat x mod 4 * 16), pad, pad]"
  "base64_tail [x, y] =
     [base64_chars ! (unat x div 4), base64_chars ! (unat x mod 4 * 16 + unat y div 16),
      base64_chars ! (unat y mod 16 * 4), pad]"
  unfolding base64_tail_def base64_char_def bit_fields by (simp_all add: numeral_2_eq_2)

lemma base64_decode_group:
  "base64_decode (base64_group x y z @ cs) = map_option (\<lambda>bs. x # y # z # bs) (base64_decode cs)"
proof -
  have "unat y div 16 < 16" "unat z div 64 < 4"
    using unat_bounds(1) [of y] unat_bounds(1) [of z] by simp_all
  then show ?thesis
    by (simp add: base64_group_sextets base64_val_char sextets byte1_join byte2_join byte3_join)
qed

lemma base64_decode_tail:
  "base64_decode (base64_tail [x]) = Some [x]"
  "base64_decode (base64_tail [x, y]) = Some [x, y]"
proof -
  have "unat y div 16 < 16" using unat_bounds(1) [of y] by simp
  then show "base64_decode (base64_tail [x]) = Some [x]" "base64_decode (base64_tail [x, y]) = Some [x, y]"
    using byte1_join [of 0 x] byte2_join [of 0 "unat x mod 4" y]
    by (simp_all add: base64_tail_sextets base64_val_char sextets byte1_join)
qed

lemma base64_decode_encode:
  "base64_decode (encodeBase64 bs) = Some bs \<and> length (encodeBase64 bs) = 4 * ((length bs + 2) div 3)"
proof (induction bs rule: length_induct)
  case (1 bs)
  consider "bs = []" | x where "bs = [x]" | x y where "bs = [x, y]" | x y z cs where "bs = x # y # z # cs"
    by (metis list.exhaust)
  then show ?case
  proof cases
    case 4
    with 1 have "base64_decode (encodeBase64 cs) = Some cs \<and> length (encodeBase64 cs) = 4 * ((length cs + 2) div 3)"
      by simp
    with 4 show ?thesis
      by (simp add: encodeBase64_simps base64_decode_group) (simp add: base64_group_sextets, presburger)
  qed (simp_all add: encodeBase64_simps base64_decode_tail, simp_all add: base64_tail_sextets)
qed

section \<open>Header fields of the request\<close>

definition field_accepted :: "header_field \<Rightarrow> bool" where
  "field_accepted f \<longleftrightarrow> fst f \<noteq> [] \<and> list_all isTokenChar (fst f) \<and> list_all is_text_char (snd f)"

lemma encodeHeaderFields_Inr:
  "encodeHeaderFields fs = Inr bs \<longleftrightarrow>
    (\<forall>f \<in> set fs. field_accepted f) \<and> bs = concat (map encode_field fs)"
  by (induction fs arbitrary: bs) (auto simp: field_accepted_def and_then_Inr)

lemma field_accepted_line:
  "field_accepted f \<Longrightarrow> {0x0D, 0x0A} \<inter> set (fst f @ snd f) = {}"
  by (auto simp: field_accepted_def list_all_iff)

definition request_bytes_of :: "uri \<Rightarrow> bytes \<Rightarrow> bytes \<Rightarrow> header_field list \<Rightarrow> bytes" where
  "request_bytes_of u method body hs =
     encodeRequestLine method (request_target u) @ concat (map encode_field (all_fields u body hs)) @
     crlf @ body"

lemma encodeHtml_Inr:
  "encodeHtml u method body hs = Inr bs \<longleftrightarrow>
    uri_scheme u = str ''http'' \<and> (\<forall>f \<in> set (all_fields u body hs). field_accepted f) \<and>
    bs = request_bytes_of u method body hs"
  by (auto simp: encodeHtml_def and_then_Inr encodeHeaderFields_Inr request_bytes_of_def)

section \<open>Sending\<close>

lemma send_by_sent: "send_by dl sk dat w = Some (Inr n, w') \<Longrightarrow> sent w' = sent w @ take n dat"
  by (auto simp: send_by_Inr same_data_def dest!: remaining_or_none_frame socket_select_frame retry_frame)

lemma send_loop_sent: "send_loop dl sk dat w = Some (Inr (), w') \<Longrightarrow> sent w' = sent w @ dat"
proof (induction dl sk dat w rule: send_loop.induct)
  case (1 dl sk dat w)
  show ?case
  proof (cases "dat = []")
    case True
    with 1(2) show ?thesis by (simp add: send_loop.simps)
  next
    case False
    with 1(2) obtain n w1 where w1: "send_by dl sk dat w = Some (Inr n, w1)"
      and loop: "send_loop dl sk (drop n dat) w1 = Some (Inr (), w')"
      by (subst (asm) send_loop.simps) (auto split: option.splits sum.splits)
    from 1(1) [OF False w1 refl refl] loop have "sent w' = sent w1 @ drop n dat" by simp
    with send_by_sent [OF w1] show ?thesis by simp
  qed
qed

text \<open>Whatever the outcome, what has been written is the beginning of the data.\<close>

lemma send_by_prefix:
  assumes "send_by dl sk dat w = Some (r, w')"
  shows "sent w' = sent w @ (case r of Inl e \<Rightarrow> [] | Inr n \<Rightarrow> take n dat)"
proof (cases r)
  case (Inl e)
  with assms show ?thesis
    by (cases "remaining_or_none dl w")
      (auto simp: send_by_def socket_send_def io_bind_def same_data_def
        dest!: remaining_or_none_frame socket_select_frame retry_frame
        split: option.split_asm sum.split_asm prod.split_asm sysret.split_asm)
qed (use assms send_by_sent in simp)

lemma send_loop_prefix: "send_loop dl sk dat w = Some (r, w') \<Longrightarrow> \<exists>k. sent w' = sent w @ take k dat"
proof (induction dl sk dat w rule: send_loop.induct)
  case (1 dl sk dat w)
  show ?case
  proof (cases "dat = []")
    case True
    with 1(2) show ?thesis by (simp add: send_loop.simps)
  next
    case False
    with 1(2) obtain x w1 where w1: "send_by dl sk dat w = Some (x, w1)"
      by (subst (asm) send_loop.simps) (auto split: option.splits)
    show ?thesis
    proof (cases x)
      case (Inl e)
      with 1(2) w1 False send_by_prefix [OF w1] show ?thesis
        by (auto simp: send_loop.simps [of dl sk dat w] intro: exI [of _ 0])
    next
      case (Inr n)
      with 1(2) w1 False have "send_loop dl sk (drop n dat) w1 = Some (r, w')"
        by (simp add: send_loop.simps [of dl sk dat w])
      with 1(1) [OF False, of "(x, w1)" x w1 n] w1 Inr obtain k where "sent w' = sent w1 @ take k (drop n dat)" by auto
      with send_by_prefix [OF w1] Inr show ?thesis by (auto simp flip: take_add)
    qed
  qed
qed

lemma socket_connect_sent: "socket_connect sk tmo w = Some (r, w') \<Longrightarrow> sent w' = sent w"
  by (auto simp: socket_connect_def io_bind_Some same_data_def Let_def
      split: option.splits sysret.splits if_split_asm prod.splits dest!: socket_select_frame retry_frame)

lemma connect_by_sent: "connect_by dl sk w = Some (r, w') \<Longrightarrow> sent w' = sent w"
  by (cases "remaining_or_none dl w")
    (auto simp: connect_by_def same_data_def dest!: remaining_or_none_frame socket_connect_sent)

lemma recv_by_sent: "recv_by dl sk w = Some (r, w') \<Longrightarrow> sent w' = sent w"
  by (cases "remaining_or_none dl w")
    (auto simp: recv_by_def socket_recv_def io_bind_def same_data_def Let_def
      dest!: remaining_or_none_frame socket_select_frame retry_frame
      split: option.split_asm sum.split_asm prod.split_asm sysret.split_asm)

lemma recv_loop_sent: "recv_loop dl sk s w = Some (r, w') \<Longrightarrow> sent w' = sent w"
proof (induction dl sk s w rule: recv_loop.induct)
  case (1 dl sk s w)
  from 1(2) obtain x w1 where w1: "recv_by dl sk w = Some (x, w1)"
    by (subst (asm) recv_loop.simps) (auto split: option.splits)
  note sent1 = recv_by_sent [OF w1]
  show ?case
  proof (cases x)
    case (Inl e)
    with 1(2) w1 sent1 show ?thesis by (simp add: recv_loop.simps [of dl sk s w])
  next
    case (Inr seg)
    with 1(2) w1 sent1 1(1) [of "(x, w1)" x w1 seg] show ?thesis
      by (auto simp: recv_loop.simps [of dl sk s w] split: if_splits sum.splits)
  qed
qed

section \<open>The state in which the response is read\<close>

text \<open>
  The part of \<open>Request_send\<close> up to the last byte of the request, with the deadline and the
  socket that the loop over the response is then called with.
\<close>

definition start_request ::
    "internet_protocol \<Rightarrow> uri \<Rightarrow> bytes \<Rightarrow> bytes \<Rightarrow> header_field list \<Rightarrow> int \<Rightarrow> os \<Rightarrow>
      (deadline \<times> socket) io" where
  "start_request p u method body hs tmo w =
     (let (dl, w) = make_deadline tmo w
      in if uri_scheme u \<noteq> str ''http'' then Some (Inl only_http, w)
         else
           io_bind (get_address p u w) (\<lambda>_ w.
           io_bind (Some (encodeHtml u method body hs, w)) (\<lambda>request_data w.
           io_bind (Socket p w) (\<lambda>sk w.
           io_bind (connect_by dl sk w) (\<lambda>_ w.
           io_bind (send_loop dl sk request_data w) (\<lambda>_ w. Some (Inr (dl, sk), w)))))))"

text \<open>What the destructors do at the end of a call that has come so far.\<close>

definition finish_request :: "socket \<Rightarrow> os \<Rightarrow> os" where
  "finish_request sk w = record_call Free_addresses (destroy_socket sk w)"

lemma Request_send_started:
  assumes "start_request p u m body hs tmo w = Some (Inr (dl, sk), w1)"
  shows "Request_send junk p u m body hs tmo w =
    at_exit (finish_request sk) (recv_loop dl sk (initial_state junk) w1)"
proof -
  obtain dl' w0 where w0: "make_deadline tmo w = (dl', w0)" by fastforce
  with assms obtain w2 dat w3 where "uri_scheme u = str ''http''" "get_address p u w0 = Some (Inr (), w2)"
    "encodeHtml u m body hs = Inr dat" "Socket p w2 = Some (Inr sk, w3)"
    and run: "io_bind (connect_by dl sk w3) (\<lambda>_. send_loop dl sk dat) = Some (Inr (), w1)" and "dl' = dl"
    by (auto simp: start_request_def io_bind_Inr split: if_splits)
  moreover have "exchange junk dl sk dat w3 = recv_loop dl sk (initial_state junk) w1"
    using run by (auto simp: exchange_def io_bind_Inr) (simp add: io_bind_def)
  ultimately show ?thesis
    by (simp add: Request_send_def w0 io_bind_def at_exit_def finish_request_def [abs_def] option.map_comp
        prod.map_comp o_def id_def)
qed

lemma Request_send_returned:
  assumes "Request_send junk p u m body hs tmo w = Some (Inr r, w')"
  obtains dl sk w1 w2 where "start_request p u m body hs tmo w = Some (Inr (dl, sk), w1)"
    "recv_loop dl sk (initial_state junk) w1 = Some (Inr r, w2)" "w' = finish_request sk w2"
proof -
  obtain dl w0 where w0: "make_deadline tmo w = (dl, w0)" by fastforce
  with assms obtain w2 dat sk w3 w4 where "uri_scheme u = str ''http''" "get_address p u w0 = Some (Inr (), w2)"
    "encodeHtml u m body hs = Inr dat" "Socket p w2 = Some (Inr sk, w3)"
    "exchange junk dl sk dat w3 = Some (Inr r, w4)" "w' = finish_request sk w4"
    by (auto simp: Request_send_def io_bind_Inr finish_request_def split: if_splits)
  with that w0 show thesis
    by (auto simp: start_request_def exchange_def io_bind_Inr)
qed

lemma steady_now_sent: "steady_now w = (t, w') \<Longrightarrow> sent w' = sent w"
  by (auto simp: steady_now_def Let_def)

lemma finish_request_sent [simp]: "sent (finish_request sk w) = sent w"
  by (simp add: finish_request_def destroy_socket_def socket_close_def)

lemma start_request_sent:
  assumes "start_request p u method body hs tmo w = Some (Inr r, w')"
  shows "uri_scheme u = str ''http'' \<and> (\<forall>f \<in> set (all_fields u body hs). field_accepted f) \<and>
    sent w' = sent w @ request_bytes_of u method body hs"
proof -
  have deadline: "make_deadline tmo w = (dl, w0) \<Longrightarrow> sent w0 = sent w" for dl w0
    by (auto simp: make_deadline_def split: prod.splits dest: steady_now_sent)
  have address: "get_address p u w0 = Some (Inr (), w1) \<Longrightarrow> sent w1 = sent w0" for w0 w1
    by (auto simp: get_address_def Let_def split: option.splits)
  have socket: "Socket p w0 = Some (Inr sk, w1) \<Longrightarrow> sent w1 = sent w0" for w0 w1 sk
    by (auto simp: Socket_def set_nonblocking_def Let_def split: sysret.splits)
  show ?thesis
    using assms
    by (auto simp: start_request_def io_bind_Inr encodeHtml_Inr
        dest!: deadline address socket connect_by_sent send_loop_sent split: if_splits prod.splits)
qed

lemma Socket_sent: "Socket p w = Some (r, w') \<Longrightarrow> sent w' = sent w"
  by (auto simp: Socket_def set_nonblocking_def Let_def socket_close_def split: sysret.splits)

lemma get_address_sent: "get_address p u w = Some (r, w') \<Longrightarrow> sent w' = sent w"
  by (auto simp: get_address_def Let_def split: option.splits)

lemma exchange_prefix:
  "exchange junk dl sk dat w = Some (r, w') \<Longrightarrow> \<exists>k. sent w' = sent w @ take k dat"
  by (auto simp: exchange_def io_bind_Some dest!: connect_by_sent recv_loop_sent send_loop_prefix intro: exI [of _ 0])

lemma Request_send_prefix:
  assumes "Request_send junk p u method body hs tmo w = Some (r, w')"
  shows "\<exists>k. sent w' = sent w @ take k (request_bytes_of u method body hs)"
proof -
  obtain dl w0 where dl: "make_deadline tmo w = (dl, w0)" by fastforce
  then have "sent w0 = sent w"
    by (auto simp: make_deadline_def split: prod.splits dest: steady_now_sent)
  moreover have "\<exists>k. sent w' = sent w0 @ take k (request_bytes_of u method body hs)"
    using assms dl
    by (auto simp: Request_send_def io_bind_Some encodeHtml_Inr destroy_socket_def socket_close_def
        dest!: get_address_sent Socket_sent exchange_prefix split: if_splits intro: exI [of _ 0])
  ultimately show ?thesis by simp
qed

lemma Request_send_other_scheme:
  assumes "Request_send junk p u method body hs tmo w = Some (r, w')" and "uri_scheme u \<noteq> str ''http''"
  shows "r = Inl only_http \<and> sent w' = sent w \<and> trace w' = trace w @ [Clock (clock w (readings w))]"
  using assms by (auto simp: Request_send_def make_deadline_def steady_now_def Let_def)

lemma completed_request_sent:
  assumes "Request_send junk p u method body hs tmo w = Some (Inr resp, w')"
  shows "uri_scheme u = str ''http'' \<and> sent w' = sent w @ request_bytes_of u method body hs \<and>
    (\<forall>f \<in> set (all_fields u body hs). {0x0D, 0x0A} \<inter> set (fst f @ snd f) = {})"
proof -
  obtain dl sk w1 w2 where w1: "start_request p u method body hs tmo w = Some (Inr (dl, sk), w1)"
    and "recv_loop dl sk (initial_state junk) w1 = Some (Inr resp, w2)" "w' = finish_request sk w2"
    using Request_send_returned [OF assms] by blast
  then have "sent w' = sent w1" by (auto dest: recv_loop_sent)
  with start_request_sent [OF w1] field_accepted_line show ?thesis by auto
qed

section \<open>The parts of a URI\<close>

lemma find_char: "c \<notin> set a \<Longrightarrow> find_sub [c] (a @ c # b) = Some (length a)"
  by (simp add: find_sub_skip)

lemma find_char_None: "c \<notin> set a \<Longrightarrow> find_sub [c] a = None"
  by (induction a) auto

lemma cut_at_simps:
  "c \<notin> set a \<Longrightarrow> cut_at c (a @ c # b) = Some (a, b)"
  "c \<notin> set a \<Longrightarrow> cut_at c a = None"
  by (simp_all add: cut_at_def find_char find_char_None)

definition uri_text :: "bytes \<Rightarrow> bytes option \<Rightarrow> bytes \<Rightarrow> bytes" where
  "uri_text host prt path =
     str ''http://'' @ host @ (case prt of None \<Rightarrow> [] | Some p \<Rightarrow> of_char CHR '':'' # p) @ path"

definition uri_text_ok :: "bytes \<Rightarrow> bytes option \<Rightarrow> bytes \<Rightarrow> bool" where
  "uri_text_ok host prt path \<longleftrightarrow>
     set host \<inter> set (str ''/?#@:'') = {} \<and>
     (case prt of None \<Rightarrow> True | Some p \<Rightarrow> set p \<inter> set (str ''/?#@:'') = {}) \<and>
     set path \<inter> set (str ''?#'') = {} \<and> (path = [] \<or> hd path = of_char CHR ''/'')"

definition http_uri :: "bytes \<Rightarrow> bytes option \<Rightarrow> bytes \<Rightarrow> bytes \<Rightarrow> uri" where
  "http_uri host prt path query =
     \<lparr>uri_scheme = str ''http'', uri_user = [], uri_password = [], uri_host = host,
      uri_port = (case prt of None \<Rightarrow> [] | Some p \<Rightarrow> p),
      uri_path = (if path = [] then str ''/'' else path), uri_query = query, uri_fragment = []\<rparr>"

lemma parse_authority_parts:
  assumes "of_char CHR ''?'' \<notin> set (auth @ path)" and "of_char CHR ''#'' \<notin> set (auth @ path @ query)"
    and "of_char CHR ''/'' \<notin> set auth" and "of_char CHR ''@'' \<notin> set auth"
    and "path = [] \<or> hd path = of_char CHR ''/''"
    and "(case cut_at (of_char CHR '':'') auth of None \<Rightarrow> (auth, []) | Some r \<Rightarrow> r) = (host, prt)"
  shows "parse_authority sch ((auth @ path) @ of_char CHR ''?'' # query) =
    \<lparr>uri_scheme = sch, uri_user = [], uri_password = [], uri_host = host, uri_port = prt,
     uri_path = (if path = [] then str ''/'' else path), uri_query = query, uri_fragment = []\<rparr>"
proof -
  have frag: "cut_at (of_char CHR ''#'') ((auth @ path) @ of_char CHR ''?'' # query) = None"
    using assms(2) by (intro cut_at_simps) auto
  have query: "cut_at (of_char CHR ''?'') ((auth @ path) @ of_char CHR ''?'' # query) = Some (auth @ path, query)"
    using assms(1) by (rule cut_at_simps)
  have path: "(case find_sub [of_char CHR ''/''] (auth @ path) of
      None \<Rightarrow> (auth @ path, str ''/'') | Some n \<Rightarrow> (take n (auth @ path), drop n (auth @ path))) =
      (auth, if path = [] then str ''/'' else path)"
  proof (cases path)
    case Nil
    with assms(3) show ?thesis by (simp add: find_char_None)
  next
    case (Cons c cs)
    with assms(5) have "c = of_char CHR ''/''" by simp
    with Cons find_char [OF assms(3), of cs] show ?thesis by simp
  qed
  have user: "cut_at (of_char CHR ''@'') auth = None" using assms(4) by (rule cut_at_simps)
  show ?thesis
    unfolding parse_authority_def frag option.case Let_def prod.case query path user assms(6) by (rule refl)
qed

lemma parse_authority_text:
  assumes "uri_text_ok host prt path" and "of_char CHR ''#'' \<notin> set query"
  shows "parse_authority (str ''http'')
      (((host @ (case prt of None \<Rightarrow> [] | Some p \<Rightarrow> of_char CHR '':'' # p)) @ path) @
       of_char CHR ''?'' # query) = http_uri host prt path query"
  unfolding http_uri_def
proof (rule parse_authority_parts)
  have "of_char CHR '':'' \<notin> set host" using assms(1) by (auto simp: uri_text_ok_def)
  then show "(case cut_at (of_char CHR '':'') (host @ (case prt of None \<Rightarrow> [] | Some p \<Rightarrow> of_char CHR '':'' # p)) of
      None \<Rightarrow> (host @ (case prt of None \<Rightarrow> [] | Some p \<Rightarrow> of_char CHR '':'' # p), []) | Some r \<Rightarrow> r) =
      (host, case prt of None \<Rightarrow> [] | Some p \<Rightarrow> p)"
    by (cases prt) (simp_all add: cut_at_simps)
qed (use assms in \<open>auto simp: uri_text_ok_def split: option.splits\<close>)

lemma parseUri_http:
  assumes "uri_text_ok host prt path" and "of_char CHR ''#'' \<notin> set query"
  shows "parseUri (uri_text host prt path @ of_char CHR ''?'' # query) = Inr (http_uri host prt path query)"
proof -
  let ?a = "((host @ (case prt of None \<Rightarrow> [] | Some p \<Rightarrow> of_char CHR '':'' # p)) @ path) @
      of_char CHR ''?'' # query"
  have shape: "uri_text host prt path @ of_char CHR ''?'' # query = str ''http'' @ str ''://'' @ ?a"
    by (simp add: uri_text_def)
  have "scheme_char 116" "scheme_char 112" "\<not> scheme_char 58" "isAlphaChar 104"
    by (simp_all add: scheme_char_def isAlphaChar_def isDigitChar_def)
  then have "parseUri (str ''http'' @ str ''://'' @ a) = Inr (parse_authority (str ''http'') a)" for a
    using expect_all_ok [of _ "str ''://''" a] by (simp add: parseUri_def Let_def)
  then show ?thesis by (simp only: shape parse_authority_text [OF assms])
qed

end
