(* ===== verification/Http_Calls.thy ===== *)
theory Http_Calls
  imports Http_Request
begin

text \<open>
  The system calls of a request: which descriptor they are given, and how long they may
  wait. \<open>socket_calls\<close> is the contract of the three operations that the two loops of
  \<^verbatim>\<open>Request::send\<close> call; it is met by the rule about descriptors and by the rule about
  deadlines.
\<close>

section \<open>The two rules\<close>

text \<open>
  The address list is released once, a descriptor is used only between its opening and its
  closing, it is closed once, and nothing is left at the end.
\<close>

fun well_used :: "bool \<Rightarrow> int list \<Rightarrow> sys_call list \<Rightarrow> bool" where
  "well_used addrs fds [] \<longleftrightarrow> \<not> addrs \<and> fds = []"
| "well_used addrs fds (Clock t # tr) \<longleftrightarrow> well_used addrs fds tr"
| "well_used addrs fds (Get_addresses f # tr) \<longleftrightarrow> \<not> addrs \<and> well_used True fds tr"
| "well_used addrs fds (Free_addresses # tr) \<longleftrightarrow> addrs \<and> well_used False fds tr"
| "well_used addrs fds (Open_socket f fd # tr) \<longleftrightarrow> fd \<notin> set fds \<and> well_used addrs (fd # fds) tr"
| "well_used addrs fds (Close fd # tr) \<longleftrightarrow> fd \<in> set fds \<and> well_used addrs (remove1 fd fds) tr"
| "well_used addrs fds (Get_flags fd # tr) \<longleftrightarrow> fd \<in> set fds \<and> well_used addrs fds tr"
| "well_used addrs fds (Set_flags fd # tr) \<longleftrightarrow> fd \<in> set fds \<and> well_used addrs fds tr"
| "well_used addrs fds (Connect fd # tr) \<longleftrightarrow> fd \<in> set fds \<and> well_used addrs fds tr"
| "well_used addrs fds (Get_error fd # tr) \<longleftrightarrow> fd \<in> set fds \<and> well_used addrs fds tr"
| "well_used addrs fds (Select fd ty tv # tr) \<longleftrightarrow> fd \<in> set fds \<and> well_used addrs fds tr"
| "well_used addrs fds (Send fd # tr) \<longleftrightarrow> fd \<in> set fds \<and> well_used addrs fds tr"
| "well_used addrs fds (Recv fd # tr) \<longleftrightarrow> fd \<in> set fds \<and> well_used addrs fds tr"
| "well_used addrs fds (Interrupted d # tr) \<longleftrightarrow> well_used addrs fds tr"

text \<open>
  What an interrupted \<^verbatim>\<open>select\<close> leaves in its \<^verbatim>\<open>timeval\<close>: the time not slept (Linux), or what
  was there before (POSIX, which lets a call that fails change nothing).
\<close>

definition micros :: "timeval \<Rightarrow> int" where
  "micros tv = fst tv * 1000000 + snd tv"

definition rest_of :: "bool \<Rightarrow> nat \<Rightarrow> timeval \<Rightarrow> timeval" where
  "rest_of updated d tv =
     (if updated then (let n = max 0 (micros tv - int d) in (n div 1000000, n mod 1000000)) else tv)"

text \<open>
  A wait without a bound belongs to a request without a time-out. A bounded wait has a
  well-formed \<^verbatim>\<open>timeval\<close> and ends by the stop time, counted from the last reading of the
  clock; when that is past the stop time it does not wait at all. If the \<^verbatim>\<open>timeval\<close> is updated
  then the time of interrupted waits is counted as well.
\<close>

fun wait_ok :: "deadline \<Rightarrow> int option \<Rightarrow> timeval option \<Rightarrow> bool" where
  "wait_ok dl r None \<longleftrightarrow> timeout dl < 0"
| "wait_ok dl None (Some tv) \<longleftrightarrow> False"
| "wait_ok dl (Some t) (Some (s, us)) \<longleftrightarrow>
     timeout dl \<ge> 0 \<and> s \<ge> 0 \<and> us \<ge> 0 \<and> us < 1000000 \<and>
     t + (s * 1000000 + us) * 1000 \<le> max t (stopTime dl)"

fun waits_ok :: "bool \<Rightarrow> deadline \<Rightarrow> int option \<Rightarrow> sys_call list \<Rightarrow> bool" where
  "waits_ok updated dl r [] \<longleftrightarrow> True"
| "waits_ok updated dl r (Clock t # tr) \<longleftrightarrow> waits_ok updated dl (Some t) tr"
| "waits_ok updated dl r (Select fd ty tv # tr) \<longleftrightarrow> wait_ok dl r tv \<and> waits_ok updated dl r tr"
| "waits_ok updated dl r (Interrupted d # tr) \<longleftrightarrow>
     waits_ok updated dl (map_option (\<lambda>t. if updated then t + int d * 1000 else t) r) tr"
| "waits_ok updated dl r (c # tr) \<longleftrightarrow> waits_ok updated dl r tr"

section \<open>The calls of one operation\<close>

definition plain_calls :: "int \<Rightarrow> sys_call set" where
  "plain_calls fd = {Connect fd, Get_error fd, Send fd, Recv fd}"

text \<open>A \<^verbatim>\<open>select\<close> that is interrupted after the times in the list.\<close>

fun select_calls :: "(nat \<Rightarrow> timeval \<Rightarrow> timeval) \<Rightarrow> int \<Rightarrow> select_type \<Rightarrow> timeval option \<Rightarrow> nat list \<Rightarrow>
    sys_call list" where
  "select_calls left fd ty tv [] = [Select fd ty tv]"
| "select_calls left fd ty tv (d # ds) =
     Select fd ty tv # Interrupted d # select_calls left fd ty (map_option (left d) tv) ds"

definition op_trace :: "(nat \<Rightarrow> timeval \<Rightarrow> timeval) \<Rightarrow> int \<Rightarrow> int \<Rightarrow> sys_call list \<Rightarrow> bool" where
  "op_trace left fd tmo tr \<longleftrightarrow>
     (\<exists>a b. set (a @ b) \<subseteq> plain_calls fd \<and>
        (tr = a \<or> (\<exists>ty ds. tr = a @ select_calls left fd ty (select_timeout tmo) ds @ b)))"

lemma op_traceI:
  "set a \<subseteq> plain_calls fd \<Longrightarrow> op_trace left fd tmo a"
  "set a \<subseteq> plain_calls fd \<Longrightarrow> set b \<subseteq> plain_calls fd \<Longrightarrow>
    op_trace left fd tmo (a @ select_calls left fd ty (select_timeout tmo) ds @ b)"
  unfolding op_trace_def by (rule exI [of _ a]; fastforce)+

text \<open>
  What the calls between two states append to the trace, under the way in which the operating
  system treats the \<^verbatim>\<open>timeval\<close>, which does not change.
\<close>

definition appends :: "((nat \<Rightarrow> timeval \<Rightarrow> timeval) \<Rightarrow> sys_call list \<Rightarrow> bool) \<Rightarrow> os \<Rightarrow> os \<Rightarrow> bool" where
  "appends ok w w' \<longleftrightarrow> left_time w' = left_time w \<and> (\<exists>tr. trace w' = trace w @ tr \<and> ok (left_time w) tr)"

lemma appendsI: "trace w' = trace w @ tr \<Longrightarrow> left_time w' = left_time w \<Longrightarrow> ok (left_time w) tr \<Longrightarrow> appends ok w w'"
  by (auto simp: appends_def)

definition appends_op :: "deadline \<Rightarrow> socket \<Rightarrow> os \<Rightarrow> os \<Rightarrow> bool" where
  "appends_op dl sk w w' \<longleftrightarrow>
     (case remaining_or_none dl w of (tmo, w0) \<Rightarrow> appends (\<lambda>left. op_trace left (endpoint sk) tmo) w0 w')"

lemma select_retry_trace:
  "select_retry fd ty tv rs w = Some (x, r, w') \<Longrightarrow>
    left_time w' = left_time w \<and> (\<exists>ds. trace w' = trace w @ select_calls (left_time w) fd ty tv ds)"
proof (induction fd ty tv rs w rule: select_retry.induct)
  case (3 fd ty tv e rs w)
  show ?case
  proof (cases "e = EINTR")
    case True
    let ?d = "slept w (length rs)"
    from 3(1) [OF refl True refl] 3(2) True obtain ds where "left_time w' = left_time w"
      "trace w' = (trace w @ [Select fd ty tv, Interrupted ?d]) @
        select_calls (left_time w) fd ty (map_option (left_time w ?d) tv) ds"
      by (auto simp: Let_def)
    then show ?thesis by (intro conjI exI [of _ "?d # ds"]) simp_all
  next
    case False
    with 3(2) show ?thesis by (intro conjI exI [of _ "[]"]) (auto simp: Let_def)
  qed
qed (auto intro: exI [of _ "[]"])

lemma socket_select_trace:
  "socket_select sk ty tmo w = Some (r, w') \<Longrightarrow>
    left_time w' = left_time w \<and>
    (\<exists>ds. trace w' = trace w @ select_calls (left_time w) (endpoint sk) ty (select_timeout tmo) ds)"
  by (auto simp: socket_select_def split: option.splits sysret.splits dest!: select_retry_trace; blast)

lemma retry_trace:
  "retry c rs w = Some (x, r, w') \<Longrightarrow> c \<in> plain_calls fd \<Longrightarrow>
    left_time w' = left_time w \<and> (\<exists>tr. set tr \<subseteq> plain_calls fd \<and> trace w' = trace w @ tr)"
  by (frule retry_frame) (metis set_replicate_conv_if empty_subsetI insert_subset)

lemma plain_calls_simps [simp]:
  "Connect fd \<in> plain_calls fd" "Get_error fd \<in> plain_calls fd" "Send fd \<in> plain_calls fd" "Recv fd \<in> plain_calls fd"
  by (simp_all add: plain_calls_def)

lemma socket_connect_trace:
  assumes "socket_connect sk tmo w = Some (r, w')"
  shows "appends (\<lambda>left. op_trace left (endpoint sk) tmo) w w'"
proof -
  let ?c = "Connect (endpoint sk)"
  obtain x rs w1 where w1: "retry ?c (connects w) w = Some (x, rs, w1)"
    using assms by (auto simp: socket_connect_def split: option.splits)
  from retry_trace [OF w1, of "endpoint sk"] obtain a where a: "left_time w1 = left_time w"
    "set a \<subseteq> plain_calls (endpoint sk)" "trace w1 = trace w @ a" by auto
  have w': "w' = w1\<lparr>connects := rs\<rparr> \<or>
      (\<exists>e w2. socket_select sk SelectWrite tmo (w1\<lparr>connects := rs\<rparr>) = Some (e, w2) \<and>
        (w' = w2 \<or> w' = record_call (Get_error (endpoint sk)) w2))"
    using assms w1 by (auto simp: socket_connect_def io_bind_Some split: sysret.splits if_splits)
  then show ?thesis
  proof (elim disjE exE conjE)
    assume "w' = w1\<lparr>connects := rs\<rparr>"
    with a show ?thesis by (intro appendsI) (auto intro: op_traceI)
  next
    fix e w2
    assume sel: "socket_select sk SelectWrite tmo (w1\<lparr>connects := rs\<rparr>) = Some (e, w2)"
    from socket_select_trace [OF this] a obtain ds where ds: "left_time w2 = left_time w"
      "trace w2 = trace w @ a @ select_calls (left_time w) (endpoint sk) SelectWrite (select_timeout tmo) ds" by auto
    show ?thesis if "w' = w2"
      using op_traceI(2) [OF a(2), of "[]"] ds that by (intro appendsI) auto
    show ?thesis if "w' = record_call (Get_error (endpoint sk)) w2"
      using op_traceI(2) [OF a(2), of "[Get_error (endpoint sk)]"] ds that by (intro appendsI) auto
  qed
qed

text \<open>A transfer: the wait, then the call with its repetitions.\<close>

lemma transfer_trace:
  assumes "socket_select sk ty tmo w = Some (e, w1)"
    and "w' = w1 \<or> (\<exists>c rs x r w2. c \<in> plain_calls (endpoint sk) \<and> retry c rs w1 = Some (x, r, w2) \<and>
      trace w' = trace w2 \<and> left_time w' = left_time w2)"
  shows "appends (\<lambda>left. op_trace left (endpoint sk) tmo) w w'"
proof -
  from socket_select_trace [OF assms(1)] obtain ds where ds: "left_time w1 = left_time w"
    "trace w1 = trace w @ select_calls (left_time w) (endpoint sk) ty (select_timeout tmo) ds" by auto
  from assms(2) obtain b where "left_time w' = left_time w1" "set b \<subseteq> plain_calls (endpoint sk)"
    "trace w' = trace w1 @ b"
    using retry_trace by (metis append_Nil2 empty_set empty_subsetI)
  with ds op_traceI(2) [of "[]" "endpoint sk" b] show ?thesis by (intro appendsI) auto
qed

lemma connect_by_trace: "connect_by dl sk w = Some (r, w') \<Longrightarrow> appends_op dl sk w w'"
  by (cases "remaining_or_none dl w") (simp add: connect_by_def appends_op_def socket_connect_trace)

lemma socket_send_trace:
  assumes "socket_send sk dat tmo w = Some (r, w')"
  shows "appends (\<lambda>left. op_trace left (endpoint sk) tmo) w w'"
proof -
  obtain e w1 where w1: "socket_select sk SelectWrite tmo w = Some (e, w1)"
    using assms by (auto simp: socket_send_def io_bind_Some)
  show ?thesis
    by (rule transfer_trace [OF w1])
      (use assms w1 in \<open>auto simp: socket_send_def io_bind_Some split: option.splits sysret.splits;
        force intro: exI [of _ "Send (endpoint sk)"]\<close>)
qed

lemma socket_recv_trace:
  assumes "socket_recv sk tmo w = Some (r, w')"
  shows "appends (\<lambda>left. op_trace left (endpoint sk) tmo) w w'"
proof -
  obtain e w1 where w1: "socket_select sk SelectRead tmo w = Some (e, w1)"
    using assms by (auto simp: socket_recv_def io_bind_Some)
  show ?thesis
    by (rule transfer_trace [OF w1])
      (use assms w1 in \<open>auto simp: socket_recv_def io_bind_Some split: option.splits sysret.splits;
        force intro: exI [of _ "Recv (endpoint sk)"]\<close>)
qed

lemma send_by_trace: "send_by dl sk dat w = Some (r, w') \<Longrightarrow> appends_op dl sk w w'"
  by (cases "remaining_or_none dl w") (simp add: send_by_def appends_op_def socket_send_trace)

lemma recv_by_trace: "recv_by dl sk w = Some (r, w') \<Longrightarrow> appends_op dl sk w w'"
  by (cases "remaining_or_none dl w") (simp add: recv_by_def appends_op_def socket_recv_trace)

section \<open>The loops\<close>

locale socket_calls =
  fixes ok :: "(nat \<Rightarrow> timeval \<Rightarrow> timeval) \<Rightarrow> sys_call list \<Rightarrow> bool" and dl :: deadline and sk :: socket
  assumes ok_Nil: "ok left []"
    and ok_append: "ok left a \<Longrightarrow> ok left b \<Longrightarrow> ok left (a @ b)"
    and ok_op: "appends_op dl sk w w' \<Longrightarrow> appends ok w w'"
begin

lemma appends_refl: "appends ok w w"
  by (rule appendsI [of _ _ "[]"]) (simp_all add: ok_Nil)

lemma appends_trans: "appends ok w w1 \<Longrightarrow> appends ok w1 w2 \<Longrightarrow> appends ok w w2"
  by (auto simp: appends_def intro: ok_append)

lemma send_loop_calls: "send_loop dl' sk' dat w = Some (r, w') \<Longrightarrow> dl' = dl \<Longrightarrow> sk' = sk \<Longrightarrow> appends ok w w'"
proof (induction dl' sk' dat w rule: send_loop.induct)
  case (1 dl' sk' dat w)
  show ?case
  proof (cases "dat = []")
    case True
    with 1(2) show ?thesis by (simp add: send_loop.simps appends_refl)
  next
    case False
    with 1(2) obtain x w1 where w1: "send_by dl' sk' dat w = Some (x, w1)"
      by (subst (asm) send_loop.simps) (auto split: option.splits)
    then have op: "appends ok w w1" using send_by_trace ok_op 1(3,4) by blast
    show ?thesis
    proof (cases x)
      case (Inl e)
      with 1(2) w1 False op show ?thesis by (simp add: send_loop.simps [of dl' sk' dat w])
    next
      case (Inr n)
      with 1(2) w1 False have "send_loop dl' sk' (drop n dat) w1 = Some (r, w')"
        by (simp add: send_loop.simps [of dl' sk' dat w])
      with 1(1) [OF False, of "(x, w1)" x w1 n] w1 Inr 1(3,4) op show ?thesis by (auto intro: appends_trans)
    qed
  qed
qed

lemma recv_loop_calls: "recv_loop dl' sk' s w = Some (r, w') \<Longrightarrow> dl' = dl \<Longrightarrow> sk' = sk \<Longrightarrow> appends ok w w'"
proof (induction dl' sk' s w rule: recv_loop.induct)
  case (1 dl' sk' s w)
  from 1(2) obtain x w1 where w1: "recv_by dl' sk' w = Some (x, w1)"
    by (subst (asm) recv_loop.simps) (auto split: option.splits)
  then have op: "appends ok w w1" using recv_by_trace ok_op 1(3,4) by blast
  show ?case
  proof (cases "\<exists>seg s'. x = Inr seg \<and> seg \<noteq> [] \<and> segment_step seg s = Inr (Inr s')")
    case True
    then obtain seg s' where x: "x = Inr seg" "seg \<noteq> []" "segment_step seg s = Inr (Inr s')" by blast
    with 1(2) w1 have "recv_loop dl' sk' s' w1 = Some (r, w')" by (simp add: recv_loop.simps [of dl' sk' s w])
    with 1(1) [of "(x, w1)" x w1 seg "Inr s'" s'] w1 x 1(3,4) op show ?thesis by (auto intro: appends_trans)
  next
    case False
    with 1(2) w1 op show ?thesis
      by (auto simp: recv_loop.simps [of dl' sk' s w] split: if_splits sum.splits)
  qed
qed

lemma exchange_calls: "exchange junk dl sk dat w = Some (r, w') \<Longrightarrow> appends ok w w'"
  by (auto simp: exchange_def io_bind_Some intro: appends_trans
      dest!: connect_by_trace [THEN ok_op] send_loop_calls [OF _ refl refl] recv_loop_calls [OF _ refl refl])

end

section \<open>Descriptors\<close>

definition uses_only :: "int \<Rightarrow> sys_call list \<Rightarrow> bool" where
  "uses_only fd tr \<longleftrightarrow> (\<forall>addrs fds tr2. fd \<in> set fds \<longrightarrow> well_used addrs fds (tr @ tr2) = well_used addrs fds tr2)"

lemma uses_only_append: "uses_only fd a \<Longrightarrow> uses_only fd b \<Longrightarrow> uses_only fd (a @ b)"
  by (auto simp: uses_only_def)

lemma uses_only_plain: "set tr \<subseteq> plain_calls fd \<Longrightarrow> uses_only fd tr"
  by (induction tr) (auto simp: uses_only_def plain_calls_def)

lemma uses_only_select: "uses_only fd (select_calls left fd ty tv ds)"
  by (induction left fd ty tv ds rule: select_calls.induct) (auto simp: uses_only_def)

lemma uses_only_op_trace: "op_trace left fd tmo tr \<Longrightarrow> uses_only fd tr"
  by (auto simp: op_trace_def intro: uses_only_append uses_only_plain uses_only_select)

lemma uses_only_clock: "uses_only fd [Clock t]"
  by (simp add: uses_only_def)

lemma remaining_or_none_trace:
  "remaining_or_none dl w = (tmo, w') \<Longrightarrow>
    left_time w' = left_time w \<and>
    trace w' = trace w @ (if timeout dl \<ge> 0 then [Clock (clock w (readings w))] else [])"
  by (auto simp: remaining_or_none_def getRemainingMilliseconds_def steady_now_def Let_def split: if_splits)

interpretation fd_calls: socket_calls "\<lambda>left. uses_only (endpoint sk)" dl sk
proof unfold_locales
  fix w w'
  assume "appends_op dl sk w w'"
  then obtain tmo w0 tr where w0: "remaining_or_none dl w = (tmo, w0)" "trace w' = trace w0 @ tr"
    "left_time w' = left_time w0" and tr: "op_trace (left_time w0) (endpoint sk) tmo tr"
    by (cases "remaining_or_none dl w") (auto simp: appends_op_def appends_def)
  note rem = remaining_or_none_trace [OF w0(1)]
  have "uses_only (endpoint sk) ((if timeout dl \<ge> 0 then [Clock (clock w (readings w))] else []) @ tr)"
    using uses_only_append [OF uses_only_clock] uses_only_op_trace [OF tr] by simp
  with w0 rem show "appends (\<lambda>left. uses_only (endpoint sk)) w w'" by (intro appendsI) auto
qed (auto simp: uses_only_def)

text \<open>What a whole call appends, up to the calls of the exchange.\<close>

definition request_trace :: "int \<Rightarrow> int \<Rightarrow> sys_call list \<Rightarrow> sys_call list" where
  "request_trace family fd tr =
     Get_addresses family # Open_socket family fd # Get_flags fd # tr @ [Close fd, Free_addresses]"

definition request_calls ::
    "(int \<Rightarrow> (nat \<Rightarrow> timeval \<Rightarrow> timeval) \<Rightarrow> sys_call list \<Rightarrow> bool) \<Rightarrow> int \<Rightarrow> (nat \<Rightarrow> timeval \<Rightarrow> timeval) \<Rightarrow>
      sys_call list \<Rightarrow> bool" where
  "request_calls ok family left tr \<longleftrightarrow>
     tr = [] \<or> tr = [Get_addresses family, Free_addresses] \<or>
     (\<exists>fd. tr = request_trace family fd [] \<or> tr = request_trace family fd [Set_flags fd] \<or>
       (\<exists>tr'. ok fd left tr' \<and> tr = request_trace family fd (Set_flags fd # tr')))"

lemma Socket_calls:
  assumes "Socket p w = Some (r, w')"
  shows "left_time w' = left_time w \<and> (case r of
      Inl e \<Rightarrow> trace w' = trace w \<or>
        (\<exists>fd tr. (tr = [] \<or> tr = [Set_flags fd]) \<and>
          trace w' = trace w @ Open_socket (getAddressFamily p) fd # Get_flags fd # tr @ [Close fd])
    | Inr sk \<Rightarrow> endpoint sk \<noteq> invalid \<and>
        trace w' = trace w @ [Open_socket (getAddressFamily p) (endpoint sk), Get_flags (endpoint sk),
          Set_flags (endpoint sk)])"
  using assms
  by (auto simp: Socket_def set_nonblocking_def Let_def socket_close_def invalid_def split: sysret.split_asm)

lemma Request_send_calls:
  assumes "Request_send junk p u m body hs tmo w = Some (r, w')" and "make_deadline tmo w = (dl, w0)"
    and ok: "\<And>sk dat w1 w2 r. exchange junk dl sk dat w1 = Some (r, w2) \<Longrightarrow> appends (ok (endpoint sk)) w1 w2"
  shows "appends (request_calls ok (getAddressFamily p)) w0 w'"
proof (cases "uri_scheme u = str ''http''")
  case False
  with assms(1,2) show ?thesis by (auto simp: Request_send_def appends_def request_calls_def)
next
  case http: True
  with assms(1,2) obtain x w1 where w1: "get_address p u w0 = Some (x, w1)"
    by (auto simp: Request_send_def io_bind_Some)
  show ?thesis
  proof (cases x)
    case (Inl e)
    with assms(1,2) http w1 show ?thesis
      by (auto simp: Request_send_def io_bind_def get_address_def Let_def appends_def request_calls_def
          split: option.splits)
  next
    case (Inr v)
    with w1 have addrs: "trace w1 = trace w0 @ [Get_addresses (getAddressFamily p)]"
      by (auto simp: get_address_def Let_def split: option.splits)
    let ?rem = "io_bind (Some (encodeHtml u m body hs, w1)) (\<lambda>dat w.
        io_bind (Socket p w) (\<lambda>sk w. at_exit (destroy_socket sk) (exchange junk dl sk dat w)))"
    obtain w2 where w2: "?rem = Some (r, w2)" and w': "w' = record_call Free_addresses w2"
      using assms(1,2) http w1 Inr by (auto simp: Request_send_def io_bind_step)
    from addrs have left: "left_time w1 = left_time w0" using w1
      by (auto simp: get_address_def Let_def split: option.splits)
    from w2 consider "w2 = w1" | e where "Socket p w1 = Some (Inl e, w2)"
      | sk dat w3 w4 where "Socket p w1 = Some (Inr sk, w3)" "exchange junk dl sk dat w3 = Some (r, w4)"
        "w2 = destroy_socket sk w4"
      by (auto simp: io_bind_Some)
    then show ?thesis
    proof cases
      case 1
      with addrs left w' show ?thesis by (auto simp: appends_def request_calls_def)
    next
      case 2
      from Socket_calls [OF this] addrs left w' show ?thesis
        by (auto simp: appends_def request_calls_def request_trace_def)
    next
      case 3
      from Socket_calls [OF 3(1)] ok [OF 3(2)] addrs left w' 3(3) show ?thesis
        by (auto simp: appends_def request_calls_def request_trace_def destroy_socket_def socket_close_def)
    qed
  qed
qed

section \<open>Descriptors are used and closed as they should\<close>

lemma request_calls_well_used:
  assumes "request_calls (\<lambda>fd left. uses_only fd) family left tr"
  shows "well_used False [] (Clock t # tr)"
proof -
  have "well_used True [fd] (tr' @ [Close fd, Free_addresses])" if "uses_only fd tr'" for fd tr'
    using that by (auto simp: uses_only_def)
  with assms show ?thesis by (auto simp: request_calls_def request_trace_def)
qed

lemma make_deadline_trace:
  "make_deadline tmo w = (dl, w0) \<Longrightarrow>
    left_time w0 = left_time w \<and> trace w0 = trace w @ [Clock (clock w (readings w))] \<and>
    dl = \<lparr>timeout = tmo, stopTime = clock w (readings w) + tmo * NS_PER_MS\<rparr>"
  by (auto simp: make_deadline_def steady_now_def Let_def)

lemma appends_deadline:
  assumes "make_deadline tmo w = (dl, w0)" and "appends ok w0 w'"
  shows "\<exists>tr. trace w' = trace w @ Clock (clock w (readings w)) # tr \<and> ok (left_time w) tr"
  using assms make_deadline_trace [OF assms(1)] by (auto simp: appends_def)

lemma Request_send_well_used:
  assumes "Request_send junk p u m body hs tmo w = Some (r, w')"
  shows "\<exists>tr. trace w' = trace w @ tr \<and> well_used False [] tr"
proof -
  obtain dl w0 where dl: "make_deadline tmo w = (dl, w0)" by fastforce
  from Request_send_calls [where ok = "\<lambda>fd left. uses_only fd", OF assms dl fd_calls.exchange_calls]
  have "appends (request_calls (\<lambda>fd left. uses_only fd) (getAddressFamily p)) w0 w'" .
  from appends_deadline [OF dl this] show ?thesis
    using request_calls_well_used by blast
qed

section \<open>Waits end by the deadline\<close>

lemma wait_ok_start: "wait_ok dl None tv \<Longrightarrow> wait_ok dl r tv"
  by (cases tv) auto

lemma waits_ok_start: "waits_ok upd dl None tr \<Longrightarrow> waits_ok upd dl r tr"
proof (induction tr arbitrary: r)
  case (Cons c tr)
  then show ?case by (cases c) (auto intro: wait_ok_start)
qed simp

lemma waits_ok_append: "waits_ok upd dl r a \<Longrightarrow> waits_ok upd dl None b \<Longrightarrow> waits_ok upd dl r (a @ b)"
  by (induction upd dl r a rule: waits_ok.induct) (auto intro: waits_ok_start)

lemma waits_ok_plain: "set tr \<subseteq> plain_calls fd \<Longrightarrow> waits_ok upd dl r tr"
  by (induction tr) (auto simp: plain_calls_def)

text \<open>Plain calls before a wait do not take time.\<close>

lemma waits_ok_plain_append: "set a \<subseteq> plain_calls fd \<Longrightarrow> waits_ok upd dl r (a @ b) = waits_ok upd dl r b"
  by (induction a) (auto simp: plain_calls_def)

text \<open>A wait that is repeated may last for what its \<^verbatim>\<open>timeval\<close> has left.\<close>

lemma wait_ok_rest:
  assumes "wait_ok dl r tv"
  shows "wait_ok dl (map_option (\<lambda>t. if upd then t + int d * 1000 else t) r) (map_option (rest_of upd d) tv)"
proof (cases "upd \<and> tv \<noteq> None")
  case True
  with assms obtain t s us where r: "r = Some t" "tv = Some (s, us)" by (cases r) auto
  let ?n = "max 0 (micros (s, us) - int d)"
  have "t + (s * 1000000 + us) * 1000 \<le> max t (stopTime dl)" using assms by (simp add: r)
  then have "t + int d * 1000 + ?n * 1000 \<le> max (t + int d * 1000) (stopTime dl)"
    by (auto simp: micros_def algebra_simps max_def split: if_splits)
  moreover have "?n div 1000000 * 1000000 + ?n mod 1000000 = ?n" by simp
  ultimately show ?thesis using assms True by (simp add: r rest_of_def Let_def del: max_less_iff_conj)
next
  case False
  then show ?thesis using assms
    by (cases tv; cases r; cases upd) (auto simp: rest_of_def)
qed

lemma waits_ok_select:
  "wait_ok dl r tv \<Longrightarrow> waits_ok upd dl r (select_calls (rest_of upd) fd ty tv ds)"
  by (induction ds arbitrary: r tv) (auto dest: wait_ok_rest)

lemma waits_ok_op_trace:
  assumes "op_trace (rest_of upd) fd tmo tr" and "wait_ok dl r (select_timeout tmo)"
  shows "waits_ok upd dl r tr"
  using assms(1) waits_ok_plain waits_ok_append [OF waits_ok_select [OF assms(2)] waits_ok_plain]
  by (auto simp: op_trace_def waits_ok_plain_append)

lemma select_timeout_ok:
  assumes "tmo = (let rem = (stopTime dl - t) sdiv NS_PER_MS in if rem > 0 then rem else 0)" and "timeout dl \<ge> 0"
  shows "wait_ok dl (Some t) (select_timeout tmo)"
proof -
  have tmo: "tmo \<ge> 0" using assms by (simp add: Let_def)
  have "t + tmo * 1000000 \<le> max t (stopTime dl)"
  proof (cases "tmo = 0")
    case False
    with assms(1) have "tmo = (stopTime dl - t) sdiv NS_PER_MS" "(stopTime dl - t) sdiv NS_PER_MS > 0"
      by (auto simp: Let_def split: if_splits)
    moreover from this have "stopTime dl - t > 0"
      by (auto simp: signed_divide_int_def NS_PER_MS_def sgn_if split: if_splits)
    ultimately show ?thesis by (simp add: signed_divide_int_def NS_PER_MS_def)
  qed simp
  moreover have "(tmo sdiv 1000) * 1000000 + (tmo smod 1000) * 1000 = tmo * 1000"
    using tmo by (simp add: signed_divide_int_def signed_modulo_int_def sgn_if) presburger
  ultimately show ?thesis using tmo assms(2)
    by (simp add: select_timeout_def signed_divide_int_def signed_modulo_int_def sgn_if)
qed

text \<open>The rule, for an operating system that treats the \<^verbatim>\<open>timeval\<close> in one of the two ways.\<close>

definition waits_rule :: "bool \<Rightarrow> deadline \<Rightarrow> (nat \<Rightarrow> timeval \<Rightarrow> timeval) \<Rightarrow> sys_call list \<Rightarrow> bool" where
  "waits_rule upd dl left tr \<longleftrightarrow> (left = rest_of upd \<longrightarrow> waits_ok upd dl None tr)"

interpretation wait_calls: socket_calls "waits_rule upd dl" dl sk
proof unfold_locales
  fix w w'
  assume "appends_op dl sk w w'"
  then obtain tmo w0 tr where w0: "remaining_or_none dl w = (tmo, w0)" "trace w' = trace w0 @ tr"
    "left_time w' = left_time w0" and tr: "op_trace (left_time w0) (endpoint sk) tmo tr"
    by (cases "remaining_or_none dl w") (auto simp: appends_op_def appends_def)
  note rem = remaining_or_none_trace [OF w0(1)]
  have "waits_ok upd dl None ((if timeout dl \<ge> 0 then [Clock (clock w (readings w))] else []) @ tr)"
    if left: "left_time w = rest_of upd"
  proof (cases "timeout dl \<ge> 0")
    case True
    then have "tmo = (let rem = (stopTime dl - clock w (readings w)) sdiv NS_PER_MS in if rem > 0 then rem else 0)"
      using w0(1) by (simp add: remaining_or_none_def getRemainingMilliseconds_def steady_now_def Let_def
          split: if_splits)
    from select_timeout_ok [OF this True] tr rem left True show ?thesis by (auto intro: waits_ok_op_trace)
  next
    case False
    with w0(1) have "wait_ok dl None (select_timeout tmo)"
      by (simp add: remaining_or_none_def select_timeout_def)
    with tr rem left False show ?thesis by (auto intro: waits_ok_op_trace)
  qed
  with w0 rem show "appends (waits_rule upd dl) w w'" by (intro appendsI) (auto simp: waits_rule_def)
qed (auto simp: waits_rule_def intro: waits_ok_append)

lemma request_calls_waits_ok:
  assumes "request_calls (\<lambda>fd. waits_rule upd dl) family (rest_of upd) tr"
  shows "waits_ok upd dl None (Clock t # tr)"
proof -
  have "waits_ok upd dl (Some t) (tr' @ [Close fd, Free_addresses])" if "waits_ok upd dl None tr'" for fd tr'
    using that by (auto intro: waits_ok_append waits_ok_start)
  with assms show ?thesis by (auto simp: request_calls_def request_trace_def waits_rule_def)
qed

lemma Request_send_waits_ok:
  assumes "Request_send junk p u m body hs tmo w = Some (r, w')" and "left_time w = rest_of upd"
  shows "\<exists>tr. trace w' = trace w @ tr \<and>
    waits_ok upd \<lparr>timeout = tmo, stopTime = clock w (readings w) + tmo * NS_PER_MS\<rparr> None tr"
proof -
  obtain dl w0 where dl: "make_deadline tmo w = (dl, w0)" by fastforce
  from Request_send_calls [where ok = "\<lambda>fd. waits_rule upd dl", OF assms(1) dl wait_calls.exchange_calls]
  have "appends (request_calls (\<lambda>fd. waits_rule upd dl) (getAddressFamily p)) w0 w'" .
  from appends_deadline [OF dl this] assms(2) obtain tr where
    "trace w' = trace w @ Clock (clock w (readings w)) # tr"
    "request_calls (\<lambda>fd. waits_rule upd dl) (getAddressFamily p) (rest_of upd) tr" by auto
  with request_calls_waits_ok [OF this(2), of "clock w (readings w)"] make_deadline_trace [OF dl]
  show ?thesis by auto
qed

end
