(* ===== verification/Http_Response.thy ===== *)
theory Http_Response
  imports Http_Head
begin

text \<open>
  Whole responses: what \<open>recv_loop\<close> returns when a server sends a head and a body with a
  \<^verbatim>\<open>Transfer-Encoding: chunked\<close> or a \<^verbatim>\<open>Content-Length\<close> field.
\<close>

section \<open>The fields that frame the body\<close>

definition plain_field :: "header_field \<Rightarrow> bool" where
  "plain_field f \<longleftrightarrow> fst f \<noteq> str ''transfer-encoding'' \<and> fst f \<noteq> str ''content-length''"

definition push_fields :: "header_field list \<Rightarrow> recv_state \<Rightarrow> recv_state" where
  "push_fields fs s = s\<lparr>response := (response s)\<lparr>resp_headers := resp_headers (response s) @ fs\<rparr>\<rparr>"

text \<open>The field \<open>f\<close> is the only one of \<open>fs\<close> that the client interprets.\<close>

definition framed_by :: "header_field \<Rightarrow> header_field list \<Rightarrow> bool" where
  "framed_by f fs \<longleftrightarrow>
     (\<exists>pre post. fs = pre @ f # post \<and> (\<forall>g \<in> set (pre @ post). plain_field g))"

lemma push_field_fields: "push_field f s = push_fields [f] s"
  by (simp add: push_field_def push_fields_def)

lemma push_fields_append: "push_fields gs (push_fields fs s) = push_fields (fs @ gs) s"
  by (simp add: push_fields_def)

lemma use_fields_plain:
  "\<forall>f \<in> set fs. plain_field f \<Longrightarrow> use_fields fs s = Inr (push_fields fs s)"
proof (induction fs arbitrary: s)
  case (Cons f fs)
  then have "use_field f s = Inr s" by (simp add: use_field_def plain_field_def)
  with Cons show ?case by (simp add: push_field_fields push_fields_append)
qed (simp add: push_fields_def)

lemma use_fields_append: "use_fields (fs @ gs) s = and_then (use_fields fs s) (use_fields gs)"
proof (induction fs arbitrary: s)
  case (Cons f fs)
  then show ?case by (cases "use_field f s") simp_all
qed simp

lemma use_fields_framed:
  assumes "framed_by f fs" and "\<And>s. use_field f s = Inr (g s)"
    and "\<And>s hs. g (push_fields hs s) = push_fields hs (g s)"
  shows "use_fields fs s = Inr (push_fields fs (g s))"
proof -
  from assms(1) obtain pre post where fs: "fs = pre @ f # post"
    and plain: "\<forall>g \<in> set pre. plain_field g" "\<forall>g \<in> set post. plain_field g"
    by (auto simp: framed_by_def)
  then show ?thesis
    by (simp add: use_fields_append use_fields_plain assms(2,3) push_field_fields push_fields_append)
qed

lemma use_chunked:
  assumes "framed_by (str ''transfer-encoding'', str ''chunked'') fs"
  shows "use_fields fs s = Inr (push_fields fs (s\<lparr>chunkedResponse := True\<rparr>))"
  by (rule use_fields_framed [OF assms]) (simp_all add: use_field_def push_fields_def)

lemma use_content_length:
  assumes "framed_by (str ''content-length'', decimal n) fs" and "n < 2 ^ 63"
  shows "use_fields fs s = Inr (push_fields fs (s\<lparr>contentLength := of_nat n, contentLengthReceived := True\<rparr>))"
proof (rule use_fields_framed [OF assms(1)])
  have "\<not> (of_nat n :: u64) > max_size"
    using assms(2) by (simp add: max_size_def word_less_nat_alt unat_of_nat not_less)
  then show "use_field (str ''content-length'', decimal n) s =
      Inr (s\<lparr>contentLength := of_nat n, contentLengthReceived := True\<rparr>)" for s
    by (simp add: use_field_def stringToUint_decimal)
qed (simp add: push_fields_def)

section \<open>The first segment\<close>

definition read_response :: "status \<Rightarrow> header_field list \<Rightarrow> bytes \<Rightarrow> response" where
  "read_response st fs body = \<lparr>resp_status = st, resp_headers = map lower_field fs, resp_body = body\<rparr>"

definition after_head :: "status \<Rightarrow> header_field list \<Rightarrow> bytes \<Rightarrow> recv_state \<Rightarrow> recv_state" where
  "after_head st fs d s =
     s\<lparr>responseData := d, parsingBody := True, response := read_response st fs []\<rparr>"

definition head_ok :: "status \<Rightarrow> header_field list \<Rightarrow> bool" where
  "head_ok st fs \<longleftrightarrow> status_ok st \<and> (\<forall>f \<in> set fs. field_ok f) \<and> fs \<noteq> []"

lemma first_segment:
  assumes "head_ok st fs"
    and "\<And>s. use_fields (map lower_field fs) s = Inr (push_fields (map lower_field fs) (g s))"
    and "\<And>s r d. g (s\<lparr>responseData := d, response := r\<rparr>) = (g s)\<lparr>responseData := d, response := r\<rparr>"
  shows "segment_step (response_head st fs @ d) (initial_state junk) =
    body_step (after_head st fs d (g (initial_state junk)))"
proof -
  let ?s = "initial_state junk"
  let ?s1 = "?s\<lparr>responseData := response_head st fs @ d\<rparr>"
  let ?h = "\<lparr>resp_status = st, resp_headers = [], resp_body = []\<rparr>"
  have "response ?s1\<lparr>resp_status := st\<rparr> = ?h" by (simp add: initial_state_def)
  moreover have "?s1\<lparr>response := ?h\<rparr> = ?s\<lparr>responseData := response_head st fs @ d, response := ?h\<rparr>"
    by simp
  ultimately have "parse_head ?s1 = Inr (Some (after_head st fs d (g ?s)))"
    using assms(1) parse_head_response [of st fs ?s1 d]
    by (simp add: head_ok_def assms(2) assms(3) push_fields_def after_head_def read_response_def)
  then show ?thesis by (simp add: segment_step_def Let_def) (simp add: initial_state_def)
qed

lemma cut_head:
  assumes "concat segs = h @ b" and "length h \<le> length (hd segs)" and "h \<noteq> []"
  obtains d rem where "segs = (h @ d) # rem" and "d @ concat rem = b"
proof -
  from assms(1,3) obtain seg rem where segs: "segs = seg # rem" by (cases segs) auto
  with assms have "take (length h) seg = h"
    by (metis append_eq_conv_conj concat.simps(2) list.sel(1) take_append append_Nil2 diff_is_0_eq' take0)
  then have "seg = h @ drop (length h) seg" by (metis append_take_drop_id)
  with segs assms(1) show ?thesis using that [of "drop (length h) seg" rem] by (metis append_assoc concat.simps(2) same_append_eq)
qed

lemma response_head_neq_Nil: "response_head st fs \<noteq> []"
  by (simp add: response_head_def crlf_def)

section \<open>A chunked body\<close>

lemma chunked_read:
  assumes "head_ok st fs" and "framed_by (str ''transfer-encoding'', str ''chunked'') (map lower_field fs)"
    and "\<forall>c \<in> set cs. chunk_ok c" and "delivers dl sk w segs" and "[] \<notin> set segs"
    and "concat segs = response_head st fs @ enc_chunks cs @ y"
    and "length (response_head st fs) \<le> length (hd segs)"
  shows "\<exists>w'. recv_loop dl sk (initial_state junk) w = Some (Inr (read_response st fs (concat cs)), w')"
proof -
  obtain d rem where segs: "segs = (response_head st fs @ d) # rem" and d: "d @ concat rem = enc_chunks cs @ y"
    using cut_head [OF assms(6,7) response_head_neq_Nil] by blast
  with assms(4) obtain w1 where w1: "recv_by dl sk w = Some (Inr (response_head st fs @ d), w1)" "delivers dl sk w1 rem"
    by (auto simp: delivers_Cons)
  let ?s0 = "after_head st fs d ((initial_state junk)\<lparr>chunkedResponse := True\<rparr>)"
  let ?r = "read_response st fs (concat cs)"
  have step: "segment_step (response_head st fs @ d) (initial_state junk) = chunk_loop ?s0"
    by (subst first_segment [OF assms(1) use_chunked [OF assms(2)]])
      (simp_all add: body_step_def after_head_def)
  have "chunk_loop (add_data (concat rem) ?s0) = Inr (Inl (add_body (concat cs) (response (add_data (concat rem) ?s0))))"
    by (rule chunk_loop_chunks [OF assms(3)])
      (simp_all add: after_head_def add_data_def initial_state_def d)
  then have whole: "resume (concat rem) (chunk_loop ?s0) = Inr (Inl ?r)"
    by (simp add: chunk_loop_append add_body_def after_head_def read_response_def)
  note loop = recv_loop_seg [OF w1(1), of "initial_state junk"]
  show ?thesis
  proof (cases "chunk_loop ?s0")
    case (Inl e)
    with whole show ?thesis by simp
  next
    case (Inr r)
    show ?thesis
    proof (cases r)
      case r: (Inl r')
      with Inr whole loop step show ?thesis by (simp add: response_head_neq_Nil)
    next
      case r: (Inr t)
      with Inr have t: "chunk_loop ?s0 = Inr (Inr t)" by simp
      have "chunk_loop t = Inr (Inr t)"
        using chunk_loop_append [of "[]" ?s0] t by simp
      with recv_chunked [of t dl sk w1 rem ?r] chunk_loop_flags [OF t] whole w1(2) assms(5) t segs
      have "\<exists>w'. recv_loop dl sk t w1 = Some (Inr ?r, w')" by (simp add: after_head_def)
      with loop step t show ?thesis by (simp add: response_head_neq_Nil)
    qed
  qed
qed

section \<open>A body with a length\<close>

lemma recv_identity:
  assumes "parsingBody s" and "\<not> chunkedResponse s" and "contentLengthReceived s"
    and "unat (contentLength s) = n" and "responseData s = []" and "delivers dl sk w segs" and "[] \<notin> set segs"
    and "length (resp_body (response s)) < n"
    and "resp_body (response s) @ concat segs = b" and "length b = n"
  shows "\<exists>w'. recv_loop dl sk s w = Some (Inr ((response s)\<lparr>resp_body := b\<rparr>), w')"
  using assms
proof (induction segs arbitrary: s w)
  case Nil
  then show ?case by auto
next
  case (Cons seg segs)
  from Cons.prems(6) obtain w1 where w1: "recv_by dl sk w = Some (Inr seg, w1)" "delivers dl sk w1 segs"
    by (auto simp: delivers_Cons)
  have ne: "seg \<noteq> []" using Cons.prems(7) by auto
  note loop = recv_loop_seg [OF w1(1) ne, of s]
  let ?b = "resp_body (response s) @ seg"
  let ?t = "s\<lparr>response := (response s)\<lparr>resp_body := ?b\<rparr>\<rparr>"
  have step: "segment_step seg s =
      (if n \<le> length ?b then Inr (Inl ((response s)\<lparr>resp_body := ?b\<rparr>)) else Inr (Inr ?t))"
    using Cons.prems(1-5) by (simp add: segment_step_def body_step_def identity_body_def Let_def)
  show ?case
  proof (cases "n \<le> length ?b")
    case True
    with Cons.prems(9,10) have "?b = b" by auto
    with True loop step show ?thesis by simp
  next
    case False
    have "\<exists>w'. recv_loop dl sk ?t w1 = Some (Inr ((response ?t)\<lparr>resp_body := b\<rparr>), w')"
      by (rule Cons.IH) (use Cons.prems w1(2) False in simp_all)
    with False loop step show ?thesis by simp
  qed
qed

lemma content_length_read:
  assumes "head_ok st fs" and "framed_by (str ''content-length'', decimal (length b)) (map lower_field fs)"
    and "length b < 2 ^ 63" and "delivers dl sk w segs" and "[] \<notin> set segs"
    and "concat segs = response_head st fs @ b"
    and "length (response_head st fs) \<le> length (hd segs)"
  shows "\<exists>w'. recv_loop dl sk (initial_state junk) w = Some (Inr (read_response st fs b), w')"
proof -
  obtain d rem where segs: "segs = (response_head st fs @ d) # rem" and d: "d @ concat rem = b"
    using cut_head [OF assms(6,7) response_head_neq_Nil] by blast
  with assms(4) obtain w1 where w1: "recv_by dl sk w = Some (Inr (response_head st fs @ d), w1)" "delivers dl sk w1 rem"
    by (auto simp: delivers_Cons)
  let ?n = "of_nat (length b) :: u64"
  let ?s0 = "after_head st fs d ((initial_state junk)\<lparr>contentLength := ?n, contentLengthReceived := True\<rparr>)"
  let ?t = "?s0\<lparr>responseData := [], response := read_response st fs d\<rparr>"
  have n: "unat ?n = length b" using assms(3) by (simp add: unat_of_nat)
  have "segment_step (response_head st fs @ d) (initial_state junk) = body_step ?s0"
    by (rule first_segment [OF assms(1) use_content_length [OF assms(2,3)]]) simp
  also have "\<dots> = (if length b \<le> length d then Inr (Inl (read_response st fs d)) else Inr (Inr ?t))"
    using n by (simp add: body_step_def identity_body_def after_head_def initial_state_def Let_def read_response_def)
  finally have step: "segment_step (response_head st fs @ d) (initial_state junk) = \<dots>" .
  note loop = recv_loop_seg [OF w1(1), of "initial_state junk"]
  show ?thesis
  proof (cases "length b \<le> length d")
    case True
    with d have "d = b" by auto
    with loop step True show ?thesis by (simp add: response_head_neq_Nil)
  next
    case False
    have "\<exists>w'. recv_loop dl sk ?t w1 = Some (Inr ((response ?t)\<lparr>resp_body := b\<rparr>), w')"
      by (rule recv_identity) (use w1(2) assms(5) segs d n False in
        \<open>simp_all add: after_head_def initial_state_def read_response_def\<close>)
    with loop step False show ?thesis by (simp add: response_head_neq_Nil read_response_def)
  qed
qed

section \<open>A head that is cut\<close>

lemma cut_head_empty:
  assumes "delivers dl sk w [seg]" and "seg \<noteq> []" and "find_sub (crlf @ crlf) seg = None"
  shows "\<exists>w'. recv_loop dl sk (initial_state junk) w = Some (Inr (response (initial_state junk)), w')"
proof -
  from assms(1) obtain w1 where w1: "recv_by dl sk w = Some (Inr seg, w1)" by (auto simp: delivers_Cons)
  have "segment_step seg (initial_state junk) = Inr (Inl (response (initial_state junk)))"
    using assms(3) by (simp add: segment_step_def parse_head_def initial_state_def)
  with recv_loop_seg [OF w1 assms(2)] show ?thesis by simp
qed

end
