(* ===== verification/Tracker.thy ===== *)
theory Tracker
  imports System Http_Calls Http_Response
begin

text \<open>
  The conversation with the tracker, and \<^verbatim>\<open>main\<close>: the torrent file, the announce request
  over HTTP, and the state from which the peers are run. Every exception ends the program.
\<close>

section \<open>main.cpp with the HTTP client\<close>

type_synonym main_exn = "http_exn + torrent_exn fault"

definition send_request ::
    "http_version \<times> u16 \<Rightarrow> torrent \<Rightarrow> os \<Rightarrow> ((main_exn + tracker_response) \<times> os) option" where
  "send_request junk t w =
     (case Request (request_url t) v4 of
        Inl e \<Rightarrow> Some (Inl (Inl e), w)
      | Inr req \<Rightarrow>
          (case send_text junk req (str ''GET'') [] [] no_timeout w of
             None \<Rightarrow> None
           | Some (Inl e, w) \<Rightarrow> Some (Inl (Inl e), w)
           | Some (Inr resp, w) \<Rightarrow>
               Some (case TrackerResponse (resp_body resp) of
                       Inl e \<Rightarrow> Inl (Inr e)
                     | Inr r \<Rightarrow> Inr r, w)))"

definition main ::
    "http_version \<times> u16 \<Rightarrow> bytes option \<Rightarrow> os \<Rightarrow> ((main_exn + (torrent \<times> system)) \<times> os) option" where
  "main junk tor_file w =
     (case from_file tor_file of
        Inl e \<Rightarrow> Some (Inl (Inr e), w)
      | Inr t \<Rightarrow>
          (case send_request junk t w of
             None \<Rightarrow> None
           | Some (Inl e, w) \<Rightarrow> Some (Inl e, w)
           | Some (Inr resp, w) \<Rightarrow> Some (Inr (t, start_run_connections t resp), w)))"

section \<open>The program starts in a reachable state\<close>

lemma from_file_info_hash: "from_file f = Inr t \<Longrightarrow> length (info_hash t) = HASH_SIZE"
  by (auto simp: from_file_def SingleFileTorrent_def and_then_Inr HASH_SIZE_def Hash_of_sha1
      split: if_splits option.splits)

lemma main_Inr:
  "main junk f w = Some (Inr (t, s), w') \<longleftrightarrow>
    from_file f = Inr t \<and> (\<exists>r. send_request junk t w = Some (Inr r, w') \<and> s = start_run_connections t r)"
  by (auto simp: main_def split: sum.splits option.splits prod.splits)

lemma main_reachable:
  assumes "main junk f w = Some (Inr (t, s0), w')" and "(sys_step (main_ctx t))\<^sup>*\<^sup>* s0 s"
  shows "reachable t s"
  using assms by (auto simp: main_Inr reachable_def dest: from_file_info_hash)

section \<open>The announce request\<close>

definition request_query :: "torrent \<Rightarrow> bytes" where
  "request_query t =
     str ''info_hash='' @ urlencode (info_hash t) @ str ''&'' @
     str ''peer_id='' @ main_peer_id @ str ''&'' @
     str ''port='' @ decimal (unat main_port) @ str ''&'' @
     str ''uploaded=0&downloaded=0&compact=1&left='' @ decimal (unat (file_length t))"

lemma request_url_query: "request_url t = announce t @ of_char CHR ''?'' # request_query t"
  by (simp add: request_url_def request_query_def)

lemma urlencode_chars: "c \<in> set (urlencode s) \<Longrightarrow> url_plain c \<or> c = of_char CHR ''+'' \<or> c = of_char CHR ''%''"
proof (induction s)
  case (Cons b s)
  have "url_plain (hex_digit n)" if "n < 16" for n
    using that by (cases n rule: less16_cases) (simp_all add: url_plain_def hex_digit_def)
  moreover have "unat b div 16 < 16" using unat_bounds(1) [of b] by simp
  ultimately show ?case using Cons by (auto simp: hexchar_digits split: if_splits)
qed simp

lemma request_query_no_hash: "of_char CHR ''#'' \<notin> set (request_query t)"
proof -
  have "of_char CHR ''#'' \<notin> set (urlencode (info_hash t))"
    using urlencode_chars [of "of_char CHR ''#''" "info_hash t"] by (auto simp: url_plain_def)
  moreover have "of_char CHR ''#'' \<notin> set (decimal n)" for n
    using decimal_digits [of "of_char CHR ''#''" n] by (auto simp: isdigit_def)
  ultimately show ?thesis by (simp add: request_query_def main_peer_id_def)
qed

lemma parse_request_url:
  assumes "announce t = uri_text host prt path" and "uri_text_ok host prt path"
  shows "parseUri (request_url t) = Inr (http_uri host prt path (request_query t))"
  unfolding request_url_query assms(1) by (rule parseUri_http [OF assms(2) request_query_no_hash])

section \<open>The answer of the tracker\<close>

lemma send_request_reply:
  assumes "parseUri (request_url t) = Inr u"
    and "start_request v4 u (str ''GET'') [] [] no_timeout w = Some (Inr (dl, sk), w1)"
    and "\<exists>w'. recv_loop dl sk (initial_state junk) w1 = Some (Inr r, w')"
    and "TrackerResponse (resp_body r) = Inr reply"
  shows "\<exists>w'. send_request junk t w = Some (Inr reply, w')"
  using assms(3) Request_send_started [OF assms(2), of junk]
  by (auto simp: send_request_def Request_def send_text_def and_then_def assms(1,4) at_exit_def)

section \<open>An operating system that answers at once\<close>

definition quick_os :: "bytes \<Rightarrow> bytes list \<Rightarrow> os" where
  "quick_os dat segs =
     \<lparr>address_infos = \<lambda>_ _. None, new_socket = Ret 3, get_flags = Ret (), set_flags = Ret (),
      close_result = Ret (), connects = [Fail EINTR, Ret ()], so_error = Ret 0,
      selects = replicate (Suc (length segs)) (Ret 1), slept = \<lambda>_. 0, left_time = \<lambda>_ tv. tv, sends = [Fail EINTR, Ret (length dat)],
      recvs = map Ret segs, clock = int, readings = 0, sent = [], trace = []\<rparr>"

lemma recv_by_quick:
  "selects w = Ret 1 # ss \<Longrightarrow> recvs w = Ret seg # rs \<Longrightarrow>
    \<exists>w'. recv_by dl sk w = Some (Inr seg, w') \<and> selects w' = ss \<and> recvs w' = rs"
  by (cases "remaining_or_none dl w")
    (auto simp: recv_by_def socket_recv_def socket_select_def io_bind_def Let_def same_data_def
      dest!: remaining_or_none_frame)

lemma delivers_quick:
  "selects w = replicate (length segs) (Ret 1) \<Longrightarrow> recvs w = map Ret segs \<Longrightarrow> delivers dl sk w segs"
proof (induction segs arbitrary: w)
  case (Cons seg segs)
  then obtain w' where "recv_by dl sk w = Some (Inr seg, w')" "selects w' = replicate (length segs) (Ret 1)"
    "recvs w' = map Ret segs"
    using recv_by_quick [of w "replicate (length segs) (Ret 1)" seg "map Ret segs" dl sk] by auto
  with Cons.IH show ?case by (auto simp: delivers_Cons)
qed simp

lemma start_quick:
  assumes "encodeHtml u m body hs = Inr dat"
  shows "\<exists>dl sk w. start_request p u m body hs tmo (quick_os dat segs) = Some (Inr (dl, sk), w) \<and>
    delivers dl sk w segs"
proof -
  from assms have "uri_scheme u = str ''http''" "dat \<noteq> []"
    by (auto simp: encodeHtml_Inr request_bytes_of_def crlf_def)
  then show ?thesis using assms
    by (simp add: start_request_def quick_os_def make_deadline_def steady_now_def get_address_def Socket_def set_nonblocking_def
        connect_by_def send_by_def remaining_or_none_def getRemainingMilliseconds_def
        socket_connect_def Let_def io_bind_def EINTR_def send_loop.simps [of _ _ dat] send_loop.simps [of _ _ "[]"]
        socket_send_def socket_select_def delivers_quick)
qed

end
