(* ===== verification/Conversation.thy ===== *)
theory Conversation
  imports System
begin

text \<open>
  One operation at a time: of the operations that carry the conversation with a peer
  (connecting, the handshake, reading a message) at most one is outstanding, so the frames
  that the handlers read are never interleaved; and a conversation that has none left is
  over for good.
\<close>

fun conversation :: "action \<Rightarrow> bool" where
  "conversation AsyncConnect = True"
| "conversation (WriteHandshake _) = True"
| "conversation (ReadHandshake _) = True"
| "conversation ReadLength = True"
| "conversation (ReadBody _) = True"
| "conversation _ = False"

definition talks :: "action list \<Rightarrow> nat" where
  "talks acts = length (filter conversation acts)"

definition talking :: "nat \<Rightarrow> system \<Rightarrow> nat" where
  "talking i s = size (filter_mset (\<lambda>(j, a). j = i \<and> conversation a) (ops s))"

lemma talks_simps [simp]:
  "talks [] = 0"
  "talks (a # acts) = (if conversation a then 1 else 0) + talks acts"
  "talks (acts @ acts') = talks acts + talks acts'"
  by (simp_all add: talks_def)

section \<open>What the handlers start\<close>

named_theorems quiet \<open>operations that start nothing of the conversation\<close>

lemma release_piece_quiet [quiet]: "talks (snd (release_piece p)) = 0"
  by (simp add: release_piece_def split: option.split)

lemma close_quiet [quiet]: "talks (snd (close p)) = 0"
  using release_piece_quiet [of "p\<lparr>closed := True\<rparr>"]
  by (cases "release_piece (p\<lparr>closed := True\<rparr>)") (simp add: close_def)

lemma handle_piece_quiet: "handle_piece c u m p = Some (p', acts) \<Longrightarrow> talks acts = 0"
  using close_quiet
  by (auto simp: handle_piece_def Let_def split: option.split_asm if_split_asm prod.split_asm) (metis snd_conv)+

lemma acquire_quiet:
  "acquire c pop p = Inl (p', acts) \<Longrightarrow> talks acts = 0"
  "acquire c pop p = Inr (q, p', acts) \<Longrightarrow> talks acts = 0"
  using release_piece_quiet
  by (auto simp: acquire_def Let_def split: option.split_asm if_split_asm prod.split_asm)

lemma download_step_quiet:
  "download_step c pop p = Some (Inl (p', acts)) \<Longrightarrow> talks acts = 0"
  "download_step c pop p = Some (Inr (p', acts)) \<Longrightarrow> talks acts = 0"
  using acquire_quiet
  by (auto simp: download_step_def Let_def split: option.split_asm if_split_asm sum.split_asm prod.split_asm)

lemma async_download_quiet: "async_download c pop p acts = Some (p', acts') \<Longrightarrow> talks acts' = talks acts"
  by (erule async_download_rule [where P = "\<lambda>p acts p' acts'. talks acts' = talks acts"])
    (simp_all add: download_step_quiet)

lemma async_handle_message_talks:
  assumes "async_handle_message c u pop p = Some (p', acts)"
  shows "talks acts \<le> 1"
  using assms
proof (cases rule: async_handle_message_cases)
  case (known m t p1 a1 p2 a2 a3)
  from known(3) have "talks a1 = 0" using handle_piece_quiet by auto
  with known(4) have "talks a2 = 0" by (simp add: async_download_quiet)
  with known(5,6) show ?thesis by (auto simp: async_read_message_def)
qed simp

lemma handle_talks:
  assumes "handle c u pop e p = Some (p', acts)" and "completes act e"
  shows "talks acts \<le> (if conversation act then 1 else 0)"
proof (cases e)
  case (Connected ec)
  with assms show ?thesis using close_quiet [of p]
    by (auto simp: completes_def async_handshake_write_def split: if_splits)
next
  case (HandshakeWritten ec)
  with assms show ?thesis using close_quiet [of p]
    by (auto simp: completes_def async_handshake_read_def Let_def split: if_splits action.splits)
next
  case (HandshakeRead ec dat)
  with assms show ?thesis using close_quiet [of "received dat p"]
    by (auto simp: completes_def async_next_def async_read_message_def Let_def
        split: if_splits action.splits option.splits)
next
  case (LengthRead ec dat)
  with assms show ?thesis using close_quiet [of "received dat p"]
    by (auto simp: completes_def async_read_len_def async_read_message_def Let_def split: if_splits)
next
  case (BodyRead ec dat)
  with assms show ?thesis
    using release_piece_quiet [of "received dat p"] async_handle_message_talks [of c u pop "received dat p" p' acts]
    by (auto simp: completes_def body_read_def split: if_splits action.splits)
next
  case (RequestWritten ec a)
  with assms show ?thesis
    by (auto simp: completes_def request_written_def split: if_splits action.splits)
next
  case (TimerFired ec a)
  with assms show ?thesis using close_quiet [of "p\<lparr>closed := True\<rparr>"]
    by (auto simp: completes_def timer_fired_def split: if_splits)
qed (use assms in \<open>auto simp: completes_def split: action.splits\<close>)

section \<open>What the handlers take from the queue\<close>

text \<open>Nothing but the answer of the queue.\<close>

lemma release_piece_pops: "popped (snd (release_piece p)) = []"
  by (simp add: release_piece_def popped_def split: option.split)

lemma close_pops: "popped (snd (close p)) = []"
  using release_piece_pops [of "p\<lparr>closed := True\<rparr>"]
  by (cases "release_piece (p\<lparr>closed := True\<rparr>)") (simp add: close_def)

lemma handle_piece_pops: "handle_piece c u m p = Some (p', acts) \<Longrightarrow> popped acts = []"
  using close_pops
  by (auto simp: handle_piece_def Let_def split: option.split_asm if_split_asm prod.split_asm) (metis snd_conv)+

lemma acquire_pops:
  "acquire c pop p = Inl (p', acts) \<Longrightarrow> set (popped acts) \<subseteq> set_option pop"
  "acquire c pop p = Inr (q, p', acts) \<Longrightarrow> set (popped acts) \<subseteq> set_option pop"
  using release_piece_pops
  by (auto simp: acquire_def Let_def split: option.split_asm if_split_asm prod.split_asm)

lemma download_step_pops:
  "download_step c pop p = Some (Inl (p', acts)) \<Longrightarrow> set (popped acts) \<subseteq> set_option pop"
  "download_step c pop p = Some (Inr (p', acts)) \<Longrightarrow> set (popped acts) \<subseteq> set_option pop"
  by (auto simp: download_step_def Let_def dest!: acquire_pops
      split: option.split_asm if_split_asm sum.split_asm prod.split_asm)

lemma async_download_pops:
  "async_download c pop p acts = Some (p', acts') \<Longrightarrow> set (popped acts') \<subseteq> set (popped acts) \<union> set_option pop"
proof (erule async_download_rule
    [where P = "\<lambda>p acts p' acts'. set (popped acts') \<subseteq> set (popped acts) \<union> set_option pop"])
  show "set (popped (acts @ a)) \<subseteq> set (popped acts) \<union> set_option pop"
    if "download_step c pop p = Some (Inl (p', a))" for p acts p' a
    using download_step_pops(1) [OF that] by auto
  show "set (popped acts') \<subseteq> set (popped acts) \<union> set_option pop"
    if "download_step c pop p = Some (Inr (p1, a))" "set (popped acts') \<subseteq> set (popped (acts @ a)) \<union> set_option pop"
    for p acts p1 a acts'
    using download_step_pops(2) [OF that(1)] that(2) by auto
qed

lemma async_handle_message_pops:
  assumes "async_handle_message c u pop p = Some (p', acts)"
  shows "set (popped acts) \<subseteq> set_option pop"
  using assms
proof (cases rule: async_handle_message_cases)
  case (known m t p1 a1 p2 a2 a3)
  from known(3) have "popped a1 = []" using handle_piece_pops by auto
  with async_download_pops [OF known(4)] known(5,6) show ?thesis by (auto simp: async_read_message_def)
qed simp

section \<open>What is outstanding\<close>

lemma perform1_talking:
  "perform1 i a s = Some s' \<Longrightarrow> talking j s' = talking j s + (if i = j then talks [a] else 0)"
  by (induction i a s rule: perform1.induct) (auto simp: talking_def split: if_splits)

lemma perform_talking:
  "perform i acts s = Some s' \<Longrightarrow> talking j s' = talking j s + (if i = j then talks acts else 0)"
proof (induction i acts s rule: perform.induct)
  case (2 i a acts s)
  then obtain s1 where s1: "perform1 i a s = Some s1" "perform i acts s1 = Some s'"
    by (auto split: option.splits)
  with 2(1) [OF s1] perform1_talking [OF s1(1), of j] show ?case by auto
qed simp

lemma talking_taken:
  assumes "(i, act) \<in># ops s"
  shows "talking j (s\<lparr>conns := cs, ops := ops s - {#(i, act)#}\<rparr>) +
    (if i = j \<and> conversation act then 1 else 0) = talking j s"
proof -
  obtain os where "ops s = add_mset (i, act) os" using assms by (metis insert_DiffM)
  then show ?thesis by (auto simp: talking_def)
qed

lemma sys_step_talking: "sys_step c s s' \<Longrightarrow> talking j s' \<le> talking j s"
proof (erule sys_step_cases, goal_cases)
  case (1 i act e u pop p acts)
  from handle_talks [OF 1(4,2)] perform_talking [OF 1(5), of j] talking_taken [OF 1(1), of j "(conns s)[i := p]"]
  show ?case by (auto split: if_splits)
next
  case 2
  then show ?case by (simp add: talking_def)
qed

lemma sys_steps_talking: "(sys_step c)\<^sup>*\<^sup>* s s' \<Longrightarrow> talking j s' \<le> talking j s"
  by (induction rule: rtranclp_induct) (auto intro: order_trans dest: sys_step_talking)

lemma start_talking: "talking j (start_run_connections t r) \<le> 1"
proof -
  have "size (filter_mset (\<lambda>(i, a). i = j \<and> conversation a) (mset (map (\<lambda>i. (i, AsyncConnect)) [0..<n]))) \<le> 1" for n
  proof -
    have "length (filter (\<lambda>i. i = j) [0..<n]) = card ({j} \<inter> {..<n})"
      by (simp add: distinct_length_filter lessThan_atLeast0)
    also have "\<dots> \<le> card {j}" by (rule card_mono) simp_all
    finally show ?thesis unfolding mset_filter [symmetric] size_mset filter_map by (simp add: comp_def)
  qed
  then show ?thesis by (simp add: talking_def start_run_connections_def)
qed

lemma reachable_talking: "reachable t s \<Longrightarrow> talking i s \<le> 1"
  using start_talking sys_steps_talking by (fastforce simp: reachable_def intro: order_trans)

section \<open>A connection that is lost\<close>

text \<open>Every operation that is outstanding besides stays so.\<close>

lemma perform_close: "\<exists>s'. perform i (snd (close p)) s = Some s' \<and> conns s' = conns s \<and> ops s' = ops s"
  by (auto simp: close_def release_piece_def split: option.split)

lemma connection_lost:
  assumes "(i, ReadLength) \<in># ops s" and "uninit_ok t u"
  shows "\<exists>s'. sys_step (main_ctx t) s s' \<and> conns s' = (conns s)[i := fst (close (conns s ! i))] \<and>
    ops s' = ops s - {#(i, ReadLength)#}"
proof -
  let ?s = "s\<lparr>conns := (conns s)[i := fst (close (conns s ! i))], ops := ops s - {#(i, ReadLength)#}\<rparr>"
  obtain s' where s': "perform i (snd (close (conns s ! i))) ?s = Some s'" "conns s' = conns ?s" "ops s' = ops ?s"
    using perform_close by blast
  have "received [] p = p" for p by (simp add: received_def overlay_def)
  then have h: "handle (main_ctx t) u None (LengthRead True []) (conns s ! i) =
      Some (fst (close (conns s ! i)), snd (close (conns s ! i)))"
    by (simp add: async_read_len_def)
  have "sys_step (main_ctx t) s s'"
    by (rule sys_step.handler [OF assms(1) _ _ h s'(1)])
      (use assms(2) in \<open>simp_all add: completes_def fills_def main_ctx_def\<close>)
  with s' show ?thesis by auto
qed

section \<open>A message that nobody understands\<close>

lemma unknown_message:
  assumes "recv_buffer p = c # r" and "try_from c = None"
  shows "async_handle_message cx u pop p = Some (p, [])"
  by (simp add: async_handle_message_def Message_def assms)

lemma unknown_body:
  assumes "try_from c = None"
  shows "handle cx u pop (BodyRead False (c # r)) p = Some (received (c # r) p, [])"
  using unknown_message [of "received (c # r) p" c "r @ drop (Suc (length r)) (recv_buffer p)"] assms
  by (simp add: body_read_def received_def overlay_def)

lemma unknown_body_silence:
  assumes "reachable t s" and "(i, ReadBody n) \<in># ops s"
    and "(sys_step (main_ctx t))\<^sup>*\<^sup>* (s\<lparr>conns := cs, ops := ops s - {#(i, ReadBody n)#}\<rparr>) s'"
  shows "talking i s' = 0"
proof -
  have "talking i (s\<lparr>conns := cs, ops := ops s - {#(i, ReadBody n)#}\<rparr>) + 1 = talking i s"
    using talking_taken [OF assms(2), of i cs] by simp
  with reachable_talking [OF assms(1), of i] sys_steps_talking [OF assms(3), of i] show ?thesis by simp
qed

end
