(* ===== verification/Piece_Runs.thy ===== *)
theory Piece_Runs
  imports Message
begin

text \<open>
  A piece over its whole life: blocks are started, released and received in any order. As
  long as every block that arrives carries its part of the content, a complete piece is that
  content; and it is complete once every block has been started and has arrived.
\<close>

datatype piece_op = Start | Release nat | Receive nat

text \<open>The message of a sender that has the content \<open>c\<close> of the piece.\<close>

definition honest_payload :: "bytes \<Rightarrow> piece \<Rightarrow> nat \<Rightarrow> bytes" where
  "honest_payload c p k =
     accept_header (index p) (word_of_nat (k * BLOCK_SIZE)) (slice BLOCK_SIZE k c)"

fun apply_op :: "bytes \<Rightarrow> piece_op \<Rightarrow> piece \<times> store \<Rightarrow> piece \<times> store" where
  "apply_op c Start (p, st) = (case next_block p st of (_, p', st') \<Rightarrow> (p', st'))"
| "apply_op c (Release k) (p, st) =
     (if k < length (blocks p) then (p, st[blocks p ! k := block_release (st ! (blocks p ! k))])
      else (p, st))"
| "apply_op c (Receive k) (p, st) =
     (case accept 0 0 (honest_payload c p k) p st of (_, st') \<Rightarrow> (p, st'))"

definition piece_run :: "bytes \<Rightarrow> piece_op list \<Rightarrow> piece \<times> store \<Rightarrow> piece \<times> store" where
  "piece_run c = fold (apply_op c)"

definition honest :: "bytes \<Rightarrow> u32 \<Rightarrow> u32 \<Rightarrow> piece \<times> store \<Rightarrow> bool" where
  "honest c i n ps \<longleftrightarrow>
     (case ps of (p, st) \<Rightarrow>
        piece_inv p st \<and> index p = i \<and> piece_size p = n \<and>
        (\<forall>k < length (blocks p). abs_piece p st ! k \<in> {None, Some (slice BLOCK_SIZE k c)}))"

text \<open>What starting a block does to the contents: nothing, or one more missing block.\<close>

lemma next_block_abs:
  assumes "piece_inv p st" and "next_block p st = (r, p', st')"
  shows "abs_piece p' st' = (if length (blocks p) < unat (block_count p) then abs_piece p st @ [None]
    else abs_piece p st)"
    and "piece_inv p' st'" and "index p' = index p" and "piece_size p' = piece_size p"
proof -
  show "abs_piece p' st' = (if length (blocks p) < unat (block_count p) then abs_piece p st @ [None]
    else abs_piece p st)"
  proof (cases "length (blocks p) < unat (block_count p)")
    case True
    then have eq: "p' = p\<lparr>blocks := blocks p @ [length st]\<rparr>"
      "st' = st @ [(Block (word_of_nat (length (blocks p) * BLOCK_SIZE)))\<lparr>reserved := True\<rparr>]"
      using assms(2) by (auto simp: next_block_def)
    have "map (\<lambda>a. abs_block (st' ! a)) (blocks p) = map (\<lambda>a. abs_block (st ! a)) (blocks p)"
      using piece_inv_addr [OF assms(1)] by (intro map_cong) (auto simp: eq nth_append)
    moreover have "abs_block (st' ! length st) = None" by (simp add: eq)
    ultimately show ?thesis using True by (simp add: abs_piece_def) (simp add: eq)
  next
    case False
    then show ?thesis
    proof (cases r)
      case (Some a)
      with False assms(2) have eq: "p' = p" "st' = st[a := (st ! a)\<lparr>reserved := True\<rparr>]"
        by (auto simp: next_block_def split: option.splits)
      have "abs_block (st' ! b) = abs_block (st ! b)" for b
        by (cases "a < length st") (auto simp: eq nth_list_update list_update_beyond)
      with False show ?thesis by (simp add: abs_piece_def eq(1))
    next
      case None
      with assms(2) have "next_block p st = (None, p', st')" by simp
      from next_block_None(1,2) [OF this] False show ?thesis by simp
    qed
  qed
  show "piece_inv p' st'"
  proof (cases r)
    case None
    with assms(2) have "next_block p st = (None, p', st')" by simp
    from next_block_None(1,2) [OF this] assms(1) show ?thesis by simp
  qed (use assms next_block_Some(1) in auto)
  show "index p' = index p" "piece_size p' = piece_size p"
    using assms(2) by (auto simp: next_block_def Let_def split: if_splits option.splits)
qed

lemma blocks_in_memory:
  assumes "piece_inv p st" and "k < length (blocks p)"
  shows "k * BLOCK_SIZE < 2 ^ 32" and "unat (word_of_nat (k * BLOCK_SIZE) :: u32) div BLOCK_SIZE = k"
proof -
  have "k < unat (block_count p)" using assms by (simp add: piece_inv_def)
  then have "k * BLOCK_SIZE < unat (piece_size p)" by (rule block_in_piece)
  then show lt: "k * BLOCK_SIZE < 2 ^ 32" using unat_bounds(3) [of "piece_size p"] by linarith
  then have "unat (word_of_nat (k * BLOCK_SIZE) :: u32) = k * BLOCK_SIZE"
    unfolding unat_of_nat by simp
  then show "unat (word_of_nat (k * BLOCK_SIZE) :: u32) div BLOCK_SIZE = k" by simp
qed

lemma length_slice: "length (slice n k c) \<le> n"
  by (simp add: slice_def)

text \<open>A correct block is stored where it belongs, unless it is there.\<close>

lemma receive_abs:
  assumes "piece_inv p st" and "k < unat (block_count p)"
    and "accept 0 0 (honest_payload c p k) p st = (r, st')"
  shows "abs_piece p st' =
      (if k < length (blocks p) \<and> abs_piece p st ! k = None
       then (abs_piece p st)[k := Some (slice BLOCK_SIZE k c)] else abs_piece p st)"
    and "piece_inv p st'"
proof -
  let ?off = "word_of_nat (k * BLOCK_SIZE) :: u32"
  obtain s b where r: "r = (s, b)" by fastforce
  have len: "length (slice BLOCK_SIZE k c) < 2 ^ 32"
    using length_slice [of BLOCK_SIZE k c] by (simp add: BLOCK_SIZE_def)
  note acc = accept_abs [OF assms(1) len assms(3) [unfolded r honest_payload_def]]
  have "k * BLOCK_SIZE < unat (piece_size p)" by (rule block_in_piece [OF assms(2)])
  then have "k * BLOCK_SIZE < 2 ^ 32" using unat_bounds(3) [of "piece_size p"] by linarith
  then have "unat ?off = k * BLOCK_SIZE" unfolding unat_of_nat by simp
  then have k: "unat ?off div BLOCK_SIZE = k" by simp
  show "piece_inv p st'" by (rule acc(4))
  show "abs_piece p st' =
      (if k < length (blocks p) \<and> abs_piece p st ! k = None
       then (abs_piece p st)[k := Some (slice BLOCK_SIZE k c)] else abs_piece p st)"
    using acc(3) length_slice [of BLOCK_SIZE k c] unfolding acc(1) accept_status_def k Let_def
    by auto
qed

lemma release_abs:
  assumes "piece_inv p st" and "k < length (blocks p)"
  shows "piece_inv p (st[blocks p ! k := block_release (st ! (blocks p ! k))])"
    and "abs_piece p (st[blocks p ! k := block_release (st ! (blocks p ! k))]) = abs_piece p st"
proof -
  have a: "blocks p ! k < length st" using piece_inv_addr [OF assms(1)] assms(2) by simp
  then show "piece_inv p (st[blocks p ! k := block_release (st ! (blocks p ! k))])"
    using assms(1) by (intro piece_inv_update) simp_all
  have "(abs_piece p st)[k := abs_block (st ! (blocks p ! k))] = abs_piece p st"
    using assms(2) by (metis list_update_id nth_abs_piece)
  then show "abs_piece p (st[blocks p ! k := block_release (st ! (blocks p ! k))]) = abs_piece p st"
    using assms by (simp add: abs_piece_update piece_inv_def)
qed

definition op_in :: "u32 \<Rightarrow> piece_op \<Rightarrow> bool" where
  "op_in n op \<longleftrightarrow> (\<forall>k. op = Receive k \<longrightarrow> k * BLOCK_SIZE < unat n)"

lemma block_in_count:
  assumes "k * BLOCK_SIZE < unat (piece_size p)"
  shows "k < unat (block_count p)"
proof (rule ccontr)
  assume "\<not> k < unat (block_count p)"
  then have "unat (block_count p) * BLOCK_SIZE \<le> k * BLOCK_SIZE" by (intro mult_le_mono1) simp
  with piece_in_blocks [of p] assms show False by linarith
qed

lemma honest_step:
  assumes "honest c i n ps" and "op_in n op"
  shows "honest c i n (apply_op c op ps)"
proof -
  obtain p st where ps: "ps = (p, st)" by fastforce
  with assms(1) have inv: "piece_inv p st" and p: "index p = i" "piece_size p = n"
    and h: "\<And>k. k < length (blocks p) \<Longrightarrow> abs_piece p st ! k \<in> {None, Some (slice BLOCK_SIZE k c)}"
    by (auto simp: honest_def)
  show ?thesis
  proof (cases op)
    case Start
    obtain r p' st' where nb: "next_block p st = (r, p', st')" by (metis surj_pair)
    note abs = next_block_abs [OF inv nb]
    have "length (blocks p') = length (abs_piece p' st')" by simp
    with abs(1) h have "k < length (blocks p') \<Longrightarrow> abs_piece p' st' ! k \<in> {None, Some (slice BLOCK_SIZE k c)}" for k
      by (cases "k < length (blocks p)") (auto simp: nth_append less_Suc_eq split: if_splits)
    with abs(2-4) p show ?thesis by (simp add: Start ps nb honest_def)
  next
    case (Release k)
    then show ?thesis
      using inv p h release_abs [OF inv] by (simp add: ps honest_def)
  next
    case (Receive k)
    obtain r st' where acc: "accept 0 0 (honest_payload c p k) p st = (r, st')" by fastforce
    have "k < unat (block_count p)"
      using assms(2) p(2) by (intro block_in_count) (simp add: op_in_def Receive)
    note abs = receive_abs [OF inv this acc]
    have "abs_piece p st' ! j \<in> {None, Some (slice BLOCK_SIZE j c)}" if "j < length (blocks p)" for j
      using abs(1) h that by (cases "j = k") (auto simp: nth_list_update)
    with abs(2) p show ?thesis by (simp add: Receive ps acc honest_def)
  qed
qed

lemma honest_Piece: "honest c i n (Piece i n, st)"
  by (simp add: honest_def piece_inv_Piece) (simp add: Piece_def)

lemma honest_run:
  "honest c i n ps \<Longrightarrow> \<forall>op \<in> set xs. op_in n op \<Longrightarrow> honest c i n (piece_run c xs ps)"
  by (induction xs arbitrary: ps) (auto simp: piece_run_def honest_step)

text \<open>A complete piece of correct blocks is the content.\<close>

lemma honest_complete:
  assumes "honest c i n (p, st)" and "is_complete p st" and "length c = unat n"
  shows "piece_bytes (abs_piece p st) = c"
proof -
  have inv: "piece_inv p st" and n: "piece_size p = n"
    and h: "\<And>k. k < length (blocks p) \<Longrightarrow> abs_piece p st ! k \<in> {None, Some (slice BLOCK_SIZE k c)}"
    using assms(1) by (auto simp: honest_def)
  have len: "length (blocks p) = unat (block_count p)" and "None \<notin> set (abs_piece p st)"
    using assms(2) unfolding is_complete_abs by simp_all
  have "abs_piece p st = map (\<lambda>k. Some (slice BLOCK_SIZE k c)) [0..<length (blocks p)]"
  proof (rule nth_equalityI)
    fix k
    assume "k < length (abs_piece p st)"
    with h \<open>None \<notin> set (abs_piece p st)\<close>
    show "abs_piece p st ! k = map (\<lambda>k. Some (slice BLOCK_SIZE k c)) [0..<length (blocks p)] ! k"
      using nth_mem [of k "abs_piece p st"] by fastforce
  qed simp
  then have "piece_bytes (abs_piece p st) = concat (map (\<lambda>k. slice BLOCK_SIZE k c) [0..<length (blocks p)])"
    by (simp add: piece_bytes_def comp_def)
  also have "\<dots> = take (length (blocks p) * BLOCK_SIZE) c" by (rule concat_slices)
  also have "\<dots> = c" using piece_in_blocks [of p] assms(3) n len by simp
  finally show ?thesis .
qed

lemma honest_finalize:
  assumes "honest c i n (p, st)" and "is_complete p st" and "length c = unat n" and "length junk = unat n"
  shows "\<exists>p'. finalize junk p st = Some (\<lparr>cp_data = c, cp_index = i, cp_size = n\<rparr>, p')"
proof -
  have "piece_inv p st" "piece_size p = n" "index p = i" using assms(1) by (simp_all add: honest_def)
  with finalize_complete [of p st junk] honest_complete [OF assms(1-3)] assms show ?thesis by simp
qed

section \<open>Completion\<close>

text \<open>Starting as many blocks as the piece has.\<close>

lemma start_all:
  assumes "honest c i n (p, st)" and "j + length (blocks p) = unat (block_count p)"
    and "piece_run c (replicate j Start) (p, st) = (p', st')"
  shows "length (blocks p') = unat (block_count p')"
  using assms
proof (induction j arbitrary: p st)
  case 0
  then show ?case by (simp add: piece_run_def)
next
  case (Suc j)
  obtain r p1 st1 where nb: "next_block p st = (r, p1, st1)" by (metis surj_pair)
  have inv: "piece_inv p st" using Suc.prems(1) by (simp add: honest_def)
  note abs = next_block_abs [OF inv nb]
  have "length (abs_piece p1 st1) = Suc (length (blocks p))" using Suc.prems(2) by (simp add: abs(1))
  moreover have "block_count p1 = block_count p" by (simp add: block_count_def abs(4))
  moreover have "honest c i n (p1, st1)"
    using honest_step [OF Suc.prems(1), of Start] by (simp add: nb op_in_def)
  moreover have "piece_run c (replicate j Start) (p1, st1) = (p', st')"
    using Suc.prems(3) by (simp add: piece_run_def nb)
  ultimately show ?case using Suc.IH Suc.prems(2) by simp
qed

lemma receive_all:
  assumes "honest c i n (p, st)" and "length (blocks p) = unat (block_count p)"
    and "\<forall>k \<in> set ks. k < length (blocks p)"
    and "piece_run c (map Receive ks) (p, st) = (p', st')"
  shows "p' = p \<and> (\<forall>k < length (blocks p). k \<in> set ks \<or> abs_piece p st ! k \<noteq> None \<longrightarrow> abs_piece p st' ! k \<noteq> None)"
  using assms
proof (induction ks arbitrary: st)
  case Nil
  then show ?case by (simp add: piece_run_def)
next
  case (Cons k ks)
  obtain r st1 where acc: "accept 0 0 (honest_payload c p k) p st = (r, st1)" by fastforce
  have inv: "piece_inv p st" using Cons.prems(1) by (simp add: honest_def)
  have k: "k < length (blocks p)" "k < unat (block_count p)" using Cons.prems(2,3) by simp_all
  note abs = receive_abs [OF inv k(2) acc]
  have "k * BLOCK_SIZE < unat n"
    using block_in_piece [OF k(2)] Cons.prems(1) by (simp add: honest_def)
  then have "honest c i n (p, st1)"
    using honest_step [OF Cons.prems(1), of "Receive k"] by (simp add: acc op_in_def)
  moreover have "piece_run c (map Receive ks) (p, st1) = (p', st')"
    using Cons.prems(4) by (simp add: piece_run_def acc)
  ultimately have IH: "p' = p \<and> (\<forall>j < length (blocks p). j \<in> set ks \<or> abs_piece p st1 ! j \<noteq> None \<longrightarrow>
      abs_piece p st' ! j \<noteq> None)"
    using Cons.IH Cons.prems(2,3) by simp
  have "abs_piece p st1 ! j \<noteq> None" if "j < length (blocks p)" "j = k \<or> abs_piece p st ! j \<noteq> None" for j
    using that abs(1) k(1) by (auto simp: nth_list_update)
  with IH show ?case by auto
qed

lemma honest_run_completes:
  assumes "length c = unat n" and "set ks = {k. k * BLOCK_SIZE < unat n}"
    and "piece_run c (replicate (unat (block_count (Piece i n))) Start @ map Receive ks) (Piece i n, st) = (p, st')"
  shows "honest c i n (p, st') \<and> is_complete p st'"
proof -
  let ?starts = "replicate (unat (block_count (Piece i n))) Start"
  obtain p1 st1 where r1: "piece_run c ?starts (Piece i n, st) = (p1, st1)" by fastforce
  then have r2: "piece_run c (map Receive ks) (p1, st1) = (p, st')"
    using assms(3) by (simp add: piece_run_def)
  have h1: "honest c i n (p1, st1)"
    using honest_run [OF honest_Piece [of c i n st], of ?starts] r1 by (simp add: op_in_def)
  have len: "length (blocks p1) = unat (block_count p1)"
    by (rule start_all [OF honest_Piece _ r1]) (simp add: Piece_def)
  have ks: "k \<in> set ks \<longleftrightarrow> k < length (blocks p1)" for k
    using assms(2) h1 block_in_count [of k p1] block_in_piece [of k p1] by (auto simp: len honest_def)
  then have all: "p = p1" "\<forall>k < length (blocks p1). abs_piece p1 st' ! k \<noteq> None"
    using receive_all [OF h1 len _ r2] by auto
  have "honest c i n (p, st')"
    using honest_run [OF h1, where xs = "map Receive ks"] r2 assms(2) by (auto simp: op_in_def)
  moreover have "is_complete p st'"
    using all len unfolding is_complete_abs by (auto simp: in_set_conv_nth)
  ultimately show ?thesis by simp
qed

section \<open>Any sender\<close>

text \<open>
  A piece whose blocks are started, released and received with whatever bytes arrive as the
  payload of a message; the two words are the locals that \<^verbatim>\<open>accept\<close> leaves uninitialised.
\<close>

datatype wild_op = Wild_start | Wild_release nat | Wild_receive u32 u32 bytes

fun apply_wild :: "wild_op \<Rightarrow> piece \<times> store \<Rightarrow> piece \<times> store" where
  "apply_wild Wild_start (p, st) = (case next_block p st of (_, p', st') \<Rightarrow> (p', st'))"
| "apply_wild (Wild_release k) (p, st) =
     (if k < length (blocks p) then (p, st[blocks p ! k := block_release (st ! (blocks p ! k))])
      else (p, st))"
| "apply_wild (Wild_receive u v pl) (p, st) = (case accept u v pl p st of (_, st') \<Rightarrow> (p, st'))"

definition wild_run :: "wild_op list \<Rightarrow> piece \<times> store \<Rightarrow> piece \<times> store" where
  "wild_run = fold apply_wild"

text \<open>The messages that can arrive: their length is a \<^verbatim>\<open>uint32_t\<close>.\<close>

definition wild_ok :: "wild_op \<Rightarrow> bool" where
  "wild_ok op \<longleftrightarrow> (case op of Wild_receive u v pl \<Rightarrow> length pl < 2 ^ 32 | _ \<Rightarrow> True)"

definition wild_inv :: "u32 \<Rightarrow> u32 \<Rightarrow> piece \<times> store \<Rightarrow> bool" where
  "wild_inv i n ps \<longleftrightarrow> (case ps of (p, st) \<Rightarrow> piece_inv p st \<and> index p = i \<and> piece_size p = n)"

lemma wild_step:
  assumes "wild_inv i n ps" and "wild_ok op"
  shows "wild_inv i n (apply_wild op ps)"
proof -
  obtain p st where ps: "ps = (p, st)" by fastforce
  with assms(1) have inv: "piece_inv p st" and p: "index p = i" "piece_size p = n"
    by (simp_all add: wild_inv_def)
  show ?thesis
  proof (cases op)
    case Wild_start
    obtain r p' st' where nb: "next_block p st = (r, p', st')" by (metis surj_pair)
    with next_block_abs(2-4) [OF inv nb] p show ?thesis by (simp add: Wild_start ps wild_inv_def)
  next
    case (Wild_release k)
    then show ?thesis using inv p release_abs(1) [OF inv] by (simp add: ps wild_inv_def)
  next
    case (Wild_receive u v pl)
    obtain r st' where acc: "accept u v pl p st = (r, st')" by fastforce
    have "length pl < 2 ^ 32" using assms(2) by (simp add: Wild_receive wild_ok_def)
    from accept_inv(1) [OF inv this acc] p show ?thesis by (simp add: Wild_receive ps acc wild_inv_def)
  qed
qed

lemma wild_run_inv: "wild_inv i n ps \<Longrightarrow> \<forall>op \<in> set xs. wild_ok op \<Longrightarrow> wild_inv i n (wild_run xs ps)"
  by (induction xs arbitrary: ps) (auto simp: wild_run_def wild_step)

lemma wild_finalize:
  assumes "wild_inv i n (p, st)" and "unat n mod BLOCK_SIZE = 0" and "length junk = unat n"
  shows "\<exists>d p'. finalize junk p st = Some (\<lparr>cp_data = d, cp_index = i, cp_size = n\<rparr>, p') \<and> length d = unat n"
proof -
  have inv: "piece_inv p st" and p: "index p = i" "piece_size p = n" using assms(1) by (simp_all add: wild_inv_def)
  with finalize_fits [OF inv, of junk] assms(2) obtain c p' where fin: "finalize junk p st = Some (c, p')" by auto
  then show ?thesis using inv p assms(3)
    by (auto simp: finalize_def piece_inv_def length_overlay Let_def split: if_splits)
qed

text \<open>A full block in the last place of a piece that ends inside that block.\<close>

lemma full_blocks_overrun:
  assumes "piece_inv p st" and "length (blocks p) = unat (block_count p)" and "unat (piece_size p) mod BLOCK_SIZE \<noteq> 0"
    and full: "\<forall>j < length (blocks p). \<exists>d. abs_piece p st ! j = Some d \<and> length d = BLOCK_SIZE"
  shows "is_complete p st" and "finalize junk p st = None"
proof -
  have "None \<notin> set (abs_piece p st)"
    using full by (auto simp: in_set_conv_nth)
  with assms(2) show c: "is_complete p st" by (simp add: is_complete_abs)
  have "length (piece_bytes bs) = length bs * BLOCK_SIZE"
    if "\<forall>j < length bs. \<exists>d. bs ! j = Some d \<and> length d = BLOCK_SIZE" for bs
    using that by (induction bs) (force simp: piece_bytes_def)+
  from this [of "abs_piece p st"] full assms(2)
  have len: "length (piece_bytes (abs_piece p st)) = unat (block_count p) * BLOCK_SIZE" by simp
  moreover have "unat (piece_size p) \<le> unat (block_count p) * BLOCK_SIZE" by (rule piece_in_blocks)
  moreover have "unat (piece_size p) \<noteq> unat (block_count p) * BLOCK_SIZE"
    using assms(3) by (metis mod_mult_self2_is_0)
  ultimately show "finalize junk p st = None"
    using assms(1) by (simp add: finalize_def complete_bytes [OF c] piece_inv_def Let_def)
qed

end
