(* ===== verification/Sample_Run.thy ===== *)
theory Sample_Run
  imports Conversation Piece_Runs
begin

text \<open>
  A download from beginning to end: a torrent of one piece, one peer that has it, and the
  events that complete the operations the program starts. The final state is the concrete
  instance on which the theorems about reachable states are applied.
\<close>

section \<open>The torrents\<close>

definition sample_info :: "(bytes, data) std_map" where
  "sample_info =
     [(str ''length'', BInt 1), (str ''name'', BStr (str ''f'')), (str ''piece length'', BInt 1),
      (str ''pieces'', BStr (concat [sha1_bytes [7]]))]"

definition sample_torrent :: torrent where
  "sample_torrent = \<lparr>announce = str ''http://t'', filename = str ''f'', piece_length = 1, file_length = 1,
     piece_hashes = [sha1_bytes [7]], info_hash = sha1_bytes (encode (BDict sample_info))\<rparr>"

definition block_torrent :: torrent where
  "block_torrent = \<lparr>announce = [], filename = [], piece_length = 16384, file_length = 32768,
     piece_hashes = [sha1_bytes [1], sha1_bytes [2]], info_hash = replicate 20 0\<rparr>"

definition sample_addr :: address where
  "sample_addr = \<lparr>raw = 0x7f000001, port = 6881\<rparr>"

definition one_peer :: tracker_response where
  "one_peer = \<lparr>interval = 900, peers = [sample_addr]\<rparr>"

definition block_uninit :: "byte \<Rightarrow> uninit" where
  "block_uninit b = \<lparr>u_byte = b, u_hash = replicate 20 b, u_word1 = 0, u_word2 = 0, u_array = replicate 16384 b\<rparr>"

definition sample_uninit :: uninit where
  "sample_uninit = \<lparr>u_byte = 0, u_hash = replicate 20 0, u_word1 = 0, u_word2 = 0, u_array = [0]\<rparr>"

lemma block_torrent_facts:
  "reachable block_torrent (start_run_connections block_torrent one_peer)"
  "torrent_ok block_torrent" "uninit_ok block_torrent (block_uninit b)"
  "ctx_tor (main_ctx t) = t"
  "(0, AsyncConnect) \<in># ops (start_run_connections block_torrent one_peer)"
  "length (ctx_handshake (main_ctx block_torrent)) = 68"
proof -
  show "reachable block_torrent (start_run_connections block_torrent one_peer)"
    by (auto simp: reachable_def block_torrent_def HASH_SIZE_def)
  show "length (ctx_handshake (main_ctx block_torrent)) = 68"
    by (simp add: length_main_handshake block_torrent_def HASH_SIZE_def)
qed (simp_all add: torrent_ok_def block_torrent_def BLOCK_SIZE_def pieces_def uninit_ok_def block_uninit_def
    HASH_SIZE_def main_ctx_def start_run_connections_def one_peer_def)

section \<open>The peer\<close>

definition sample_peer ::
    "bytes \<Rightarrow> bytes \<Rightarrow> bool \<Rightarrow> bitfield \<Rightarrow> piece option \<Rightarrow> (u32 \<times> addr) list \<Rightarrow> store \<Rightarrow> peer" where
  "sample_peer buf pid ch av pc pend st =
     \<lparr>peer_addr = sample_addr, recv_buffer = buf, peer_id = pid, choked = ch, available_pieces = av,
      cur_piece = pc, pending = pend, closed = False, heap = st\<rparr>"

lemma sample_peer_fields [simp]:
  "peer_addr (sample_peer buf pid ch av pc pend st) = sample_addr"
  "recv_buffer (sample_peer buf pid ch av pc pend st) = buf"
  "choked (sample_peer buf pid ch av pc pend st) = ch"
  "available_pieces (sample_peer buf pid ch av pc pend st) = av"
  "cur_piece (sample_peer buf pid ch av pc pend st) = pc"
  "pending (sample_peer buf pid ch av pc pend st) = pend"
  "heap (sample_peer buf pid ch av pc pend st) = st"
  "sample_peer buf pid ch av pc pend st\<lparr>recv_buffer := buf'\<rparr> = sample_peer buf' pid ch av pc pend st"
  "sample_peer buf pid ch av pc pend st\<lparr>peer_id := pid'\<rparr> = sample_peer buf pid' ch av pc pend st"
  "sample_peer buf pid ch av pc pend st\<lparr>choked := ch'\<rparr> = sample_peer buf pid ch' av pc pend st"
  "sample_peer buf pid ch av pc pend st\<lparr>available_pieces := av'\<rparr> = sample_peer buf pid ch av' pc pend st"
  "sample_peer buf pid ch av pc pend st\<lparr>cur_piece := pc'\<rparr> = sample_peer buf pid ch av pc' pend st"
  "sample_peer buf pid ch av pc pend st\<lparr>pending := pend'\<rparr> = sample_peer buf pid ch av pc pend' st"
  "sample_peer buf pid ch av pc pend st\<lparr>heap := st'\<rparr> = sample_peer buf pid ch av pc pend st'"
  by (simp_all add: sample_peer_def)

lemma received_sample [simp]:
  "length dat = length buf \<Longrightarrow>
    received dat (sample_peer buf pid ch av pc pend st) = sample_peer dat pid ch av pc pend st"
  by (simp add: received_def overlay_def)

text \<open>The length of a message, then its body.\<close>

lemma sample_length:
  assumes "length buf = 4" and "n \<noteq> 0"
  shows "handle c u pop (LengthRead False (be32 n)) (sample_peer buf pid ch av pc pend st) =
    Some (sample_peer (resize (unat n) (be32 n)) pid ch av pc pend st, [ReadBody (unat n)])"
  using assms by (simp add: async_read_len_def)

definition sample_block :: block where
  "sample_block = (Block 0)\<lparr>reserved := True\<rparr>"

definition sample_piece :: piece where
  "sample_piece = (Piece 0 1)\<lparr>blocks := [0]\<rparr>"

definition sample_bits :: bitfield where
  "sample_bits = bitfield_copy_from [128]"

lemma sample_bits_facts: "sample_bits ! 0" "length sample_bits = 8" "sample_bits \<noteq> []"
proof -
  show "length sample_bits = 8" by (simp add: sample_bits_def length_bitfield)
  then show "sample_bits \<noteq> []" by auto
  show "sample_bits ! 0" by (simp add: sample_bits_def bitfield_nth)
qed

definition sample_request :: bytes where
  "sample_request = be32 13 @ [6] @ be32 0 @ be32 0 @ be32 1"

lemma sample_next:
  "next_block (Piece 0 1) [] = (Some 0, sample_piece, [sample_block])"
  "next_block sample_piece [sample_block] = (None, sample_piece, [sample_block])"
  "is_complete (Piece 0 1) [] = False" "is_complete sample_piece [sample_block] = False"
  "block_index sample_block = 0"
  "serialize (request sample_piece sample_block) = Some sample_request"
proof -
  show "serialize (request sample_piece sample_block) = Some sample_request"
    using serialize_be32 [of "request sample_piece sample_block" Request]
    by (simp add: request_payload sample_piece_def sample_block_def sample_request_def BLOCK_SIZE_def)
      (simp add: request_def Let_def)
qed (simp_all add: next_block_def sample_piece_def sample_block_def Piece_def block_count_def BLOCK_SIZE_def
    block_free_def is_complete_def block_index_def Block_def)

lemma sample_download:
  "async_download (main_ctx sample_torrent) (Some 0) (sample_peer buf pid False sample_bits None [] []) [] =
    Some (sample_peer buf pid False sample_bits (Some sample_piece) [(0, 0)] [sample_block],
      [PopWork (Some 0), StartTimer 0, WriteRequest sample_request 0])"
proof -
  have pl: "piece_length (ctx_tor (main_ctx sample_torrent)) = 1"
    by (simp add: main_ctx_def sample_torrent_def)
  have "download_step (main_ctx sample_torrent) (Some 0) (sample_peer buf pid False sample_bits None [] []) =
      Some (Inr (sample_peer buf pid False sample_bits (Some sample_piece) [(0, 0)] [sample_block],
        [PopWork (Some 0), StartTimer 0, WriteRequest sample_request 0]))"
    using sample_bits_facts
    by (simp add: download_step_def acquire_def pl bitfield_get_def sample_next emplace_block_def
        PIPELINE_LIMIT_def Let_def)
  moreover have "download_step (main_ctx sample_torrent) (Some 0)
      (sample_peer buf pid False sample_bits (Some sample_piece) [(0, 0)] [sample_block]) =
      Some (Inl (sample_peer buf pid False sample_bits (Some sample_piece) [(0, 0)] [sample_block], []))"
    using sample_bits_facts
    by (simp add: download_step_def acquire_def sample_next PIPELINE_LIMIT_def)
  ultimately show ?thesis
    by (simp add: async_download_step)
qed

lemma sample_inv: "peer_inv (ctx_tor (main_ctx sample_torrent)) (sample_peer buf pid False sample_bits None [] [])"
  by (simp add: peer_inv_def)

lemma choked_stalled:
  "async_download c pop (sample_peer buf pid True av pc [] st) acts = Some (sample_peer buf pid True av pc [] st, acts)"
proof -
  have "download_step c pop (sample_peer buf pid True av pc [] st) = Some (Inl (sample_peer buf pid True av pc [] st, []))"
    by (simp add: download_step_def PIPELINE_LIMIT_def)
  from async_download_step(1) [OF this] show ?thesis by simp
qed

lemma sample_stalled:
  "async_download (main_ctx sample_torrent) None (sample_peer buf pid False sample_bits None [] st) acts =
    Some (sample_peer buf pid False sample_bits None [] st, acts @ [PopWork None])"
proof -
  have "download_step (main_ctx sample_torrent) None (sample_peer buf pid False sample_bits None [] st) =
      Some (Inl (sample_peer buf pid False sample_bits None [] st, [PopWork None]))"
    using sample_bits_facts by (simp add: download_step_def acquire_def PIPELINE_LIMIT_def)
  then show ?thesis by (rule async_download_step)
qed

section \<open>The messages of the sender\<close>

lemma sample_bitfield:
  "length buf = 2 \<Longrightarrow>
    handle (main_ctx sample_torrent) u pop (BodyRead False [5, 128]) (sample_peer buf pid True [] None [] []) =
    Some (sample_peer (resize 4 [5, 128]) pid True sample_bits None [] [], [ReadLength])"
  by (simp add: body_read_def async_handle_message_def Message_def try_from_def choked_stalled
      async_read_message_def sample_bits_def)

lemma sample_unchoke:
  "length buf = 1 \<Longrightarrow>
    handle (main_ctx sample_torrent) u (Some 0) (BodyRead False [1]) (sample_peer buf pid True sample_bits None [] []) =
    Some (sample_peer (resize 4 [1]) pid False sample_bits (Some sample_piece) [(0, 0)] [sample_block],
      [PopWork (Some 0), StartTimer 0, WriteRequest sample_request 0, ReadLength])"
  by (simp add: body_read_def async_handle_message_def Message_def try_from_def sample_download
      async_read_message_def)

definition sample_result :: complete_piece where
  "sample_result = \<lparr>cp_data = [7], cp_index = 0, cp_size = 1\<rparr>"

lemma sample_handle_piece:
  "handle_piece (main_ctx sample_torrent) sample_uninit \<lparr>mtype = Some PieceMsg, payload = accept_header 0 0 [7]\<rparr>
     (sample_peer buf pid False sample_bits (Some sample_piece) [(0, 0)] [sample_block]) =
   Some (sample_peer buf pid False sample_bits None [] [block_release (fill_with [7] sample_block)],
     [PushResult (ResultPieceComplete sample_result)])"
proof -
  have acc: "accept 0 0 (accept_header 0 0 [7]) sample_piece [sample_block] =
      ((Ok, 0), [fill_with [7] sample_block])"
    by (subst accept_unfold) (simp_all add: sample_piece_def sample_block_def Piece_def BLOCK_SIZE_def)
  let ?st = "[block_release (fill_with [7] sample_block)]"
  have b: "block_bytes (block_release (fill_with [7] sample_block)) = [7]"
    by (simp add: block_release_def fill_with_def block_bytes_def overlay_def)
  have f: "filled (fill_with [7] sample_block)" by (simp add: fill_with_def)
  have full: "is_complete sample_piece ?st"
    by (simp add: is_complete_def sample_piece_def Piece_def block_count_def BLOCK_SIZE_def f)
  have fin: "finalize [0] sample_piece ?st = Some (sample_result, sample_piece\<lparr>finalized := Some sample_result\<rparr>)"
    by (simp add: finalize_def sample_piece_def Piece_def b sample_result_def overlay_def Let_def)
  have h: "cp_hash sample_result = Some (sha1_bytes [7])"
    "piece_hash (ctx_tor (main_ctx sample_torrent)) 0 = Some (sha1_bytes [7])"
    by (simp_all add: cp_hash_def sample_result_def piece_hash_def main_ctx_def sample_torrent_def)
  have i: "index (sample_piece\<lparr>finalized := Some sample_result\<rparr>) = 0"
    by (simp add: sample_piece_def Piece_def)
  show ?thesis
    by (simp add: handle_piece_def sample_uninit_def acc release_block_def full fin h i)
qed

lemma sample_piece_message:
  "length buf = 10 \<Longrightarrow>
    handle (main_ctx sample_torrent) sample_uninit None (BodyRead False (7 # accept_header 0 0 [7]))
     (sample_peer buf pid False sample_bits (Some sample_piece) [(0, 0)] [sample_block]) =
   Some (sample_peer (resize 4 (7 # accept_header 0 0 [7])) pid False sample_bits None []
       [block_release (fill_with [7] sample_block)],
     [PushResult (ResultPieceComplete sample_result), PopWork None, ReadLength])"
proof -
  assume "length buf = 10"
  moreover have "length (accept_header 0 0 [7 :: byte]) = 9" by (simp add: accept_header_def)
  moreover have "Message (7 # accept_header 0 0 [7]) =
      Some \<lparr>mtype = Some PieceMsg, payload = accept_header 0 0 [7]\<rparr>"
    by (simp add: Message_def try_from_def)
  ultimately show ?thesis
    by (simp add: body_read_def async_handle_message_def sample_handle_piece sample_stalled
        async_read_message_def)
qed

section \<open>The run\<close>

definition sample_state ::
    "peer \<Rightarrow> (nat \<times> action) multiset \<Rightarrow> u32 multiset \<Rightarrow> peer_result list \<Rightarrow> peer_result list \<Rightarrow> monitor \<Rightarrow>
      system" where
  "sample_state p os wk q tk m = \<lparr>conns = [p], ops = os, work = wk, queue = q, taken = tk, mon = m\<rparr>"

lemma sample_uninit_ok: "uninit_ok sample_torrent sample_uninit"
  by (simp add: uninit_ok_def sample_torrent_def sample_uninit_def HASH_SIZE_def)

text \<open>The states that the program runs through when the tracker names one peer.\<close>

definition underway :: "torrent \<Rightarrow> system \<Rightarrow> bool" where
  "underway t s \<longleftrightarrow> (sys_step (main_ctx t))\<^sup>*\<^sup>* (start_run_connections t one_peer) s"

lemma underway_step: "underway t s \<Longrightarrow> sys_step (main_ctx t) s s' \<Longrightarrow> underway t s'"
  by (auto simp: underway_def intro: rtranclp.rtrancl_into_rtrancl)

lemma underway_reachable: "underway t s \<Longrightarrow> length (info_hash t) = HASH_SIZE \<Longrightarrow> reachable t s"
  by (auto simp: underway_def reachable_def)

lemma underway_handler:
  assumes "underway t (sample_state p (add_mset (0, act) os) wk q tk m)" and "uninit_ok t u"
    and "completes act e" and "handle (main_ctx t) u pop e p = Some (p', acts)"
    and "perform 0 acts (sample_state p' os wk q tk m) = Some s'"
  shows "underway t s'"
  using assms(1)
proof (rule underway_step)
  have c: "ctx_tor (main_ctx t) = t" by (simp add: main_ctx_def)
  show "sys_step (main_ctx t) (sample_state p (add_mset (0, act) os) wk q tk m) s'"
    by (rule sys_step.handler [where i = 0 and act = act and e = e and pop = pop and u = u])
      (use assms in \<open>simp_all add: sample_state_def c\<close>)
qed

text \<open>A message: its length is read, then its body.\<close>

lemma underway_message:
  assumes "underway t
      (sample_state (sample_peer buf pid ch av pc pend st) (add_mset (0, ReadLength) os) wk q tk m)"
    and "uninit_ok t u" and "length buf = 4" and "n \<noteq> 0" and "length body = unat n"
    and "handle (main_ctx t) u pop (BodyRead False body)
      (sample_peer (resize (unat n) (be32 n)) pid ch av pc pend st) = Some (p', acts)"
    and "perform 0 acts (sample_state p' os wk q tk m) = Some s'"
  shows "underway t s'"
proof -
  have "underway t (sample_state (sample_peer (resize (unat n) (be32 n)) pid ch av pc pend st)
      (add_mset (0, ReadBody (unat n)) os) wk q tk m)"
    by (rule underway_handler [OF assms(1,2) _ sample_length [OF assms(3,4)]])
      (simp_all add: completes_def fills_def sample_state_def)
  then show ?thesis
    by (rule underway_handler [OF _ assms(2) _ assms(6,7)]) (simp add: completes_def fills_def assms(5))
qed

definition own_handshake :: "torrent \<Rightarrow> bytes" where
  "own_handshake t = serialise (Handshake (info_hash t) main_peer_id)"

lemma underway_connected:
  assumes "length (info_hash t) = HASH_SIZE" and "uninit_ok t u"
  shows "\<exists>pid msg. underway t
     (sample_state (sample_peer (resize 4 (own_handshake t)) pid True [] None [] [])
       {#(0, ReadLength), (0, WriteMessage msg)#} (mset (all_pieces t)) [ResultPeerConnected sample_addr] []
       (MonitorVisitor t))"
proof -
  let ?p = "sample_peer [] [] True [] None [] []" and ?m = "MonitorVisitor t" and ?w = "mset (all_pieces t)"
  let ?c = "main_ctx t" and ?h = "own_handshake t"
  have hs: "ctx_handshake ?c = ?h" by (simp add: main_ctx_def own_handshake_def)
  have len: "length ?h = 68" using length_main_handshake [of t] assms(1) by (simp add: hs HASH_SIZE_def)
  have "start_run_connections t one_peer = sample_state ?p {#(0, AsyncConnect)#} ?w [] [] ?m"
    by (simp add: start_run_connections_def one_peer_def sample_state_def Peer_def sample_peer_def)
  then have r0: "underway t (sample_state ?p {#(0, AsyncConnect)#} ?w [] [] ?m)"
    by (simp add: underway_def)
  have r1: "underway t (sample_state ?p {#(0, WriteHandshake ?h)#} ?w [] [] ?m)"
    by (rule underway_handler [OF r0 assms(2), where e = "Connected False" and p' = ?p and acts = "[WriteHandshake ?h]"])
      (simp_all add: completes_def async_handshake_write_def hs sample_state_def)
  have r2: "underway t
      (sample_state (sample_peer (resize 68 []) [] True [] None [] []) {#(0, ReadHandshake 68)#} ?w [] [] ?m)"
    by (rule underway_handler [OF r1 assms(2), where e = "HandshakeWritten False" and acts = "[ReadHandshake 68]" and
          p' = "sample_peer (resize 68 []) [] True [] None [] []"])
      (simp_all add: completes_def async_handshake_read_def hs len sample_state_def)
  obtain h where h: "Handshake_parse (u_byte u) (u_hash u) ?h = Some h"
    using Handshake_parse_total [of "u_hash u" "u_byte u" ?h] assms(2) by (auto simp: uninit_ok_def)
  obtain msg where msg: "serialize interested = Some msg" by (simp add: serialize_def interested_def)
  have "underway t
     (sample_state (sample_peer (resize 4 ?h) (hs_peer_id h) True [] None [] [])
       {#(0, ReadLength), (0, WriteMessage msg)#} ?w [ResultPeerConnected sample_addr] [] ?m)"
    by (rule underway_handler [OF r2 assms(2), where e = "HandshakeRead False ?h" and
          p' = "sample_peer (resize 4 ?h) (hs_peer_id h) True [] None [] []" and
          acts = "[PushResult (ResultPeerConnected sample_addr), WriteMessage msg, ReadLength]"])
      (simp_all add: completes_def fills_def async_next_def len h msg async_read_message_def sample_state_def)
  then show ?thesis by blast
qed

lemma sample_reachable: "underway sample_torrent s \<Longrightarrow> reachable sample_torrent s"
  by (rule underway_reachable) (simp_all add: sample_torrent_def HASH_SIZE_def)

lemma sample_connected:
  "\<exists>pid msg. underway sample_torrent
     (sample_state (sample_peer (resize 4 (own_handshake sample_torrent)) pid True [] None [] [])
       {#(0, ReadLength), (0, WriteMessage msg)#} {#0#} [ResultPeerConnected sample_addr] [] (MonitorVisitor sample_torrent))"
proof -
  have "mset (all_pieces sample_torrent) = {#0#}" by (simp add: all_pieces_def sample_torrent_def pieces_def)
  with underway_connected [OF _ sample_uninit_ok] show ?thesis by (simp add: sample_torrent_def HASH_SIZE_def)
qed

text \<open>The block has been requested.\<close>

lemma sample_requested:
  "\<exists>pid msg. underway sample_torrent
     (sample_state (sample_peer (resize 4 [1]) pid False sample_bits (Some sample_piece) [(0, 0)] [sample_block])
       {#(0, ReadLength), (0, WriteRequest sample_request 0), (0, StartTimer 0), (0, WriteMessage msg)#} {#}
       [ResultPeerConnected sample_addr] [] (MonitorVisitor sample_torrent))"
proof -
  let ?m = "MonitorVisitor sample_torrent"
  obtain pid msg where r3: "underway sample_torrent
     (sample_state (sample_peer (resize 4 (own_handshake sample_torrent)) pid True [] None [] [])
       {#(0, ReadLength), (0, WriteMessage msg)#} {#0#} [ResultPeerConnected sample_addr] [] ?m)"
    using sample_connected by blast
  have r4: "underway sample_torrent
     (sample_state (sample_peer (resize 4 [5, 128]) pid True sample_bits None [] [])
       {#(0, ReadLength), (0, WriteMessage msg)#} {#0#} [ResultPeerConnected sample_addr] [] ?m)"
    by (rule underway_message [OF r3 sample_uninit_ok, where n = 2 and body = "[5, 128]", OF _ _ _ sample_bitfield])
      (simp_all add: sample_state_def)
  have "underway sample_torrent
     (sample_state (sample_peer (resize 4 [1]) pid False sample_bits (Some sample_piece) [(0, 0)] [sample_block])
       {#(0, ReadLength), (0, WriteRequest sample_request 0), (0, StartTimer 0), (0, WriteMessage msg)#} {#}
       [ResultPeerConnected sample_addr] [] ?m)"
    by (rule underway_message [OF r4 sample_uninit_ok, where n = 1 and body = "[1]", OF _ _ _ sample_unchoke])
      (simp_all add: sample_state_def)
  then show ?thesis by blast
qed

lemma sample_downloaded:
  "\<exists>p os. underway sample_torrent
     (sample_state p (add_mset (0, ReadLength) os) {#} [ResultPeerConnected sample_addr, ResultPieceComplete sample_result] []
       (MonitorVisitor sample_torrent))"
proof -
  let ?m = "MonitorVisitor sample_torrent"
  obtain pid msg where r5: "underway sample_torrent
     (sample_state (sample_peer (resize 4 [1]) pid False sample_bits (Some sample_piece) [(0, 0)] [sample_block])
       {#(0, ReadLength), (0, WriteRequest sample_request 0), (0, StartTimer 0), (0, WriteMessage msg)#} {#}
       [ResultPeerConnected sample_addr] [] ?m)"
    using sample_requested by blast
  have "underway sample_torrent
     (sample_state (sample_peer (resize 4 (7 # accept_header 0 0 [7])) pid False sample_bits None []
         [block_release (fill_with [7] sample_block)])
       {#(0, ReadLength), (0, WriteRequest sample_request 0), (0, StartTimer 0), (0, WriteMessage msg)#} {#}
       [ResultPeerConnected sample_addr, ResultPieceComplete sample_result] [] ?m)"
    by (rule underway_message [OF r5 sample_uninit_ok, where n = 10 and body = "7 # accept_header 0 0 [7]", OF _ _ _ sample_piece_message])
      (simp_all add: sample_state_def accept_header_def)
  then show ?thesis by blast
qed

text \<open>The peer announces a message of one byte.\<close>

lemma sample_announced:
  "\<exists>p msg. recv_buffer p = resize 1 (be32 1) \<and> cur_piece p = None \<and>
     underway sample_torrent (sample_state p {#(0, ReadBody 1), (0, WriteMessage msg)#} {#0#}
       [ResultPeerConnected sample_addr] [] (MonitorVisitor sample_torrent))"
proof -
  obtain pid msg where r3: "underway sample_torrent
     (sample_state (sample_peer (resize 4 (own_handshake sample_torrent)) pid True [] None [] [])
       {#(0, ReadLength), (0, WriteMessage msg)#} {#0#} [ResultPeerConnected sample_addr] []
       (MonitorVisitor sample_torrent))"
    using sample_connected by blast
  have "length (resize 4 (own_handshake sample_torrent)) = 4" by simp
  note len = sample_length [OF this, of 1, simplified]
  let ?p = "sample_peer (resize 1 (be32 1)) pid True [] None [] []"
  have "underway sample_torrent (sample_state ?p {#(0, ReadBody 1), (0, WriteMessage msg)#} {#0#}
       [ResultPeerConnected sample_addr] [] (MonitorVisitor sample_torrent))"
    by (rule underway_handler [OF r3 sample_uninit_ok, where e = "LengthRead False (be32 1)" and p' = ?p and acts = "[ReadBody 1]"])
      (simp_all add: completes_def fills_def sample_state_def len)
  then show ?thesis by (intro exI [of _ ?p] exI [of _ msg]) simp
qed

definition sample_done :: "system \<Rightarrow> bool" where
  "sample_done s \<longleftrightarrow> reachable sample_torrent s \<and> underway sample_torrent s \<and> complete (mon s) \<and>
     taken s = [ResultPieceComplete sample_result] \<and> (0, ReadLength) \<in># ops s"

text \<open>The monitor takes the piece first and is done.\<close>

lemma sample_run: "\<exists>s. sample_done s"
proof -
  obtain p os where "underway sample_torrent
     (sample_state p (add_mset (0, ReadLength) os) {#} [ResultPeerConnected sample_addr, ResultPieceComplete sample_result] []
       (MonitorVisitor sample_torrent))" (is "underway _ ?s")
    using sample_downloaded by blast
  let ?t = "?s\<lparr>queue := [ResultPeerConnected sample_addr] @ [], taken := taken ?s @ [ResultPieceComplete sample_result],
        mon := visit (ResultPieceComplete sample_result) (mon ?s)\<rparr>"
  note \<open>underway sample_torrent ?s\<close>
  moreover have "sys_step (main_ctx sample_torrent) ?s ?t"
    by (rule sys_step.result)
      (simp_all add: sample_state_def complete_def MonitorVisitor_def sample_torrent_def pieces_def)
  ultimately have "underway sample_torrent ?t" by (rule underway_step)
  moreover have "complete (mon ?t)" "taken ?t = [ResultPieceComplete sample_result]"
    "(0, ReadLength) \<in># ops ?t"
    by (simp_all add: sample_state_def complete_def MonitorVisitor_def sample_torrent_def pieces_def sample_result_def)
  ultimately have "sample_done ?t" unfolding sample_done_def using sample_reachable by blast
  then show ?thesis by blast
qed

end
