(* ===== verification/Sample_Http.thy ===== *)
theory Sample_Http
  imports Tracker Sample_Run
begin

text \<open>
  A concrete announce request and its answers, on which the theorems about the HTTP client
  are evaluated: a status line, a length or a chunked coding, segments cut in awkward places.
\<close>

definition ok_status :: status where
  "ok_status = \<lparr>http_version = (1, 1), status_code = 200, reason = str ''OK''\<rparr>"

definition tracker_uri :: uri where
  "tracker_uri = http_uri (str ''t'') None [] (request_query sample_torrent)"

definition tracker_data :: bytes where
  "tracker_data = request_bytes_of tracker_uri (str ''GET'') [] []"

lemma tracker_uri_parsed: "parseUri (request_url sample_torrent) = Inr tracker_uri"
  unfolding tracker_uri_def
  by (rule parse_request_url) (simp_all add: sample_torrent_def uri_text_def uri_text_ok_def)

lemma tracker_encode: "encodeHtml tracker_uri (str ''GET'') [] [] = Inr tracker_data"
  unfolding encodeHtml_Inr tracker_data_def
  by (simp add: tracker_uri_def http_uri_def all_fields_def field_accepted_def decimal.simps
      char_class digit_byte_def)

definition tracker_reply :: "(bytes, data) std_map" where
  "tracker_reply =
     [(str ''interval'', BInt 900), (str ''peers'', BStr (concat (map compact_peer [sample_addr])))]"

lemma tracker_reply_wf: "wf_data (BDict tracker_reply)"
  by (simp add: tracker_reply_def wf_str_def compact_peer_def)

lemma tracker_reply_length: "length (encode (BDict tracker_reply)) = 32"
  by (simp add: tracker_reply_def compact_peer_def encode_str_def write_integer_def decimal.simps)

definition length_fields :: "header_field list" where
  "length_fields = [(str ''Content-Type'', str ''text/plain''), (str ''Content-Length'', decimal 32)]"

definition chunked_fields :: "header_field list" where
  "chunked_fields = [(str ''Transfer-Encoding'', str ''chunked'')]"

lemma head_ok_samples: "head_ok ok_status length_fields" "head_ok ok_status chunked_fields"
  by (simp_all add: head_ok_def ok_status_def status_ok_def length_fields_def chunked_fields_def field_ok_def
      trimmed_def char_class decimal.simps digit_byte_def)

lemma framed_samples:
  "framed_by (str ''content-length'', decimal 32) (map lower_field length_fields)"
  "framed_by (str ''transfer-encoding'', str ''chunked'') (map lower_field chunked_fields)"
proof -
  let ?type = "(str ''content-type'', str ''text/plain'')"
  have "map lower_field length_fields = [?type] @ (str ''content-length'', decimal 32) # []"
    "map lower_field chunked_fields = [] @ (str ''transfer-encoding'', str ''chunked'') # []"
    by (simp_all add: length_fields_def chunked_fields_def lower_field_def toLower_def)
  moreover have "plain_field ?type" by (simp add: plain_field_def)
  ultimately show "framed_by (str ''content-length'', decimal 32) (map lower_field length_fields)"
    "framed_by (str ''transfer-encoding'', str ''chunked'') (map lower_field chunked_fields)"
    unfolding framed_by_def by (metis append_Nil2 empty_iff list.set(1) set_ConsD, metis append_Nil2 append_Nil empty_iff list.set(1))
qed

text \<open>One chunk of one byte, cut inside the line ends.\<close>

definition chunked_segments :: "bytes list" where
  "chunked_segments =
     [response_head ok_status chunked_fields @ str ''1'', crlf @ str ''x'' @ [0x0D], [0x0A] @ str ''0'' @ [0x0D], [0x0A]]"

lemma chunked_segments_concat:
  "concat chunked_segments = response_head ok_status chunked_fields @ enc_chunks [str ''x''] @ []"
  by (simp add: chunked_segments_def enc_chunks_def enc_chunk_def crlf_def hex_digits.simps hex_digit_def)

definition listening_os :: "bytes list \<Rightarrow> os" where
  "listening_os segs = (quick_os [] segs)\<lparr>selects := replicate (length segs) (Ret 1)\<rparr>"

lemma listening_delivers: "delivers dl sk (listening_os segs) segs"
  by (rule delivers_quick) (simp_all add: listening_os_def quick_os_def)

section \<open>The program on these inputs\<close>

definition sample_file :: bytes where
  "sample_file = encode (BDict [(str ''announce'', BStr (str ''http://t'')), (str ''info'', BDict sample_info)])"

lemma sample_from_file: "from_file (Some sample_file) = Inr sample_torrent"
proof -
  let ?m = "[(str ''announce'', BStr (str ''http://t'')), (str ''info'', BDict sample_info)]"
  have "SingleFileTorrent (encode (BDict ?m)) =
      Inr \<lparr>announce = http_announce (str ''http://t''), filename = str ''f'', piece_length = word_of_int 1,
        file_length = word_of_int 1, piece_hashes = [sha1_bytes [7]],
        info_hash = sha1_bytes (encode (BDict sample_info))\<rparr>"
    by (rule SingleFileTorrent_encode [where ds = "[[7]]"])
      (simp_all add: sample_info_def wf_str_def Hash_of_sha1)
  moreover have "http_announce (str ''http://t'') = str ''http://t''" by (simp add: http_announce_def)
  moreover have "read_file (Some sample_file) = sample_file" by (simp add: read_file_content)
  ultimately show ?thesis by (simp add: from_file_def sample_file_def sample_torrent_def)
qed

text \<open>The reply with its length, cut inside the body.\<close>

definition reply_segments :: "bytes list" where
  "reply_segments =
     [response_head ok_status length_fields @ take 5 (encode (BDict tracker_reply)), drop 5 (encode (BDict tracker_reply))]"

lemma reply_segments_facts:
  "concat reply_segments = response_head ok_status length_fields @ encode (BDict tracker_reply)"
  "length (response_head ok_status length_fields) \<le> length (hd reply_segments)" "[] \<notin> set reply_segments"
proof -
  have "drop 5 (encode (BDict tracker_reply)) \<noteq> []"
    using tracker_reply_length by (metis drop_eq_Nil2 numeral_le_iff semiring_norm(68-73))
  then show "[] \<notin> set reply_segments"
    by (simp add: reply_segments_def response_head_neq_Nil del: encode.simps drop_eq_Nil drop_eq_Nil2)
qed (simp_all add: reply_segments_def del: encode.simps)

lemma sample_send_request:
  "\<exists>w'. send_request junk sample_torrent (quick_os tracker_data reply_segments) = Some (Inr one_peer, w')"
proof -
  obtain dl sk w1 where w1:
      "start_request v4 tracker_uri (str ''GET'') [] [] no_timeout (quick_os tracker_data reply_segments) =
        Some (Inr (dl, sk), w1)"
    "delivers dl sk w1 reply_segments"
    using start_quick [OF tracker_encode] by blast
  let ?r = "read_response ok_status length_fields (encode (BDict tracker_reply))"
  have framed: "framed_by (str ''content-length'', decimal (length (encode (BDict tracker_reply)))) (map lower_field length_fields)"
    unfolding tracker_reply_length by (rule framed_samples(1))
  have "length (encode (BDict tracker_reply)) < 2 ^ 63" unfolding tracker_reply_length by simp
  then have "\<exists>w'. recv_loop dl sk (initial_state junk) w1 = Some (Inr ?r, w')"
    by (rule content_length_read [OF head_ok_samples(1) framed _ w1(2) reply_segments_facts(3,1,2)])
  moreover have "TrackerResponse (resp_body ?r) = Inr \<lparr>interval = word_of_int 900, peers = [sample_addr]\<rparr>"
    unfolding read_response_def recv_loop.simps response.simps
    by (rule TrackerResponse_encode [OF tracker_reply_wf]) (simp_all add: tracker_reply_def)
  ultimately show ?thesis
    using send_request_reply [OF tracker_uri_parsed w1(1)] by (simp add: one_peer_def)
qed

lemma sample_main:
  "\<exists>w'. main junk (Some sample_file) (quick_os tracker_data reply_segments) =
     Some (Inr (sample_torrent, start_run_connections sample_torrent one_peer), w')"
  using sample_send_request [of junk] by (auto simp: main_def sample_from_file)

text \<open>
  A host that answers with a connection in progress and then refuses it; a millisecond per
  reading. The wait is interrupted after a tenth of a second.
\<close>

definition refusing_os :: "bool \<Rightarrow> os" where
  "refusing_os updated =
     (quick_os [] [])\<lparr>connects := [Fail EINPROGRESS], so_error := Ret 111, clock := \<lambda>n. int n * 1000000,
        selects := [Fail EINTR, Ret 1], slept := \<lambda>_. 100000, left_time := rest_of updated\<rparr>"

lemma refusing_os_start:
  "trace (refusing_os upd) = []" "readings (refusing_os upd) = 0" "clock (refusing_os upd) 0 = 0"
  "left_time (refusing_os upd) = rest_of upd"
  by (simp_all add: refusing_os_def quick_os_def)

definition refusing_trace :: "bool \<Rightarrow> sys_call list" where
  "refusing_trace updated =
     [Clock 0, Get_addresses AF_INET6, Open_socket AF_INET6 3, Get_flags 3, Set_flags 3, Clock 1000000, Connect 3,
      Select 3 SelectWrite (Some (0, 499000)), Interrupted 100000,
      Select 3 SelectWrite (Some (0, if updated then 399000 else 499000)), Get_error 3, Close 3, Free_addresses]"

lemma refusing_run:
  "\<exists>e w'. Request_send ((0, 0), 0) v6 tracker_uri (str ''GET'') [] [] 500 (refusing_os upd) = Some (Inl e, w') \<and>
     trace w' = refusing_trace upd"
proof -
  have "uri_scheme tracker_uri = str ''http''" by (simp add: tracker_uri_def http_uri_def)
  then show ?thesis
    by (simp add: Request_send_def make_deadline_def steady_now_def get_address_def Socket_def set_nonblocking_def exchange_def
        connect_by_def remaining_or_none_def getRemainingMilliseconds_def socket_connect_def socket_select_def
        connect_result_def select_timeout_def Let_def io_bind_def at_exit_def tracker_encode [simplified] refusing_os_def quick_os_def
        getAddressFamily_def destroy_socket_def socket_close_def invalid_def EINTR_def EINPROGRESS_def NS_PER_MS_def
        signed_divide_int_def signed_modulo_int_def record_call_def rest_of_def micros_def refusing_trace_def)
qed

end
