(* ===== verification/Handles.thy ===== *)
theory Handles
  imports Http_Socket "HOL-Library.Multiset"
begin

text \<open>
  The classes of \<^verbatim>\<open>httprequest.hpp\<close> that own something of the operating system and can only
  be moved: \<^verbatim>\<open>Socket\<close> with its descriptor and \<^verbatim>\<open>WinSock\<close> with one call of \<^verbatim>\<open>WSAStartup\<close>. A
  program that uses such a class is a sequence of operations on objects; \<open>handle_class\<close> is the
  contract of the special members under which it releases everything once.
\<close>

section \<open>Programs over objects that own handles\<close>

text \<open>
  The special members of a class: what they release, and the objects they leave. Moving
  gives the new (or assigned) object and what is left of the source. The first argument of an
  assignment is the comparison of the two addresses.
\<close>

record ('o, 'h) special_members =
  holds :: "'o \<Rightarrow> 'h list"
  move_construct :: "'o \<Rightarrow> 'o \<times> 'o"
  move_assign :: "bool \<Rightarrow> 'o \<Rightarrow> 'o \<Rightarrow> 'h list \<times> 'o \<times> 'o"
  destruct :: "'o \<Rightarrow> 'h list"

text \<open>Objects are numbered in the order of their construction; \<open>None\<close> has been destroyed.\<close>

record ('o, 'h) own_state =
  objects :: "'o option list"
  open_handles :: "'h multiset"

datatype 'o own_op = Construct 'o | MoveConstruct nat | MoveAssign nat nat | Destroy nat

datatype own_fault = Dead_object | Released_twice

definition live_object :: "('o, 'h) own_state \<Rightarrow> nat \<Rightarrow> 'o option" where
  "live_object s i = (if i < length (objects s) then objects s ! i else None)"

definition release_handles :: "'h list \<Rightarrow> ('o, 'h) own_state \<Rightarrow> own_fault + ('o, 'h) own_state" where
  "release_handles hs s =
     (if mset hs \<subseteq># open_handles s then Inr (s\<lparr>open_handles := open_handles s - mset hs\<rparr>)
      else Inl Released_twice)"

fun own_step :: "('o, 'h) special_members \<Rightarrow> 'o own_op \<Rightarrow> ('o, 'h) own_state \<Rightarrow>
    own_fault + ('o, 'h) own_state" where
  "own_step c (Construct x) s =
     Inr (s\<lparr>objects := objects s @ [Some x], open_handles := open_handles s + mset (holds c x)\<rparr>)"
| "own_step c (MoveConstruct i) s =
     (case live_object s i of
        None \<Rightarrow> Inl Dead_object
      | Some x \<Rightarrow>
          (let (y, x') = move_construct c x in Inr (s\<lparr>objects := (objects s)[i := Some x'] @ [Some y]\<rparr>)))"
| "own_step c (MoveAssign i j) s =
     (case (live_object s i, live_object s j) of
        (Some x, Some y) \<Rightarrow>
          (let (hs, x', y') = move_assign c (i = j) x y
           in release_handles hs (s\<lparr>objects := (objects s)[i := Some x', j := Some y']\<rparr>))
      | _ \<Rightarrow> Inl Dead_object)"
| "own_step c (Destroy i) s =
     (case live_object s i of
        None \<Rightarrow> Inl Dead_object
      | Some x \<Rightarrow> release_handles (destruct c x) (s\<lparr>objects := (objects s)[i := None]\<rparr>))"

fun own_run :: "('o, 'h) special_members \<Rightarrow> 'o own_op list \<Rightarrow> ('o, 'h) own_state \<Rightarrow>
    own_fault + ('o, 'h) own_state" where
  "own_run c [] s = Inr s"
| "own_run c (opn # ops) s = and_then (own_step c opn s) (own_run c ops)"

definition no_objects :: "('o, 'h) own_state" where
  "no_objects = \<lparr>objects = [], open_handles = {#}\<rparr>"

section \<open>The contract\<close>

definition held :: "('o, 'h) special_members \<Rightarrow> 'o option \<Rightarrow> 'h list" where
  "held c m = (case m of None \<Rightarrow> [] | Some x \<Rightarrow> holds c x)"

definition all_held :: "('o, 'h) special_members \<Rightarrow> 'o option list \<Rightarrow> 'h multiset" where
  "all_held c objs = mset (concat (map (held c) objs))"

lemma all_held_simps [simp]:
  "all_held c [] = {#}" "all_held c (m # objs) = mset (held c m) + all_held c objs"
  "all_held c (xs @ ys) = all_held c xs + all_held c ys"
  "held c None = []" "held c (Some x) = holds c x"
  by (simp_all add: all_held_def held_def)

lemma all_held_update:
  "i < length objs \<Longrightarrow> all_held c (objs[i := m]) + mset (held c (objs ! i)) = all_held c objs + mset (held c m)"
proof (induction objs arbitrary: i)
  case (Cons a objs)
  then show ?case by (cases i) (simp_all add: ac_simps)
qed simp

lemma live_object_Some: "live_object s i = Some x \<longleftrightarrow> i < length (objects s) \<and> objects s ! i = Some x"
  by (simp add: live_object_def)

lemma all_held_live:
  "live_object s i = Some x \<Longrightarrow>
    all_held c ((objects s)[i := m]) + mset (holds c x) = all_held c (objects s) + mset (held c m)"
  using all_held_update [of i "objects s" c m] by (simp add: live_object_Some)

locale handle_class =
  fixes c :: "('o, 'h) special_members"
  assumes move_construct_holds: "move_construct c x = (y, x') \<Longrightarrow> holds c y = holds c x \<and> holds c x' = []"
    and move_assign_self: "move_assign c True x x = ([], x, x)"
    and move_assign_holds: "move_assign c False x y = (hs, x', y') \<Longrightarrow>
      hs = holds c x \<and> holds c x' = holds c y \<and> holds c y' = []"
    and destruct_holds: "destruct c x = holds c x"
begin

definition balanced :: "('o, 'h) own_state \<Rightarrow> bool" where
  "balanced s \<longleftrightarrow> open_handles s = all_held c (objects s)"

text \<open>Every open handle is held by exactly one object, and stays so.\<close>

lemma step_balanced:
  assumes "balanced s"
  shows "case own_step c opn s of Inl f \<Rightarrow> f = Dead_object | Inr s' \<Rightarrow> balanced s'"
proof (cases opn)
  case (Construct x)
  with assms show ?thesis by (simp add: balanced_def)
next
  case (MoveConstruct i)
  show ?thesis
  proof (cases "live_object s i")
    case (Some x)
    obtain y x' where m: "move_construct c x = (y, x')" by fastforce
    from move_construct_holds [OF m] all_held_live [OF Some, of c "Some x'"] assms MoveConstruct Some m
    show ?thesis by (simp add: balanced_def)
  qed (simp add: MoveConstruct)
next
  case (MoveAssign i j)
  show ?thesis
  proof (cases "live_object s i = None \<or> live_object s j = None \<or> i = j")
    case True
    have "(objects s)[i := Some x, i := Some x] = objects s" if "live_object s i = Some x" for x
      using that by (metis list_update_id list_update_overwrite live_object_Some)
    with True assms MoveAssign show ?thesis
      by (auto simp: move_assign_self release_handles_def split: option.splits)
  next
    case False
    then obtain x y where i: "live_object s i = Some x" and j: "live_object s j = Some y" and "i \<noteq> j" by auto
    obtain hs x' y' where m: "move_assign c False x y = (hs, x', y')" using prod_cases3 by blast
    let ?s = "s\<lparr>objects := (objects s)[i := Some x']\<rparr>"
    have "live_object ?s j = Some y" using j \<open>i \<noteq> j\<close> by (simp add: live_object_Some)
    from all_held_live [OF this, of c "Some y'"] all_held_live [OF i, of c "Some x'"] move_assign_holds [OF m]
    have "all_held c ((objects s)[i := Some x', j := Some y']) + mset hs + mset (holds c y) =
        all_held c (objects s) + mset (holds c y)"
      by (auto simp: ac_simps)
    then have "all_held c ((objects s)[i := Some x', j := Some y']) + mset hs = all_held c (objects s)" by simp
    then have "mset hs \<subseteq># all_held c (objects s) \<and>
        all_held c (objects s) - mset hs = all_held c ((objects s)[i := Some x', j := Some y'])"
      by (metis add_diff_cancel_right' mset_subset_eq_add_right)
    with assms i j \<open>i \<noteq> j\<close> m MoveAssign show ?thesis by (simp add: balanced_def release_handles_def)
  qed
next
  case (Destroy i)
  show ?thesis
  proof (cases "live_object s i")
    case (Some x)
    from all_held_live [OF this, of c None]
    have "mset (holds c x) \<subseteq># all_held c (objects s) \<and>
        all_held c (objects s) - mset (holds c x) = all_held c ((objects s)[i := None])"
      by (metis add_diff_cancel_right' all_held_simps(4) add.right_neutral mset.simps(1) mset_subset_eq_add_right)
    with assms Some Destroy show ?thesis by (simp add: balanced_def release_handles_def destruct_holds)
  qed (simp add: Destroy)
qed

lemma run_balanced:
  "balanced s \<Longrightarrow> case own_run c ops s of Inl f \<Rightarrow> f = Dead_object | Inr s' \<Rightarrow> balanced s'"
proof (induction ops arbitrary: s)
  case (Cons opn ops)
  from step_balanced [OF Cons.prems, of opn] Cons.IH show ?case
    by (cases "own_step c opn s") (auto simp: and_then_def)
qed simp

lemma run_from_empty:
  "case own_run c ops no_objects of
     Inl f \<Rightarrow> f = Dead_object
   | Inr s \<Rightarrow> open_handles s = all_held c (objects s)"
  using run_balanced [of no_objects ops]
  by (simp add: balanced_def no_objects_def split: sum.splits)

end

lemma all_destroyed: "\<forall>m \<in> set objs. m = None \<Longrightarrow> all_held c objs = {#}"
  by (induction objs) auto

section \<open>Socket\<close>

definition socket_held :: "socket \<Rightarrow> int list" where
  "socket_held sk = (if endpoint sk \<noteq> invalid then [endpoint sk] else [])"

definition socket_move_construct :: "socket \<Rightarrow> socket \<times> socket" where
  "socket_move_construct other = (\<lparr>endpoint = endpoint other\<rparr>, other\<lparr>endpoint := invalid\<rparr>)"

definition socket_move_assign :: "bool \<Rightarrow> socket \<Rightarrow> socket \<Rightarrow> int list \<times> socket \<times> socket" where
  "socket_move_assign same this other =
     (if same then ([], this, other)
      else ((if endpoint this \<noteq> invalid then [endpoint this] else []),
            this\<lparr>endpoint := endpoint other\<rparr>, other\<lparr>endpoint := invalid\<rparr>))"

definition socket_members :: "(socket, int) special_members" where
  "socket_members =
     \<lparr>holds = socket_held, move_construct = socket_move_construct, move_assign = socket_move_assign,
      destruct = (\<lambda>sk. if endpoint sk \<noteq> invalid then [endpoint sk] else [])\<rparr>"

interpretation sockets: handle_class socket_members
  by unfold_locales (auto simp: socket_members_def socket_move_construct_def socket_move_assign_def socket_held_def)

text \<open>The destructor is the one that \<^verbatim>\<open>Request::send\<close> runs at the end of the scope.\<close>

lemma destroy_socket_members:
  "trace (destroy_socket sk w) = trace w @ map Close (destruct socket_members sk)"
  by (simp add: destroy_socket_def socket_close_def socket_members_def)

section \<open>WinSock\<close>

text \<open>
  The class for Windows. \<open>wsa_error\<close> and \<open>version\<close> are what \<^verbatim>\<open>WSAStartup\<close> returns and stores in
  \<^verbatim>\<open>wsaData.wVersion\<close>. The result lists the calls that were made.
\<close>

datatype wsa_call = WSAStartup | WSACleanup

datatype winsock_exn = WinSystemError errno bytes | WinRuntimeError bytes

record winsock =
  started :: bool

definition LOBYTE :: "u16 \<Rightarrow> byte" where
  "LOBYTE v = ucast v"

definition HIBYTE :: "u16 \<Rightarrow> byte" where
  "HIBYTE v = ucast (drop_bit 8 v)"

definition WinSock :: "errno \<Rightarrow> u16 \<Rightarrow> (winsock_exn + winsock) \<times> wsa_call list" where
  "WinSock wsa_error version =
     (if wsa_error \<noteq> 0 then (Inl (WinSystemError wsa_error (str ''WSAStartup failed'')), [])
      else if LOBYTE version \<noteq> 2 \<or> HIBYTE version \<noteq> 2
      then (Inl (WinRuntimeError (str ''Invalid WinSock version'')), [WSAStartup, WSACleanup])
      else (Inr \<lparr>started = True\<rparr>, [WSAStartup]))"

definition winsock_held :: "winsock \<Rightarrow> unit list" where
  "winsock_held x = (if started x then [()] else [])"

definition winsock_move_construct :: "winsock \<Rightarrow> winsock \<times> winsock" where
  "winsock_move_construct other = (\<lparr>started = started other\<rparr>, other\<lparr>started := False\<rparr>)"

definition winsock_move_assign :: "bool \<Rightarrow> winsock \<Rightarrow> winsock \<Rightarrow> unit list \<times> winsock \<times> winsock" where
  "winsock_move_assign same this other =
     (if same then ([], this, other)
      else ((if started this then [()] else []), this\<lparr>started := started other\<rparr>, other\<lparr>started := False\<rparr>))"

definition winsock_members :: "(winsock, unit) special_members" where
  "winsock_members =
     \<lparr>holds = winsock_held, move_construct = winsock_move_construct, move_assign = winsock_move_assign,
      destruct = (\<lambda>x. if started x then [()] else [])\<rparr>"

interpretation winsocks: handle_class winsock_members
  by unfold_locales (auto simp: winsock_members_def winsock_move_construct_def winsock_move_assign_def winsock_held_def)

text \<open>A constructor that throws has cleaned up what it started.\<close>

lemma WinSock_balanced:
  "case WinSock e v of
     (Inl _, calls) \<Rightarrow> count_list calls WSAStartup = count_list calls WSACleanup
   | (Inr x, calls) \<Rightarrow> calls = [WSAStartup] \<and> winsock_held x = [()]"
  by (simp add: WinSock_def winsock_held_def)

end
