(* ===== verification/Http_Status.thy ===== *)
theory Http_Status
  imports Http_Parse
begin

text \<open>
  The enumeration \<^verbatim>\<open>Status::Code\<close> of \<^verbatim>\<open>httprequest.hpp\<close> with its values. A response carries the number
  (\<open>status_code\<close>), which need not be one of them.
\<close>

datatype code =
    Continue | SwitchingProtocol | Processing | EarlyHints | Ok | Created | Accepted |
    NonAuthoritativeInformation | NoContent | ResetContent | PartialContent | MultiStatus |
    AlreadyReported | ImUsed | MultipleChoice | MovedPermanently | Found | SeeOther |
    NotModified | UseProxy | TemporaryRedirect | PermanentRedirect | BadRequest | Unauthorized |
    PaymentRequired | Forbidden | NotFound | MethodNotAllowed | NotAcceptable |
    ProxyAuthenticationRequired | RequestTimeout | Conflict | Gone | LengthRequired |
    PreconditionFailed | PayloadTooLarge | UriTooLong | UnsupportedMediaType |
    RangeNotSatisfiable | ExpectationFailed | MisdirectedRequest | UnprocessableEntity | Locked
    | FailedDependency | TooEarly | UpgradeRequired | PreconditionRequired | TooManyRequests |
    RequestHeaderFieldsTooLarge | UnavailableForLegalReasons | InternalServerError |
    NotImplemented | BadGateway | ServiceUnavailable | GatewayTimeout | HttpVersionNotSupported
    | VariantAlsoNegotiates | InsufficientStorage | LoopDetected | NotExtended |
    NetworkAuthenticationRequired

fun code_value :: "code \<Rightarrow> u16" where
  "code_value Continue = 100"
| "code_value SwitchingProtocol = 101"
| "code_value Processing = 102"
| "code_value EarlyHints = 103"
| "code_value Ok = 200"
| "code_value Created = 201"
| "code_value Accepted = 202"
| "code_value NonAuthoritativeInformation = 203"
| "code_value NoContent = 204"
| "code_value ResetContent = 205"
| "code_value PartialContent = 206"
| "code_value MultiStatus = 207"
| "code_value AlreadyReported = 208"
| "code_value ImUsed = 226"
| "code_value MultipleChoice = 300"
| "code_value MovedPermanently = 301"
| "code_value Found = 302"
| "code_value SeeOther = 303"
| "code_value NotModified = 304"
| "code_value UseProxy = 305"
| "code_value TemporaryRedirect = 307"
| "code_value PermanentRedirect = 308"
| "code_value BadRequest = 400"
| "code_value Unauthorized = 401"
| "code_value PaymentRequired = 402"
| "code_value Forbidden = 403"
| "code_value NotFound = 404"
| "code_value MethodNotAllowed = 405"
| "code_value NotAcceptable = 406"
| "code_value ProxyAuthenticationRequired = 407"
| "code_value RequestTimeout = 408"
| "code_value Conflict = 409"
| "code_value Gone = 410"
| "code_value LengthRequired = 411"
| "code_value PreconditionFailed = 412"
| "code_value PayloadTooLarge = 413"
| "code_value UriTooLong = 414"
| "code_value UnsupportedMediaType = 415"
| "code_value RangeNotSatisfiable = 416"
| "code_value ExpectationFailed = 417"
| "code_value MisdirectedRequest = 421"
| "code_value UnprocessableEntity = 422"
| "code_value Locked = 423"
| "code_value FailedDependency = 424"
| "code_value TooEarly = 425"
| "code_value UpgradeRequired = 426"
| "code_value PreconditionRequired = 428"
| "code_value TooManyRequests = 429"
| "code_value RequestHeaderFieldsTooLarge = 431"
| "code_value UnavailableForLegalReasons = 451"
| "code_value InternalServerError = 500"
| "code_value NotImplemented = 501"
| "code_value BadGateway = 502"
| "code_value ServiceUnavailable = 503"
| "code_value GatewayTimeout = 504"
| "code_value HttpVersionNotSupported = 505"
| "code_value VariantAlsoNegotiates = 506"
| "code_value InsufficientStorage = 507"
| "code_value LoopDetected = 508"
| "code_value NotExtended = 510"
| "code_value NetworkAuthenticationRequired = 511"

definition all_codes :: "code list" where
  "all_codes =
     [Continue, SwitchingProtocol, Processing, EarlyHints, Ok, Created, Accepted,
      NonAuthoritativeInformation, NoContent, ResetContent, PartialContent, MultiStatus,
      AlreadyReported, ImUsed, MultipleChoice, MovedPermanently, Found, SeeOther, NotModified,
      UseProxy, TemporaryRedirect, PermanentRedirect, BadRequest, Unauthorized, PaymentRequired,
      Forbidden, NotFound, MethodNotAllowed, NotAcceptable, ProxyAuthenticationRequired,
      RequestTimeout, Conflict, Gone, LengthRequired, PreconditionFailed, PayloadTooLarge,
      UriTooLong, UnsupportedMediaType, RangeNotSatisfiable, ExpectationFailed,
      MisdirectedRequest, UnprocessableEntity, Locked, FailedDependency, TooEarly,
      UpgradeRequired, PreconditionRequired, TooManyRequests, RequestHeaderFieldsTooLarge,
      UnavailableForLegalReasons, InternalServerError, NotImplemented, BadGateway,
      ServiceUnavailable, GatewayTimeout, HttpVersionNotSupported, VariantAlsoNegotiates,
      InsufficientStorage, LoopDetected, NotExtended, NetworkAuthenticationRequired]"

definition code_of :: "u16 \<Rightarrow> code option" where
  "code_of n = find (\<lambda>c. code_value c = n) all_codes"

lemma set_all_codes: "c \<in> set all_codes"
  by (cases c) (simp_all add: all_codes_def)

lemma distinct_code_values: "distinct (map code_value all_codes)"
  by (simp add: all_codes_def)

lemma code_of_value: "code_of n = Some c \<longleftrightarrow> code_value c = n"
proof -
  have inj: "inj_on code_value (set all_codes)" using distinct_code_values by (simp add: distinct_map)
  have "find (\<lambda>c. code_value c = n) all_codes = None \<longleftrightarrow> (\<forall>c. code_value c \<noteq> n)"
    using set_all_codes by (auto simp: find_None_iff)
  moreover have "find (\<lambda>c. code_value c = n) all_codes = Some d \<Longrightarrow> code_value d = n" for d
    by (auto simp: find_Some_iff)
  ultimately show ?thesis
    using inj set_all_codes unfolding code_of_def inj_on_def by (metis not_None_eq)
qed

text \<open>Every value has the three digits that \<open>parseStatusCode\<close> of a status line asks for.\<close>

lemma code_value_range: "100 \<le> code_value c \<and> code_value c \<le> 511"
  by (cases c) simp_all

end
