(* ===== verification/Progress.thy ===== *)
theory Progress
  imports Monitor Complex_Main "HOL-Library.Signed_Division"
begin

text \<open>
  The clock and the progress reports of \<^verbatim>\<open>MonitorVisitor\<close> (\<^verbatim>\<open>src/peer.cpp\<close>), over the visitor of
  \<open>Monitor\<close>. A \<^verbatim>\<open>double\<close> is the exact value of its expression, a rational number or what a
  division by zero gives; rounding is not modelled. A report is the tuple of the values that
  the code prints, but for the number of all peers, a constant of the context.
\<close>

section \<open>Doubles\<close>

datatype double = Finite rat | Infinite | Minus_infinite | NaN

text \<open>Division of two finite values; the zeros of the program are positive.\<close>

definition fdiv :: "rat \<Rightarrow> rat \<Rightarrow> double" where
  "fdiv x y =
     (if y \<noteq> 0 then Finite (x / y) else if x > 0 then Infinite else if x < 0 then Minus_infinite else NaN)"

text \<open>\<^verbatim>\<open>x / y\<close> and \<^verbatim>\<open>x - y\<close> where the other operand is finite.\<close>

definition div_by :: "rat \<Rightarrow> double \<Rightarrow> double" where
  "div_by x d = (case d of Finite y \<Rightarrow> fdiv x y | Infinite \<Rightarrow> Finite 0 | Minus_infinite \<Rightarrow> Finite 0 | NaN \<Rightarrow> NaN)"

definition minus_from :: "double \<Rightarrow> rat \<Rightarrow> double" where
  "minus_from d x = (case d of Finite y \<Rightarrow> Finite (y - x) | _ \<Rightarrow> d)"

section \<open>The visitor with its clock\<close>

text \<open>Time points are ticks of \<^verbatim>\<open>system_clock\<close> in nanoseconds.\<close>

record reporter =
  visitor :: monitor
  start_time :: int
  now_time :: int
  elapsed :: rat
  last_report :: int

record report =
  rep_pieces :: u64
  rep_total :: u32
  rep_elapsed :: rat
  rep_rate :: double
  rep_remaining :: double
  rep_peers :: nat
  rep_missing :: "u32 set option"

definition Reporter :: "torrent \<Rightarrow> int \<Rightarrow> reporter" where
  "Reporter t t0 =
     \<lparr>visitor = MonitorVisitor t, start_time = t0, now_time = t0, elapsed = 0, last_report = t0\<rparr>"

text \<open>\<^verbatim>\<open>duration_cast<milliseconds>(later - earlier).count()\<close>\<close>

definition millis :: "int \<Rightarrow> int \<Rightarrow> int" where
  "millis later earlier = (later - earlier) sdiv 1000000"

text \<open>The values printed after \<^verbatim>\<open>elapsed_\<close> has been set.\<close>

definition make_report :: "torrent \<Rightarrow> reporter \<Rightarrow> report" where
  "make_report t m =
     (let downloaded = rat_of_nat (bytes_downloaded (visitor m)) / 1024;
          percent = fdiv downloaded (rat_of_nat (unat (file_length t)) / 1024);
          est_duration = div_by (elapsed m) percent;
          missing = missing_pieces (visitor m)
      in \<lparr>rep_pieces = ucast (pieces t) - word_of_nat (card missing), rep_total = pieces t,
          rep_elapsed = elapsed m, rep_rate = fdiv downloaded (elapsed m),
          rep_remaining = (if missing = {} then Finite 0 else minus_from est_duration (elapsed m)),
          rep_peers = card (peers_set (visitor m)),
          rep_missing = (if missing \<noteq> {} \<and> card missing < 10 then Some missing else None)\<rparr>)"

definition report_progress :: "torrent \<Rightarrow> reporter \<Rightarrow> reporter \<times> report" where
  "report_progress t m =
     (let m = m\<lparr>last_report := now_time m, elapsed := rat_of_int (millis (now_time m) (start_time m)) / 1000\<rparr>
      in (m, make_report t m))"

text \<open>One result that is taken at the given time; a piece may be followed by a report.\<close>

definition is_piece :: "peer_result \<Rightarrow> bool" where
  "is_piece r = (case r of ResultPieceComplete _ \<Rightarrow> True | _ \<Rightarrow> False)"

definition visit_at :: "torrent \<Rightarrow> peer_result \<times> int \<Rightarrow> reporter \<Rightarrow> reporter \<times> report list" where
  "visit_at t rn m =
     (let m = m\<lparr>visitor := visit (fst rn) (visitor m)\<rparr>
      in if is_piece (fst rn) then
           (let m = m\<lparr>now_time := snd rn\<rparr>
            in if missing_pieces (visitor m) \<noteq> {} \<and> millis (now_time m) (last_report m) > 500
               then (case report_progress t m of (m, rep) \<Rightarrow> (m, [rep]))
               else (m, []))
         else (m, []))"

text \<open>The thread, and the line of the destructor: the time and the speed.\<close>

fun reporter_loop :: "torrent \<Rightarrow> reporter \<Rightarrow> (peer_result \<times> int) list \<Rightarrow>
    (reporter \<times> report list \<times> (peer_result \<times> int) list) option" where
  "reporter_loop t m [] = (if Monitor.complete (visitor m) then Some (m, [], []) else None)"
| "reporter_loop t m (rn # rns) =
     (if Monitor.complete (visitor m) then Some (m, [], rn # rns)
      else
        (case visit_at t rn m of
           (m, reps) \<Rightarrow> map_option (\<lambda>(m', reps', queued). (m', reps @ reps', queued)) (reporter_loop t m rns)))"

definition reporter_thread :: "torrent \<Rightarrow> int \<Rightarrow> (peer_result \<times> int) list \<Rightarrow>
    (reporter \<times> report list \<times> (peer_result \<times> int) list) option" where
  "reporter_thread t t0 rns = reporter_loop t (Reporter t t0) rns"

definition summary :: "torrent \<Rightarrow> reporter \<Rightarrow> rat \<times> double" where
  "summary t m = (elapsed m, fdiv (rat_of_nat (unat (file_length t)) / (1024 * 1024)) (elapsed m))"

section \<open>The reports do not touch the file\<close>

lemma visit_at_visitor: "visit_at t rn m = (m', reps) \<Longrightarrow> visitor m' = visit (fst rn) (visitor m)"
  by (auto simp: visit_at_def report_progress_def Let_def split: if_splits)

lemma reporter_loop_visitor:
  "map_option (\<lambda>(m', reps, queued). (visitor m', map fst queued)) (reporter_loop t m rns) =
    monitor_loop (visitor m) (map fst rns)"
proof (induction t m rns rule: reporter_loop.induct)
  case (2 t m rn rns)
  obtain m' reps where m': "visit_at t rn m = (m', reps)" by fastforce
  show ?case
  proof (cases "Monitor.complete (visitor m)")
    case False
    with 2 [OF False m' [symmetric]] visit_at_visitor [OF m'] m' show ?thesis
      by (simp add: option.map_comp o_def case_prod_beta)
  qed simp
qed simp

lemma reporter_thread_visitor:
  "map_option (\<lambda>(m', reps, queued). (visitor m', map fst queued)) (reporter_thread t t0 rns) =
    monitor_thread t (map fst rns)"
  by (simp add: reporter_thread_def monitor_thread_def reporter_loop_visitor Reporter_def)

section \<open>When reports are made\<close>

text \<open>
  A report at time \<open>now\<close> comes more than 500 ms after the one before it, while pieces are
  missing, and gives the time since the start. What the visitor keeps is the last of them.
\<close>

definition timed :: "torrent \<Rightarrow> reporter \<Rightarrow> bool" where
  "timed t m \<longleftrightarrow> elapsed m = rat_of_int (millis (last_report m) (start_time m)) / 1000"

lemma millis_self [simp]: "millis x x = 0"
  by (simp add: millis_def)

lemma timed_Reporter: "timed t (Reporter t t0)"
  by (simp add: timed_def Reporter_def)

lemma visit_at_timed:
  assumes "visit_at t rn m = (m', reps)" and "timed t m"
  shows "timed t m' \<and> start_time m' = start_time m \<and>
    (reps = [] \<and> last_report m' = last_report m \<or>
     (\<exists>rep. reps = [rep] \<and> rep_elapsed rep = elapsed m' \<and> last_report m' = snd rn \<and>
       millis (snd rn) (last_report m) > 500 \<and> missing_pieces (visitor m') \<noteq> {} \<and> is_piece (fst rn)))"
  using assms
  by (auto simp: visit_at_def report_progress_def make_report_def timed_def Let_def split: if_splits)

lemma reporter_loop_elapsed:
  assumes "reporter_loop t m rns = Some (m', reps, queued)" and "timed t m"
  shows "timed t m' \<and> start_time m' = start_time m \<and> elapsed m' = (if reps = [] then elapsed m else rep_elapsed (last reps))"
  using assms
proof (induction t m rns arbitrary: reps rule: reporter_loop.induct)
  case (2 t m rn rns)
  obtain m1 reps1 where m1: "visit_at t rn m = (m1, reps1)" by fastforce
  show ?case
  proof (cases "Monitor.complete (visitor m)")
    case False
    with 2(2) m1 obtain reps2 where rec: "reporter_loop t m1 rns = Some (m', reps2, queued)" and reps: "reps = reps1 @ reps2"
      by auto
    note v = visit_at_timed [OF m1 2(3)]
    from 2(1) [OF False m1 [symmetric] rec] v 2(3) show ?thesis
      by (auto simp: reps timed_def)
  qed (use 2 in auto)
qed (auto split: if_splits)

lemma visit_at_quiet:
  assumes "visit_at t (r, n) m = (m', reps)" and "millis n (last_report m) \<le> 500"
  shows "reps = [] \<and> elapsed m' = elapsed m \<and> last_report m' = last_report m"
  using assms by (auto simp: visit_at_def Let_def split: if_splits)

lemma reporter_loop_quiet:
  assumes "reporter_loop t m rns = Some (m', reps, queued)"
    and "\<forall>(r, n) \<in> set rns. millis n (last_report m) \<le> 500"
  shows "reps = [] \<and> elapsed m' = elapsed m"
  using assms
proof (induction t m rns arbitrary: reps rule: reporter_loop.induct)
  case (2 t m rn rns)
  obtain m1 reps1 where m1: "visit_at t rn m = (m1, reps1)" by fastforce
  obtain r n where rn: "rn = (r, n)" by fastforce
  show ?case
  proof (cases "Monitor.complete (visitor m)")
    case False
    with 2(2) m1 obtain reps2 where rec: "reporter_loop t m1 rns = Some (m', reps2, queued)" and reps: "reps = reps1 @ reps2"
      by auto
    have "millis n (last_report m) \<le> 500" using 2(3) by (simp add: rn)
    note quiet = visit_at_quiet [OF m1 [unfolded rn] this]
    have "\<forall>(r, n) \<in> set rns. millis n (last_report m1) \<le> 500" using 2(3) quiet by auto
    from 2(1) [OF False m1 [symmetric] rec this] quiet show ?thesis by (simp add: reps)
  qed (use 2 in auto)
qed (auto split: if_splits)

end
