(* ===== verification/Map_Proxy.thy ===== *)
theory Map_Proxy
  imports Std_Map
begin

text \<open>
  The class \<^verbatim>\<open>map_proxy\<close> of \<^verbatim>\<open>include/bencode.hpp\<close>: a \<^verbatim>\<open>unique_ptr\<close> to a \<^verbatim>\<open>std::map\<close> with the
  interface of the map. \<open>None\<close> is the null pointer that a move leaves behind; every member
  that dereferences it is \<open>Undefined\<close>. \<open>updatable_map\<close> extends the contract of Std_Map by the
  operations that change or remove entries.
\<close>

section \<open>More operations of std::map\<close>

fun map_assign :: "'k :: linorder \<Rightarrow> 'v \<Rightarrow> ('k, 'v) std_map \<Rightarrow> ('k, 'v) std_map" where
  "map_assign k v [] = [(k, v)]"
| "map_assign k v ((k', v') # m) =
     (if k < k' then (k, v) # (k', v') # m
      else if k = k' then (k, v) # m
      else (k', v') # map_assign k v m)"

fun map_erase :: "'k :: linorder \<Rightarrow> ('k, 'v) std_map \<Rightarrow> ('k, 'v) std_map" where
  "map_erase k [] = []"
| "map_erase k ((k', v') # m) = (if k = k' then m else (k', v') # map_erase k m)"

text \<open>An iterator is the list of the entries from its position on; \<^verbatim>\<open>end()\<close> is empty.\<close>

definition map_lower_bound :: "'k :: linorder \<Rightarrow> ('k, 'v) std_map \<Rightarrow> ('k, 'v) std_map" where
  "map_lower_bound k m = dropWhile (\<lambda>e. fst e < k) m"

definition map_upper_bound :: "'k :: linorder \<Rightarrow> ('k, 'v) std_map \<Rightarrow> ('k, 'v) std_map" where
  "map_upper_bound k m = dropWhile (\<lambda>e. fst e \<le> k) m"

definition map_find :: "'k :: linorder \<Rightarrow> ('k, 'v) std_map \<Rightarrow> ('k, 'v) std_map" where
  "map_find k m = (case map_lower_bound k m of [] \<Rightarrow> [] | e # es \<Rightarrow> if fst e = k then e # es else [])"

lemma map_assign_keys: "fst ` set (map_assign k v m) = insert k (fst ` set m)"
  by (induction k v m rule: map_assign.induct) auto

lemma map_assign_map_of: "map_of (map_assign k v m) = (map_of m)(k \<mapsto> v)"
  by (induction k v m rule: map_assign.induct) (auto simp: fun_eq_iff)

lemma map_assign_sorted: "sorted_keys m \<Longrightarrow> sorted_keys (map_assign k v m)"
  by (induction k v m rule: map_assign.induct) (auto simp: map_assign_keys)

lemma map_erase_keys: "fst ` set (map_erase k m) \<subseteq> fst ` set m"
  by (induction k m rule: map_erase.induct) auto

lemma map_erase_map_of: "sorted_keys m \<Longrightarrow> map_of (map_erase k m) = (map_of m)(k := None)"
proof (induction k m rule: map_erase.induct)
  case (2 k k' v' m)
  then have "map_of m k' = None" by (force simp: map_of_eq_None_iff)
  with 2 show ?case by (auto simp: fun_eq_iff)
qed simp

lemma map_erase_sorted: "sorted_keys m \<Longrightarrow> sorted_keys (map_erase k m)"
proof (induction k m rule: map_erase.induct)
  case (2 k k' v' m)
  then have "\<forall>x \<in> fst ` set m. k' < x" by simp
  then have "\<forall>x \<in> fst ` set (map_erase k m). k' < x" using map_erase_keys [of k m] by blast
  with 2 show ?case by simp
qed simp

lemma map_find_map_of: "sorted_keys m \<Longrightarrow> map_of m k = (case map_find k m of [] \<Rightarrow> None | e # es \<Rightarrow> Some (snd e))"
proof (induction m)
  case (Cons e m)
  show ?case
  proof (cases "fst e < k")
    case False
    with Cons.prems show ?thesis
      by (cases e) (force simp: map_find_def map_lower_bound_def map_of_eq_None_iff)
  qed (use Cons in \<open>cases e, auto simp: map_find_def map_lower_bound_def\<close>)
qed (simp add: map_find_def map_lower_bound_def)

locale updatable_map = ordered_map +
  fixes assign :: "'b \<Rightarrow> 'c \<Rightarrow> 'a \<Rightarrow> 'a"
    and erase :: "'b \<Rightarrow> 'a \<Rightarrow> 'a"
  assumes assign_lookup: "invar m \<Longrightarrow> lookup (assign k v m) = (lookup m)(k \<mapsto> v)"
    and assign_invar: "invar m \<Longrightarrow> invar (assign k v m)"
    and erase_lookup: "invar m \<Longrightarrow> lookup (erase k m) = (lookup m)(k := None)"
    and erase_invar: "invar m \<Longrightarrow> invar (erase k m)"
begin

lemma erase_twice: "invar m \<Longrightarrow> lookup (erase k (erase k m)) = lookup (erase k m)"
  by (simp add: erase_lookup erase_invar)

lemma emplace_after_erase: "invar m \<Longrightarrow> emplace k v (erase k m) \<noteq> None"
  by (simp add: emplace_present erase_lookup erase_invar)

end

interpretation std_map_full: updatable_map map_of map_emplace sorted_keys map_assign map_erase
  by unfold_locales (auto simp: map_assign_map_of map_assign_sorted map_erase_map_of map_erase_sorted)

section \<open>The proxy\<close>

type_synonym ('k, 'v) map_proxy = "('k, 'v) std_map option"

datatype map_exn = OutOfRange

type_synonym 'a mp_result = "map_exn fault + 'a"

definition mp_deref :: "('k, 'v) map_proxy \<Rightarrow> ('k, 'v) std_map mp_result" where
  "mp_deref p = (case p of None \<Rightarrow> Inl Undefined | Some m \<Rightarrow> Inr m)"

definition mp_new :: "('k, 'v) map_proxy" where
  "mp_new = Some []"

definition mp_copy :: "('k, 'v) map_proxy \<Rightarrow> ('k, 'v) map_proxy mp_result" where
  "mp_copy rhs = and_then (mp_deref rhs) (\<lambda>m. Inr (Some m))"

text \<open>The new object and what is left of the source.\<close>

definition mp_move :: "('k, 'v) map_proxy \<Rightarrow> ('k, 'v) map_proxy \<times> ('k, 'v) map_proxy" where
  "mp_move rhs = (rhs, None)"

text \<open>Of entries with the same key the first one is kept.\<close>

definition map_insert :: "'k :: linorder \<Rightarrow> 'v \<Rightarrow> ('k, 'v) std_map \<Rightarrow> bool \<times> ('k, 'v) std_map" where
  "map_insert k v m = (case map_emplace k v m of None \<Rightarrow> (False, m) | Some m' \<Rightarrow> (True, m'))"

definition mp_init :: "('k :: linorder \<times> 'v) list \<Rightarrow> ('k, 'v) map_proxy" where
  "mp_init es = Some (fold (\<lambda>(k, v) m. snd (map_insert k v m)) es [])"

text \<open>
  The assignments return the object by value, so they also make a copy of it. Moving from the
  map of the other proxy leaves that map in a valid state, \<open>left\<close>.
\<close>

definition mp_assign :: "('k, 'v) map_proxy \<Rightarrow> ('k, 'v) map_proxy \<Rightarrow>
    (('k, 'v) map_proxy \<times> ('k, 'v) map_proxy) mp_result" where
  "mp_assign this rhs =
     and_then (mp_deref this) (\<lambda>_. and_then (mp_deref rhs) (\<lambda>m.
     and_then (mp_copy (Some m)) (\<lambda>returned. Inr (Some m, returned))))"

definition mp_move_assign :: "('k, 'v) std_map \<Rightarrow> ('k, 'v) map_proxy \<Rightarrow> ('k, 'v) map_proxy \<Rightarrow>
    (('k, 'v) map_proxy \<times> ('k, 'v) map_proxy \<times> ('k, 'v) map_proxy) mp_result" where
  "mp_move_assign left this rhs =
     and_then (mp_deref this) (\<lambda>_. and_then (mp_deref rhs) (\<lambda>m.
     and_then (mp_copy (Some m)) (\<lambda>returned. Inr (Some m, Some left, returned))))"

section \<open>Members that forward to the map\<close>

definition mp_at :: "'k :: linorder \<Rightarrow> ('k, 'v) map_proxy \<Rightarrow> 'v mp_result" where
  "mp_at k p =
     and_then (mp_deref p) (\<lambda>m. case map_of m k of None \<Rightarrow> Inl (Throw OutOfRange) | Some v \<Rightarrow> Inr v)"

text \<open>\<^verbatim>\<open>operator[]\<close> inserts a default value \<open>d\<close> for a key that is missing.\<close>

definition mp_index :: "'v \<Rightarrow> 'k :: linorder \<Rightarrow> ('k, 'v) map_proxy \<Rightarrow> ('v \<times> ('k, 'v) map_proxy) mp_result" where
  "mp_index d k p =
     and_then (mp_deref p) (\<lambda>m.
       case map_of m k of
         Some v \<Rightarrow> Inr (v, Some m)
       | None \<Rightarrow> Inr (d, Some (snd (map_insert k d m))))"

definition mp_entries :: "('k, 'v) map_proxy \<Rightarrow> ('k \<times> 'v) list mp_result" where
  "mp_entries p = mp_deref p"

definition mp_reverse_entries :: "('k, 'v) map_proxy \<Rightarrow> ('k \<times> 'v) list mp_result" where
  "mp_reverse_entries p = and_then (mp_deref p) (\<lambda>m. Inr (rev m))"

definition mp_empty :: "('k, 'v) map_proxy \<Rightarrow> bool mp_result" where
  "mp_empty p = and_then (mp_deref p) (\<lambda>m. Inr (m = []))"

definition mp_size :: "('k, 'v) map_proxy \<Rightarrow> nat mp_result" where
  "mp_size p = and_then (mp_deref p) (\<lambda>m. Inr (length m))"

definition mp_clear :: "('k, 'v) map_proxy \<Rightarrow> ('k, 'v) map_proxy mp_result" where
  "mp_clear p = and_then (mp_deref p) (\<lambda>_. Inr (Some []))"

text \<open>\<^verbatim>\<open>insert\<close>, \<^verbatim>\<open>emplace\<close> and \<^verbatim>\<open>try_emplace\<close> differ in how the value is made, not in the map.\<close>

definition mp_insert :: "'k :: linorder \<Rightarrow> 'v \<Rightarrow> ('k, 'v) map_proxy \<Rightarrow> (bool \<times> ('k, 'v) map_proxy) mp_result" where
  "mp_insert k v p = and_then (mp_deref p) (\<lambda>m. case map_insert k v m of (b, m') \<Rightarrow> Inr (b, Some m'))"

definition mp_insert_or_assign ::
    "'k :: linorder \<Rightarrow> 'v \<Rightarrow> ('k, 'v) map_proxy \<Rightarrow> (bool \<times> ('k, 'v) map_proxy) mp_result" where
  "mp_insert_or_assign k v p =
     and_then (mp_deref p) (\<lambda>m. Inr (map_of m k = None, Some (map_assign k v m)))"

definition mp_erase :: "'k :: linorder \<Rightarrow> ('k, 'v) map_proxy \<Rightarrow> (nat \<times> ('k, 'v) map_proxy) mp_result" where
  "mp_erase k p =
     and_then (mp_deref p) (\<lambda>m. Inr (if map_of m k = None then 0 else 1, Some (map_erase k m)))"

definition mp_count :: "'k :: linorder \<Rightarrow> ('k, 'v) map_proxy \<Rightarrow> nat mp_result" where
  "mp_count k p = and_then (mp_deref p) (\<lambda>m. Inr (if map_of m k = None then 0 else 1))"

definition mp_find :: "'k :: linorder \<Rightarrow> ('k, 'v) map_proxy \<Rightarrow> ('k, 'v) std_map mp_result" where
  "mp_find k p = and_then (mp_deref p) (\<lambda>m. Inr (map_find k m))"

definition mp_lower_bound :: "'k :: linorder \<Rightarrow> ('k, 'v) map_proxy \<Rightarrow> ('k, 'v) std_map mp_result" where
  "mp_lower_bound k p = and_then (mp_deref p) (\<lambda>m. Inr (map_lower_bound k m))"

definition mp_upper_bound :: "'k :: linorder \<Rightarrow> ('k, 'v) map_proxy \<Rightarrow> ('k, 'v) std_map mp_result" where
  "mp_upper_bound k p = and_then (mp_deref p) (\<lambda>m. Inr (map_upper_bound k m))"

definition mp_equal_range :: "'k :: linorder \<Rightarrow> ('k, 'v) map_proxy \<Rightarrow>
    (('k, 'v) std_map \<times> ('k, 'v) std_map) mp_result" where
  "mp_equal_range k p = and_then (mp_deref p) (\<lambda>m. Inr (map_lower_bound k m, map_upper_bound k m))"

section \<open>A program over one proxy\<close>

datatype ('k, 'v) map_op =
    InsertOp 'k 'v
  | AssignOp 'k 'v
  | EraseOp 'k
  | IndexOp 'k
  | AtOp 'k
  | CountOp 'k
  | FindOp 'k
  | SizeOp
  | ClearOp

datatype 'v answer = Flag bool | Number nat | Value 'v | Missing

text \<open>\<open>and_answer\<close> names the parts of a member's result: the answer and the proxy it leaves.\<close>

definition and_answer :: "('a \<Rightarrow> 'v answer) \<Rightarrow> ('a \<times> 'p) mp_result \<Rightarrow> ('v answer \<times> 'p) mp_result" where
  "and_answer f r = and_then r (\<lambda>(x, p). Inr (f x, p))"

definition const_answer :: "('a \<Rightarrow> 'v answer) \<Rightarrow> 'a mp_result \<Rightarrow> 'p \<Rightarrow> ('v answer \<times> 'p) mp_result" where
  "const_answer f r p = and_then r (\<lambda>x. Inr (f x, p))"

fun mp_exec :: "'v \<Rightarrow> ('k :: linorder, 'v) map_op \<Rightarrow> ('k, 'v) map_proxy \<Rightarrow>
    ('v answer \<times> ('k, 'v) map_proxy) mp_result" where
  "mp_exec d (InsertOp k v) p = and_answer Flag (mp_insert k v p)"
| "mp_exec d (AssignOp k v) p = and_answer Flag (mp_insert_or_assign k v p)"
| "mp_exec d (EraseOp k) p = and_answer Number (mp_erase k p)"
| "mp_exec d (IndexOp k) p = and_answer Value (mp_index d k p)"
| "mp_exec d (AtOp k) p = const_answer Value (mp_at k p) p"
| "mp_exec d (CountOp k) p = const_answer Number (mp_count k p) p"
| "mp_exec d (FindOp k) p =
     const_answer (\<lambda>i. case i of [] \<Rightarrow> Missing | e # es \<Rightarrow> Value (snd e)) (mp_find k p) p"
| "mp_exec d SizeOp p = const_answer Number (mp_size p) p"
| "mp_exec d ClearOp p = and_then (mp_clear p) (\<lambda>p. Inr (Number 0, p))"

fun mp_run :: "'v \<Rightarrow> ('k :: linorder, 'v) map_op list \<Rightarrow> ('k, 'v) map_proxy \<Rightarrow>
    ('v answer list \<times> ('k, 'v) map_proxy) mp_result" where
  "mp_run d [] p = Inr ([], p)"
| "mp_run d (opn # opns) p =
     and_then (mp_exec d opn p) (\<lambda>(a, p). and_then (mp_run d opns p) (\<lambda>(as, p). Inr (a # as, p)))"

text \<open>The same program over a finite function from keys to values.\<close>

fun spec_exec :: "'v \<Rightarrow> ('k, 'v) map_op \<Rightarrow> ('k \<rightharpoonup> 'v) \<Rightarrow> ('v answer \<times> ('k \<rightharpoonup> 'v)) mp_result" where
  "spec_exec d (InsertOp k v) f = Inr (Flag (f k = None), if f k = None then f(k \<mapsto> v) else f)"
| "spec_exec d (AssignOp k v) f = Inr (Flag (f k = None), f(k \<mapsto> v))"
| "spec_exec d (EraseOp k) f = Inr (Number (card ({k} \<inter> dom f)), f(k := None))"
| "spec_exec d (IndexOp k) f =
     (case f k of None \<Rightarrow> Inr (Value d, f(k \<mapsto> d)) | Some v \<Rightarrow> Inr (Value v, f))"
| "spec_exec d (AtOp k) f = (case f k of None \<Rightarrow> Inl (Throw OutOfRange) | Some v \<Rightarrow> Inr (Value v, f))"
| "spec_exec d (CountOp k) f = Inr (Number (card ({k} \<inter> dom f)), f)"
| "spec_exec d (FindOp k) f = Inr (case f k of None \<Rightarrow> Missing | Some v \<Rightarrow> Value v, f)"
| "spec_exec d SizeOp f = Inr (Number (card (dom f)), f)"
| "spec_exec d ClearOp f = Inr (Number 0, Map.empty)"

fun spec_run :: "'v \<Rightarrow> ('k, 'v) map_op list \<Rightarrow> ('k \<rightharpoonup> 'v) \<Rightarrow> ('v answer list \<times> ('k \<rightharpoonup> 'v)) mp_result" where
  "spec_run d [] f = Inr ([], f)"
| "spec_run d (opn # opns) f =
     and_then (spec_exec d opn f) (\<lambda>(a, f). and_then (spec_run d opns f) (\<lambda>(as, f). Inr (a # as, f)))"

text \<open>What the two results have to do with each other.\<close>

definition refines :: "('a \<times> ('k :: linorder, 'v) map_proxy) mp_result \<Rightarrow> ('a \<times> ('k \<rightharpoonup> 'v)) mp_result \<Rightarrow> bool" where
  "refines r s \<longleftrightarrow>
     (case (r, s) of
        (Inl e, Inl e') \<Rightarrow> e = e'
      | (Inr (a, p), Inr (b, f)) \<Rightarrow> a = b \<and> (\<exists>m. p = Some m \<and> sorted_keys m \<and> map_of m = f)
      | _ \<Rightarrow> False)"

lemma card_key: "card ({k} \<inter> dom f) = (if f k = None then 0 else 1)"
  by (auto simp: domIff)

lemma sorted_keys_size: "sorted_keys m \<Longrightarrow> card (dom (map_of m)) = length m"
  by (metis dom_map_of_conv_image_fst distinct_card length_map list.set_map sorted_keys_distinct)

lemma exec_refines:
  assumes "sorted_keys m"
  shows "refines (mp_exec d opn (Some m)) (spec_exec d opn (map_of m))"
proof (cases opn)
  case (InsertOp k v)
  with assms std_map.emplace_present [OF assms, of k v] show ?thesis
    by (cases "map_emplace k v m")
      (auto simp: refines_def and_answer_def mp_insert_def mp_deref_def map_insert_def and_then_def
        dest: map_emplace_map_of map_emplace_sorted)
next
  case (IndexOp k)
  show ?thesis
  proof (cases "map_of m k")
    case None
    then obtain m' where "map_emplace k d m = Some m'" using map_emplace_None [OF assms, of k d] by auto
    with None IndexOp assms show ?thesis
      by (auto simp: refines_def and_answer_def mp_index_def mp_deref_def map_insert_def and_then_def
          dest: map_emplace_map_of map_emplace_sorted)
  next
    case (Some v)
    with IndexOp assms show ?thesis
      by (simp add: refines_def and_answer_def mp_index_def mp_deref_def and_then_def)
  qed
next
  case (FindOp k)
  with assms map_find_map_of [OF assms, of k] show ?thesis
    by (auto simp: refines_def const_answer_def mp_find_def mp_deref_def and_then_def split: list.splits)
qed (use assms in \<open>auto simp: refines_def and_answer_def const_answer_def and_then_def mp_deref_def card_key
    mp_insert_or_assign_def mp_erase_def mp_at_def mp_count_def mp_size_def mp_clear_def sorted_keys_size
    map_assign_map_of map_assign_sorted map_erase_map_of map_erase_sorted split: option.splits\<close>)

lemma run_refines: "sorted_keys m \<Longrightarrow> refines (mp_run d opns (Some m)) (spec_run d opns (map_of m))"
proof (induction opns arbitrary: m)
  case (Cons opn opns)
  from exec_refines [OF Cons.prems, of d opn] Cons.IH show ?case
    by (auto simp: refines_def and_then_def split: sum.splits prod.splits) fastforce+
qed (simp add: refines_def)

lemma mp_init_sorted: "\<exists>m. mp_init es = Some m \<and> sorted_keys m"
proof -
  have ins: "sorted_keys m \<Longrightarrow> sorted_keys (snd (map_insert k v m))" for k :: 'a and v :: 'b and m
    by (auto simp: map_insert_def split: option.split dest: map_emplace_sorted)
  have "sorted_keys m \<Longrightarrow> sorted_keys (fold (\<lambda>(k, v) m. snd (map_insert k v m)) es m)" for m
  proof (induction es arbitrary: m)
    case (Cons e es)
    then show ?case using ins by (cases e) simp
  qed simp
  then show ?thesis by (simp add: mp_init_def)
qed

text \<open>After a move every member of the source is undefined, except moving again.\<close>

lemma moved_from_undefined: "mp_exec d opn (snd (mp_move p)) = Inl Undefined"
  by (cases opn) (simp_all add: mp_move_def and_answer_def const_answer_def and_then_def mp_deref_def
      mp_insert_def mp_insert_or_assign_def mp_erase_def mp_index_def mp_at_def mp_count_def mp_find_def
      mp_size_def mp_clear_def)

end
