(* ===== verification/Bencode_Stream.thy ===== *)
theory Bencode_Stream
  imports Bencode_Correct
begin

text \<open>
  The parts of \<^verbatim>\<open>include/bencode.hpp\<close> for streams: the encoder objects that write a list or a
  dict element by element, and decoding from a \<^verbatim>\<open>std::istream\<close>. A dict that is written entry
  by entry is read back as the map of its entries whatever their order, or refused when a
  key occurs twice; a stream is decoded as a string is, up to lengths beyond \<open>max_string\<close>.
\<close>

section \<open>Encoder objects\<close>

text \<open>
  The output stream is the list of the bytes written to it. The constructors and destructors
  write the brackets.
\<close>

definition list_encoder :: "bytes \<Rightarrow> bytes" where
  "list_encoder os = os @ [of_char CHR ''l'']"

definition list_encoder_add :: "data \<Rightarrow> bytes \<Rightarrow> bytes" where
  "list_encoder_add x os = os @ encode x"

definition dict_encoder :: "bytes \<Rightarrow> bytes" where
  "dict_encoder os = os @ [of_char CHR ''d'']"

definition dict_encoder_add :: "bytes \<Rightarrow> data \<Rightarrow> bytes \<Rightarrow> bytes" where
  "dict_encoder_add key x os = (os @ encode_str key) @ encode x"

definition encoder_end :: "bytes \<Rightarrow> bytes" where
  "encoder_end os = os @ [of_char CHR ''e'']"

text \<open>\<^verbatim>\<open>encode\<close> of a vector and of a map, with the objects.\<close>

definition encode_vector :: "data list \<Rightarrow> bytes \<Rightarrow> bytes" where
  "encode_vector xs os = encoder_end (fold list_encoder_add xs (list_encoder os))"

definition encode_map :: "(bytes \<times> data) list \<Rightarrow> bytes \<Rightarrow> bytes" where
  "encode_map es os = encoder_end (fold (\<lambda>(k, x). dict_encoder_add k x) es (dict_encoder os))"

lemma encode_vector_encode: "encode_vector xs os = os @ encode (BList xs)"
proof -
  have "fold list_encoder_add xs os = os @ concat (map encode xs)" for os
    by (induction xs arbitrary: os) (simp_all add: list_encoder_add_def)
  then show ?thesis by (simp add: encode_vector_def encoder_end_def list_encoder_def)
qed

lemma encode_map_encode: "encode_map es os = os @ encode (BDict es)"
proof -
  have "fold (\<lambda>(k, x). dict_encoder_add k x) es os = os @ concat (map (\<lambda>(k, x). encode_str k @ encode x) es)" for os
    by (induction es arbitrary: os) (auto simp: dict_encoder_add_def)
  then show ?thesis by (simp add: encode_map_def encoder_end_def dict_encoder_def)
qed

section \<open>The buffer of write_integer\<close>

text \<open>\<^verbatim>\<open>std::to_chars\<close> into a buffer of \<open>digits10 + 2\<close> characters; \<open>None\<close> is \<^verbatim>\<open>value_too_large\<close>.\<close>

definition to_chars :: "nat \<Rightarrow> int \<Rightarrow> bytes option" where
  "to_chars room n = (let s = write_integer n in if length s \<le> room then Some s else None)"

definition write_integer_buffer :: "limits \<Rightarrow> int \<Rightarrow> bytes option" where
  "write_integer_buffer L n = to_chars (digits10 L + 2) n"

lemma write_integer_fits:
  assumes "L = long_long \<or> L = size_t" and "lim_min L \<le> n" and "n \<le> lim_max L"
  shows "write_integer_buffer L n = Some (write_integer n)"
proof -
  have bound: "length (decimal k) \<le> Suc d" if "k < 10 ^ Suc d" for k d
    using length_decimal_le [of k d] that by simp
  from assms(1) have "length (write_integer n) \<le> digits10 L + 2"
  proof
    assume L: "L = long_long"
    have "nat n < 10 ^ Suc 18" "nat (- n) < 10 ^ Suc 18"
      using assms(2,3) by (auto simp: L long_long_def nat_less_iff)
    from this [THEN bound] show ?thesis by (simp add: write_integer_def L long_long_def)
  next
    assume L: "L = size_t"
    have "nat n < 10 ^ Suc 19" "0 \<le> n" using assms(2,3) by (auto simp: L size_t_def nat_less_iff)
    with bound [of "nat n" 19] show ?thesis by (simp add: write_integer_def L size_t_def)
  qed
  then show ?thesis by (simp add: write_integer_buffer_def to_chars_def)
qed

section \<open>Dicts in any order\<close>

lemma emplace_all_distinct:
  assumes "sorted_keys m" and "distinct (map fst es)" and "fst ` set es \<inter> fst ` set m = {}"
  shows "\<exists>m'. emplace_all es m = Some m' \<and> sorted_keys m' \<and> map_of m' = map_of m ++ map_of es"
  using assms
proof (induction es arbitrary: m)
  case (Cons e es)
  obtain k v where e: "e = (k, v)" by fastforce
  have "map_of m k = None" using Cons.prems(3) by (auto simp: e map_of_eq_None_iff)
  then obtain m1 where m1: "map_emplace k v m = Some m1"
    using map_emplace_None [OF Cons.prems(1), of k v] by auto
  note set1 = map_emplace_set [OF m1] and sorted1 = map_emplace_sorted [OF m1 Cons.prems(1)]
  have "fst ` set es \<inter> fst ` set m1 = {}" using Cons.prems(2,3) by (auto simp: e set1)
  with Cons.IH [OF sorted1] Cons.prems(2) obtain m' where
    "emplace_all es m1 = Some m'" "sorted_keys m'" "map_of m' = map_of m1 ++ map_of es"
    by (auto simp: e)
  moreover have "map_of es k = None" using Cons.prems(2) by (auto simp: e map_of_eq_None_iff)
  ultimately show ?case
    using m1 map_emplace_map_of [OF m1]
    by (auto simp: e map_add_def fun_eq_iff split: option.split)
qed simp

definition entries_ok :: "(bytes \<times> data) list \<Rightarrow> bool" where
  "entries_ok es \<longleftrightarrow> (\<forall>(k, v) \<in> set es. wf_str k \<and> wf_data v)"

lemma entries_ok_as: "entries_ok es \<Longrightarrow> list_all2 entry_as es es"
  using wf_normalise normalise_stores
  by (fastforce simp: entries_ok_def list_all2_same entry_as_def)

text \<open>Up to the key that occurs for the second time.\<close>

lemma first_duplicate:
  assumes "\<not> distinct (map fst es)"
  obtains ps k v qs where "es = ps @ (k, v) # qs" and "distinct (map fst ps)" and "k \<in> fst ` set ps"
proof -
  obtain ks k ls where ks: "map fst es = ks @ k # ls" "distinct ks" "k \<in> set ks"
    using assms by (metis not_distinct_conv_prefix)
  have lt: "length ks < length es" using arg_cong [OF ks(1), of length] by simp
  have pre: "map fst (take (length ks) es) = ks" using ks(1) by (simp flip: take_map)
  have "map fst es ! length ks = k" by (simp add: ks(1))
  with lt obtain v where "es ! length ks = (k, v)" by (metis nth_map prod.collapse)
  with id_take_nth_drop [OF lt] have "es = take (length ks) es @ (k, v) # drop (Suc (length ks)) es" by simp
  moreover have "distinct (map fst (take (length ks) es))" "k \<in> fst ` set (take (length ks) es)"
    using ks(2,3) pre by (simp, metis list.set_map)
  ultimately show thesis by (rule that)
qed

lemma normalise_entries:
  assumes "entries_ok es"
  shows "raw_data (BDict es) \<and> normalise (BDict es) = map_option BDict (emplace_all es [])"
proof -
  have parts: "raw_data v \<and> normalise v = Some v \<and> wf_str k" if "(k, v) \<in> set es" for k v
    using assms that wf_normalise by (auto simp: entries_ok_def)
  then have "map (\<lambda>(k, v). map_option (Pair k) (normalise v)) es = map Some es" by auto
  then have "all_some (map (\<lambda>(k, v). map_option (Pair k) (normalise v)) es) = Some es"
    by (simp only: all_some_eq)
  with parts show ?thesis by auto
qed

lemma encode_map_decodes:
  assumes "entries_ok es" and "distinct (map fst es)"
  shows "\<exists>m. basic_decode cat (encode_map es [] @ r) = Inr (BDict m, r) \<and> sorted_keys m \<and> map_of m = map_of es"
proof -
  obtain m where m: "emplace_all es [] = Some m" "sorted_keys m" "map_of m = map_of es"
    using emplace_all_distinct [of "[]" es] assms(2) by auto
  with normalise_entries [OF assms(1)] have "raw_data (BDict es)" "normalise (BDict es) = Some (BDict m)" by auto
  from basic_decode_normalise [OF this] m show ?thesis by (auto simp: encode_map_encode simp del: encode.simps)
qed

text \<open>Where nothing can be stored, the value is read or begun and then given up.\<close>

lemma value_not_stored:
  assumes "wf_data v" and "input u = encode v @ r" and "\<And>x i. store x (u\<lparr>input := i\<rparr>) = (Inl e, u\<lparr>input := i\<rparr>)"
  shows "\<exists>u'. decode_value u = (Inl e, u')"
proof (cases v)
  case (BInt n)
  with assms decode_int_encode [of n r] show ?thesis by (simp add: decode_value_def store_read_def)
next
  case (BStr b)
  obtain c cs where c: "encode_str b = c # cs" "isdigit c"
    using encode_str_hd by blast
  have "decode_str (category u) (encode_str b @ r) = (Inr b, r)"
    using assms(1) BStr by (simp add: decode_str_encode)
  with assms(2,3) BStr c digit_not_letter [OF c(2)] show ?thesis by (simp add: decode_value_def store_read_def)
qed (use assms(2,3) in \<open>simp_all add: decode_value_def store_push_def\<close>)

definition duplicate_key :: "bytes \<Rightarrow> decode_exn" where
  "duplicate_key k = SyntaxError (str ''duplicated key in dict: '' @ k)"

lemma encode_map_duplicate:
  assumes "entries_ok es" and "\<not> distinct (map fst es)"
  shows "\<exists>ps k v qs off. es = ps @ (k, v) # qs \<and> distinct (map fst ps) \<and> k \<in> fst ` set ps \<and>
    basic_decode cat (encode_map es [] @ r) = Inl (Throw (decode_error_of (what (duplicate_key k)) off))"
proof -
  obtain ps k v qs where es: "es = ps @ (k, v) # qs" and ps: "distinct (map fst ps)" "k \<in> fst ` set ps"
    using first_duplicate [OF assms(2)] by blast
  let ?ents = "\<lambda>es. concat (map (\<lambda>(k, v). encode_str k @ encode v) es)"
  let ?txt = "encode_str k @ encode v @ ?ents qs @ [of_char CHR ''e''] @ r"
  let ?s0 = "initial_dstate cat (encode_map es [] @ r)"
  let ?s1 = "\<lparr>result = BDict [], stack = [[]], dict_key = [], input = ?ents ps @ ?txt, category = cat\<rparr>"
  have ok: "entries_ok ps" "wf_str k" "wf_data v" using assms(1) by (auto simp: es entries_ok_def)
  obtain m where m: "emplace_all ps [] = Some m" "sorted_keys m" "map_of m = map_of ps"
    using emplace_all_distinct [of "[]" ps] ps(1) by auto
  have "map_emplace k x m = None" for x
    using map_emplace_None [OF m(2), of k x] m(3) ps(2) by (metis map_of_eq_None_iff)
  then have full: "store x u = (Inl (Throw (duplicate_key k)), u)"
    if "stack u = [[]]" "result u = BDict m" "dict_key u = k" for x u
    using that by (simp add: store_def duplicate_key_def)
  have "decode_step ?s0 = (Inr (), ?s1)"
    by (simp add: encode_map_encode es initial_dstate_def decode_step_def decode_value_def store_push_def store_def)
  then have "decode_loop ?s0 = decode_loop ?s1" by (simp add: decode_loop_step continue_loop_def)
  moreover obtain k0 where "decode_loop ?s1 = decode_loop (?s1\<lparr>result := BDict m, input := ?txt, dict_key := k0\<rparr>)"
    using dict_run [OF entries_ok_as [OF ok(1)] m(1), of ?s1 "[]" "[]" ?txt] by auto
  moreover obtain u where "decode_step (?s1\<lparr>result := BDict m, input := ?txt, dict_key := k0\<rparr>) =
      (Inl (Throw (duplicate_key k)), u)"
    using decode_step_entry [OF ok(2), of "?s1\<lparr>result := BDict m, input := ?txt, dict_key := k0\<rparr>" "[]" "[]" m v]
      value_not_stored [OF ok(3)] full by fastforce
  then have "decode_loop (?s1\<lparr>result := BDict m, input := ?txt, dict_key := k0\<rparr>) = (Inl (Throw (duplicate_key k)), u)"
    by (subst decode_loop.simps) (simp only: prod.case sum.case)
  ultimately have "decode_loop ?s0 = (Inl (Throw (duplicate_key k)), u)" by simp
  then have "basic_decode cat (encode_map es [] @ r) = Inl (Throw (decode_error_of (what (duplicate_key k))
      (distance cat (encode_map es [] @ r) (input u))))"
    by (simp add: basic_decode_def)
  with es ps show ?thesis by blast
qed

section \<open>Decoding from a stream\<close>

datatype eof_behavior = check_eof | no_check_eof

text \<open>The iterators read the buffer of the stream whatever its state bits say.\<close>

definition decode_istream :: "eof_behavior \<Rightarrow> istream \<Rightarrow> decode_error fault + data \<times> istream" where
  "decode_istream e s =
     (case basic_decode InputIter (rest s) of
        Inl f \<Rightarrow> Inl f
      | Inr (d, r) \<Rightarrow>
          Inr (d, s\<lparr>rest := r, eofbit := eofbit s \<or> (e = check_eof \<and> r = [])\<rparr>))"

text \<open>
  The overloads of \<^verbatim>\<open>decode\<close> and \<^verbatim>\<open>decode_view\<close>. An iterator that is passed by reference is
  advanced, so the result has the input behind the value; of a copy the caller sees nothing.
  The iterators of a string view are temporaries, which bind to the overload with a copy.
\<close>

definition basic_decode_copy :: "iter_category \<Rightarrow> bytes \<Rightarrow> decode_error fault + data" where
  "basic_decode_copy cat bs =
     (let b = bs in case basic_decode cat b of Inl e \<Rightarrow> Inl e | Inr (d, b) \<Rightarrow> Inr d)"

definition basic_decode_string :: "bytes \<Rightarrow> decode_error fault + data" where
  "basic_decode_string s = basic_decode_copy ForwardIter s"

definition decode_at :: "iter_category \<Rightarrow> bytes \<Rightarrow> decode_error fault + data \<times> bytes" where
  "decode_at cat bs = basic_decode cat bs"

definition decode_copy :: "iter_category \<Rightarrow> bytes \<Rightarrow> decode_error fault + data" where
  "decode_copy cat bs = basic_decode_copy cat bs"

definition decode_string :: "bytes \<Rightarrow> decode_error fault + data" where
  "decode_string s = basic_decode_copy ForwardIter s"

definition decode_stream :: "eof_behavior \<Rightarrow> istream \<Rightarrow> decode_error fault + data \<times> istream" where
  "decode_stream e s = decode_istream e s"

definition decode_view_at :: "iter_category \<Rightarrow> bytes \<Rightarrow> decode_error fault + data \<times> bytes" where
  "decode_view_at cat bs = basic_decode cat bs"

definition decode_view_copy :: "iter_category \<Rightarrow> bytes \<Rightarrow> decode_error fault + data" where
  "decode_view_copy cat bs = basic_decode_copy cat bs"

text \<open>Every overload that takes a string gives what \<^verbatim>\<open>decode_view\<close> gives.\<close>

lemma decode_overloads:
  "basic_decode_string s = decode_view s" "decode_string s = decode_view s"
  "decode_copy ForwardIter s = decode_view s" "decode_view_copy ForwardIter s = decode_view s"
  "decode_at ForwardIter s = Inr (d, r) \<Longrightarrow> decode_view s = Inr d"
  by (simp_all add: basic_decode_string_def decode_string_def decode_copy_def decode_view_copy_def
      basic_decode_copy_def decode_at_def decode_view_def)

text \<open>
  The same piece of the decoder with the two kinds of iterators: the results are equal, or
  the string reader was given a length that no string can have.
\<close>

definition same_result :: "('s \<Rightarrow> 's) \<Rightarrow> (decode_exn fault + 'a) \<times> 's \<Rightarrow> (decode_exn fault + 'a) \<times> 's \<Rightarrow> bool" where
  "same_result f x y \<longleftrightarrow>
     y = (fst x, f (snd x)) \<or> (fst x = Inl Undefined \<and> fst y = Inl (Throw StringTooLong))"

lemma to_ptrdiff_negative: "2 ^ 63 \<le> n \<Longrightarrow> n < 2 ^ 64 \<Longrightarrow> to_ptrdiff n < 0"
proof -
  assume n: "2 ^ 63 \<le> n" "n < 2 ^ 64"
  then have "n div 2 ^ 63 = 1" by (intro int_div_pos_eq [where r = "n - 2 ^ 63"]) auto
  then have "bit n 63" by (simp add: bit_iff_odd)
  moreover have "take_bit 64 n = n" using n by (simp add: take_bit_int_eq_self)
  ultimately show ?thesis
    using n by (simp add: to_ptrdiff_def sint_sbintrunc' signed_take_bit_eq_take_bit_minus)
qed

lemma str_reader_same:
  assumes "0 \<le> len" and "len < 2 ^ 64" and "length bs < 2 ^ 63"
  shows "same_result id (str_reader ForwardIter len bs) (str_reader InputIter len bs)"
proof (cases "len < 2 ^ 63")
  case True
  have "int (length bs) < len \<longleftrightarrow> length bs < nat len" using assms(1) by linarith
  with True assms(1) to_ptrdiff_id [of len] show ?thesis
    by (simp add: same_result_def str_reader_def str_reader_forward_def str_reader_input_def max_string_def
        str_reader_loop_cases)
next
  case False
  have "int (length bs) < 2 ^ 63" using assms(3) by (simp flip: of_nat_less_iff)
  with False to_ptrdiff_negative [of len] assms(2) show ?thesis
    by (simp add: same_result_def str_reader_def str_reader_forward_def str_reader_input_def max_string_def)
qed

lemma decode_str_same:
  assumes "length bs < 2 ^ 63"
  shows "same_result id (decode_str ForwardIter bs) (decode_str InputIter bs)"
proof (cases "decode_digits size_t 1 bs")
  case (Pair x r)
  show ?thesis
  proof (cases x)
    case (Inl e)
    with Pair show ?thesis by (simp add: decode_str_def same_result_def)
  next
    case (Inr len)
    have "digits_mode size_t 1" by (simp add: digits_mode_def)
    from decode_digits_range [OF this Pair [unfolded Inr]] have len: "0 \<le> len" "len < 2 ^ 64"
      by (simp_all add: size_t_def)
    have "length r < 2 ^ 63" using decode_digits_len [OF Pair [unfolded Inr]] assms by simp
    then have "same_result id (str_reader ForwardIter len (tl r)) (str_reader InputIter len (tl r))"
      using len by (intro str_reader_same) auto
    with Pair Inr show ?thesis by (cases r) (auto simp: decode_str_def same_result_def)
  qed
qed

definition to_input :: "dstate \<Rightarrow> dstate" where
  "to_input s = s\<lparr>category := InputIter\<rparr>"

lemma to_input_simps [simp]:
  "result (to_input s) = result s" "stack (to_input s) = stack s" "dict_key (to_input s) = dict_key s"
  "input (to_input s) = input s" "category (to_input s) = InputIter"
  "to_input (s\<lparr>input := r\<rparr>) = to_input s\<lparr>input := r\<rparr>" "to_input (s\<lparr>stack := st\<rparr>) = to_input s\<lparr>stack := st\<rparr>"
  "to_input (s\<lparr>dict_key := k\<rparr>) = to_input s\<lparr>dict_key := k\<rparr>" "to_input (s\<lparr>result := d\<rparr>) = to_input s\<lparr>result := d\<rparr>"
  by (simp_all add: to_input_def)

lemma store_to_input: "store x (to_input s) = map_prod id to_input (store x s)"
  by (simp add: store_def split: list.split option.split data.split)

lemma store_read_same:
  assumes "same_result id (rd (input s)) (rd' (input s))"
  shows "same_result to_input (store_read mk rd s) (store_read mk rd' (to_input s))"
proof (cases "rd (input s)")
  case (Pair x r)
  show ?thesis
  proof (cases "rd' (input s) = (x, r)")
    case True
    with Pair show ?thesis
      using store_to_input [of _ "s\<lparr>input := r\<rparr>"]
      by (auto simp: store_read_def same_result_def split: sum.splits prod.splits)
  next
    case False
    with assms Pair obtain r' where "x = Inl Undefined" "rd' (input s) = (Inl (Throw StringTooLong), r')"
      by (cases "rd' (input s)") (auto simp: same_result_def)
    with Pair show ?thesis by (simp add: store_read_def same_result_def)
  qed
qed

lemma store_push_same: "same_result to_input (store_push x s) (store_push x (to_input s))"
  using store_to_input [of x "s\<lparr>input := tl (input s)\<rparr>"]
  by (auto simp: store_push_def same_result_def split: sum.splits prod.splits)

lemma same_result_refl: "same_result f (x, s) (x, f s)"
  by (simp add: same_result_def)

lemma decode_value_same:
  assumes "category s = ForwardIter" and "length (input s) < 2 ^ 63"
  shows "same_result to_input (decode_value s) (decode_value (to_input s))"
  using assms decode_str_same [of "input s"] store_push_same
  by (auto simp: decode_value_def same_result_refl split: list.split
      intro!: store_read_same) (auto simp: same_result_def)

lemma decode_key_same:
  assumes "category s = ForwardIter" and "length (input s) < 2 ^ 63"
  shows "same_result to_input (decode_key s) (decode_key (to_input s))"
proof (cases "isdigit (hd (input s))")
  case True
  show ?thesis
  proof (cases "decode_str InputIter (input s) = decode_str ForwardIter (input s)")
    case same: True
    with assms True show ?thesis
      by (auto simp: decode_key_def same_result_def split: sum.split prod.split)
  next
    case False
    with decode_str_same [OF assms(2)] obtain r r' where
      "decode_str ForwardIter (input s) = (Inl Undefined, r)"
      "decode_str InputIter (input s) = (Inl (Throw StringTooLong), r')"
      by (cases "decode_str ForwardIter (input s)", cases "decode_str InputIter (input s)")
        (auto simp: same_result_def)
    with assms True show ?thesis by (simp add: decode_key_def same_result_def)
  qed
qed (simp add: decode_key_def same_result_def)

lemma decode_key_frame: "decode_key s = (Inr u, s') \<Longrightarrow> category s' = category s \<and> length (input s') < length (input s)"
  using decode_key_len by (auto simp: decode_key_def split: if_splits prod.splits sum.splits)

lemma store_read_category: "store_read mk rd s = (Inr u, s') \<Longrightarrow> category s' = category s"
  by (fastforce simp: store_read_def split: prod.splits sum.splits dest: store_frame)

lemma store_push_category: "store_push x s = (Inr u, s') \<Longrightarrow> category s' = category s"
  by (auto simp: store_push_def split: prod.splits sum.splits dest!: store_frame)

lemma decode_value_category: "decode_value s = (Inr u, s') \<Longrightarrow> category s' = category s"
  by (auto simp: decode_value_def split: list.splits if_splits dest: store_read_category store_push_category)

lemma decode_step_frame:
  "decode_step s = (Inr u, s') \<Longrightarrow> category s' = category s \<and> length (input s') < length (input s)"
  using decode_step_len [of s u s']
  by (auto simp: decode_step_def split: list.splits if_splits option.splits data.splits prod.splits sum.splits
      dest!: decode_value_category decode_key_frame)

lemma decode_entry_same:
  assumes "category s = ForwardIter" and "length (input s) < 2 ^ 63"
  shows "same_result to_input
    (case decode_key s of (Inl e, s') \<Rightarrow> (Inl e, s') | (Inr _, s') \<Rightarrow> decode_value s')
    (case decode_key (to_input s) of (Inl e, s') \<Rightarrow> (Inl e, s') | (Inr _, s') \<Rightarrow> decode_value s')"
proof (cases "decode_key s")
  case (Pair x s')
  show ?thesis
  proof (cases x)
    case (Inl e)
    with decode_key_same [OF assms] Pair show ?thesis by (auto simp: same_result_def split: prod.splits sum.splits)
  next
    case (Inr u)
    with decode_key_same [OF assms] Pair have "decode_key (to_input s) = (Inr u, to_input s')"
      by (auto simp: same_result_def)
    moreover have "category s' = ForwardIter" "length (input s') < 2 ^ 63"
      using decode_key_frame Pair Inr assms by fastforce+
    ultimately show ?thesis using decode_value_same Pair Inr by simp
  qed
qed

lemma decode_step_same:
  assumes "category s = ForwardIter" and "length (input s) < 2 ^ 63"
  shows "same_result to_input (decode_step s) (decode_step (to_input s))"
  using decode_value_same [OF assms] decode_entry_same [OF assms]
  by (auto simp: decode_step_def split: list.split option.split data.split) (simp_all add: same_result_def)

lemma decode_loop_same:
  assumes "category s = ForwardIter" and "length (input s) < 2 ^ 63"
  shows "same_result to_input (decode_loop s) (decode_loop (to_input s))"
  using assms
proof (induction s rule: decode_loop.induct)
  case (1 s)
  obtain x s1 where s1: "decode_step s = (x, s1)" by fastforce
  note step = decode_step_same [OF 1(2,3)]
  show ?case
  proof (cases x)
    case (Inl e)
    with s1 step show ?thesis
      by (auto simp: decode_loop.simps [of s] decode_loop.simps [of "to_input s"] same_result_def
          split: prod.splits sum.splits)
  next
    case (Inr u)
    with s1 step have t1: "decode_step (to_input s) = (Inr u, to_input s1)" by (auto simp: same_result_def)
    have "category s1 = ForwardIter" "length (input s1) < 2 ^ 63"
      using decode_step_frame s1 Inr 1(2,3) by fastforce+
    then have "same_result to_input (decode_loop s1) (decode_loop (to_input s1))" if "stack s1 \<noteq> []"
      using 1(1) s1 Inr that by auto
    with s1 t1 Inr show ?thesis
      by (simp add: decode_loop.simps [of s] decode_loop.simps [of "to_input s"] same_result_def)
  qed
qed

lemma basic_decode_same:
  assumes "length bs < 2 ^ 63"
  shows "case basic_decode ForwardIter bs of
      Inr x \<Rightarrow> basic_decode InputIter bs = Inr x
    | Inl (Throw e) \<Rightarrow> \<exists>msg off. e = decode_error_of msg off \<and>
        basic_decode InputIter bs = Inl (Throw (decode_error_of msg 0))
    | Inl Undefined \<Rightarrow> basic_decode InputIter bs = Inl Undefined \<or>
        basic_decode InputIter bs = Inl (Throw (decode_error_of (what StringTooLong) 0))"
proof -
  obtain x s where s: "decode_loop (initial_dstate ForwardIter bs) = (x, s)" by fastforce
  have start: "to_input (initial_dstate ForwardIter bs) = initial_dstate InputIter bs"
    by (simp add: to_input_def initial_dstate_def)
  have "category (initial_dstate ForwardIter bs) = ForwardIter" "input (initial_dstate ForwardIter bs) = bs"
    by (simp_all add: initial_dstate_def)
  with assms have "same_result to_input (x, s) (decode_loop (initial_dstate InputIter bs))"
    using decode_loop_same [of "initial_dstate ForwardIter bs", unfolded s start] by simp
  with s show ?thesis
    by (cases "decode_loop (initial_dstate InputIter bs)")
      (auto simp: same_result_def basic_decode_def distance_def split: sum.splits fault.splits)
qed

end
