(* ===== verification/Shutdown.thy ===== *)
theory Shutdown
  imports Conversation
begin

text \<open>
  How the process of \<^verbatim>\<open>src/main.cpp\<close> ends. The thread of the monitor owns the peers and
  destroys them when \<^verbatim>\<open>monitor_thread\<close> returns, whatever operations are outstanding; and
  \<^verbatim>\<open>start_run_connections\<close> leaves its scope when \<^verbatim>\<open>io.run()\<close> has nothing left to do, where the
  destructor of a \<^verbatim>\<open>std::thread\<close> that is joinable calls \<^verbatim>\<open>std::terminate\<close>. A thread stays
  joinable after it has ended, until it is joined or detached.
\<close>

section \<open>The process\<close>

datatype ending = Returned | Terminated | Use_after_free

record process =
  prog :: system
  peers_alive :: bool
  joinable :: bool
  ended :: "ending option"

definition start_process :: "system \<Rightarrow> process" where
  "start_process s = \<lparr>prog = s, peers_alive = True, joinable = True, ended = None\<rparr>"

text \<open>
  Whether a completion handler reads or writes members of its peer. The timer looks at its
  block, which it shares, before it does.
\<close>

definition touches_peer :: "event \<Rightarrow> store \<Rightarrow> bool" where
  "touches_peer e st =
     (case e of
        MessageWritten _ \<Rightarrow> False
      | RequestWritten ec _ \<Rightarrow> ec
      | TimerFired ec a \<Rightarrow> ec \<or> \<not> filled (st ! a)
      | _ \<Rightarrow> True)"

text \<open>
  The end of \<^verbatim>\<open>start_run_connections\<close>: the locals are destroyed, the thread among them.
\<close>

definition leave_scope :: "process \<Rightarrow> process" where
  "leave_scope p = p\<lparr>ended := Some (if joinable p then Terminated else Returned)\<rparr>"

definition late_handler :: "nat \<Rightarrow> action \<Rightarrow> event \<Rightarrow> process \<Rightarrow> process" where
  "late_handler i act e p =
     p\<lparr>prog := (prog p)\<lparr>ops := ops (prog p) - {#(i, act)#}\<rparr>,
       ended := (if touches_peer e (heap (conns (prog p) ! i)) then Some Use_after_free else None)\<rparr>"

inductive proc_step :: "ctx \<Rightarrow> process \<Rightarrow> process \<Rightarrow> bool" for c where
  running: "ended p = None \<Longrightarrow> peers_alive p \<Longrightarrow> sys_step c (prog p) s \<Longrightarrow> proc_step c p (p\<lparr>prog := s\<rparr>)"
| monitor_returns: "ended p = None \<Longrightarrow> peers_alive p \<Longrightarrow> complete (mon (prog p)) \<Longrightarrow>
    proc_step c p (p\<lparr>peers_alive := False\<rparr>)"
| late: "ended p = None \<Longrightarrow> \<not> peers_alive p \<Longrightarrow> (i, act) \<in># ops (prog p) \<Longrightarrow> completes act e \<Longrightarrow>
    proc_step c p (late_handler i act e p)"
| run_returns: "ended p = None \<Longrightarrow> ops (prog p) = {#} \<Longrightarrow> proc_step c p (leave_scope p)"

inductive_cases proc_step_cases: "proc_step c p p'"

section \<open>What has been reached\<close>

definition proc_inv :: "torrent \<Rightarrow> process \<Rightarrow> bool" where
  "proc_inv t p \<longleftrightarrow>
     joinable p \<and> ended p \<noteq> Some Returned \<and>
     (\<exists>s. reachable t s \<and> mon s = mon (prog p) \<and> (peers_alive p \<longrightarrow> s = prog p)) \<and>
     (peers_alive p \<or> complete (mon (prog p))) \<and>
     (ended p = Some Use_after_free \<longrightarrow> \<not> peers_alive p) \<and>
     (ended p = Some Terminated \<longrightarrow> ops (prog p) = {#})"

lemma proc_step_inv: "proc_step (main_ctx t) p p' \<Longrightarrow> proc_inv t p \<Longrightarrow> proc_inv t p'"
proof (erule proc_step_cases, goal_cases)
  case (1 s)
  then have "reachable t s" using reachable_step by (auto simp: proc_inv_def)
  with 1 show ?case by (auto simp: proc_inv_def)
qed (auto simp: proc_inv_def late_handler_def leave_scope_def)

interpretation process: transition_system
  "\<lambda>p. \<exists>s. reachable t s \<and> p = start_process s" "proc_step (main_ctx t)" "proc_inv t"
proof unfold_locales
  show "proc_inv t p" if "\<exists>s. reachable t s \<and> p = start_process s" for p
    using that by (auto simp: proc_inv_def start_process_def)
qed (rule proc_step_inv)

text \<open>Steps of the program are steps of the process.\<close>

lemma running_process:
  "(sys_step c)\<^sup>*\<^sup>* s s' \<Longrightarrow> (proc_step c)\<^sup>*\<^sup>* (start_process s) (start_process s')"
proof (induction rule: rtranclp_induct)
  case (step s1 s2)
  have "proc_step c (start_process s1) (start_process s1\<lparr>prog := s2\<rparr>)"
    by (rule proc_step.running) (simp_all add: start_process_def step.hyps)
  with step.IH show ?case by (simp add: start_process_def)
qed simp

lemma process_inv:
  assumes "reachable t s" and "(proc_step (main_ctx t))\<^sup>*\<^sup>* (start_process s) p"
  shows "proc_inv t p"
  using process.inv_steps [of t "start_process s" p] assms by blast

section \<open>The end\<close>

lemma conversation_touches: "conversation act \<Longrightarrow> completes act e \<Longrightarrow> touches_peer e st"
  by (cases e) (auto simp: completes_def touches_peer_def split: action.splits)

lemma conversation_completes: "conversation act \<Longrightarrow> \<exists>e. completes act e"
proof (cases act)
  case AsyncConnect
  then show ?thesis by (intro exI [of _ "Connected True"]) (simp add: completes_def)
next
  case (WriteHandshake x)
  then show ?thesis by (intro exI [of _ "HandshakeWritten True"]) (simp add: completes_def)
next
  case (ReadHandshake n)
  then show ?thesis by (intro exI [of _ "HandshakeRead True []"]) (simp add: completes_def fills_def)
next
  case ReadLength
  then show ?thesis by (intro exI [of _ "LengthRead True []"]) (simp add: completes_def fills_def)
next
  case (ReadBody n)
  then show ?thesis by (intro exI [of _ "BodyRead True []"]) (simp add: completes_def fills_def)
qed simp_all

text \<open>A conversation that is still going on when the peers are destroyed ends in a dead object.\<close>

lemma conversation_use_after_free:
  assumes "ended p = None" and "\<not> peers_alive p" and "(i, act) \<in># ops (prog p)" and "conversation act"
  shows "\<exists>e p'. completes act e \<and> proc_step c p p' \<and> ended p' = Some Use_after_free" and
    "completes act e \<Longrightarrow> ended (late_handler i act e p) = Some Use_after_free"
proof -
  show touch: "completes act e \<Longrightarrow> ended (late_handler i act e p) = Some Use_after_free" for e
    using conversation_touches [OF assms(4)] by (simp add: late_handler_def)
  obtain e where e: "completes act e" using conversation_completes [OF assms(4)] by blast
  with proc_step.late [OF assms(1-3), of e c] touch [OF e]
  show "\<exists>e p'. completes act e \<and> proc_step c p p' \<and> ended p' = Some Use_after_free" by blast
qed

end
