(* ===== verification/Seeder.thy ===== *)
theory Seeder
  imports Conversation Piece_Runs
begin

text \<open>
  A peer that is connected to a seeder: an honest sender of the whole content that unchokes
  and answers every request. \<open>seeder_says\<close> gives the messages such a sender may send next.
  What a handler does is paid for by the potential of the peer (\<open>paid\<close>, which composes): the
  blocks that are missing, requested or not, pay for the operations that are started.
\<close>

section \<open>The sender\<close>

definition piece_content :: "torrent \<Rightarrow> bytes \<Rightarrow> u32 \<Rightarrow> bytes" where
  "piece_content t content i = slice (unat (piece_length t)) (unat i) content"

text \<open>The content is the one that the torrent describes.\<close>

definition seeds :: "torrent \<Rightarrow> bytes \<Rightarrow> bool" where
  "seeds t content \<longleftrightarrow>
     length content = unat (file_length t) \<and> 0 < pieces t \<and>
     (\<forall>i < pieces t. piece_hash t i = Some (sha1_bytes (piece_content t content i)))"

text \<open>A bitfield message that announces every piece.\<close>

definition announces :: "torrent \<Rightarrow> bitfield \<Rightarrow> bool" where
  "announces t av \<longleftrightarrow> (\<forall>i < pieces t. bitfield_get av (unat i))"

text \<open>
  The messages in the order of the protocol: the bitfield, unchoke, then the blocks that have
  been requested, in any order. The body is given without its length; \<open>unsent\<close> are the blocks
  whose request has not been written yet.
\<close>

definition seeder_says :: "torrent \<Rightarrow> bytes \<Rightarrow> addr set \<Rightarrow> peer \<Rightarrow> bytes \<Rightarrow> bool" where
  "seeder_says t content unsent p body \<longleftrightarrow> length body < 2 ^ 32 \<and>
     (if available_pieces p = [] then
        (\<exists>bs. body = type_code Bitfield # bs \<and> announces t (bitfield_copy_from bs))
      else if choked p then body = [type_code Unchoke]
      else
        (\<exists>q k a. cur_piece p = Some q \<and> (k, a) \<in> set (pending p) \<and> a \<notin> unsent \<and>
           body = type_code PieceMsg # honest_payload (piece_content t content (index q)) q (unat k)))"

text \<open>
  No operation fails, what is read is what the sender says, and every block that is requested
  arrives before its timer fires.
\<close>

definition honest_event :: "torrent \<Rightarrow> bytes \<Rightarrow> addr set \<Rightarrow> peer \<Rightarrow> event \<Rightarrow> bool" where
  "honest_event t content unsent p e \<longleftrightarrow>
     (case e of
        Connected ec \<Rightarrow> \<not> ec
      | HandshakeWritten ec \<Rightarrow> \<not> ec
      | HandshakeRead ec dat \<Rightarrow> \<not> ec
      | LengthRead ec dat \<Rightarrow>
          \<not> ec \<and> (\<exists>body. seeder_says t content unsent p body \<and> dat = be32 (word_of_nat (length body)))
      | BodyRead ec dat \<Rightarrow> \<not> ec \<and> seeder_says t content unsent p dat
      | MessageWritten ec \<Rightarrow> \<not> ec
      | RequestWritten ec a \<Rightarrow> \<not> ec
      | TimerFired ec a \<Rightarrow> \<not> ec \<and> filled (heap p ! a))"

section \<open>The peer\<close>

text \<open>
  The blocks of the current piece that have been started are the filled ones, which carry the
  content, and the pending ones, which are reserved.
\<close>

definition seeded_piece :: "torrent \<Rightarrow> bytes \<Rightarrow> piece \<Rightarrow> store \<Rightarrow> (u32 \<times> addr) list \<Rightarrow> bool" where
  "seeded_piece t content q st pend \<longleftrightarrow>
     index q < pieces t \<and>
     honest (piece_content t content (index q)) (index q) (piece_length t) (q, st) \<and>
     distinct (map fst pend) \<and>
     (\<forall>j < length (blocks q). if filled (st ! (blocks q ! j)) then word_of_nat j \<notin> fst ` set pend
        else (word_of_nat j, blocks q ! j) \<in> set pend \<and> reserved (st ! (blocks q ! j))) \<and>
     (\<forall>(k, a) \<in> set pend. unat k < length (blocks q) \<and> a = blocks q ! unat k)"

definition seeded :: "torrent \<Rightarrow> bytes \<Rightarrow> peer \<Rightarrow> bool" where
  "seeded t content p \<longleftrightarrow>
     (available_pieces p = [] \<longrightarrow> choked p) \<and>
     (available_pieces p \<noteq> [] \<longrightarrow> announces t (available_pieces p)) \<and>
     (choked p \<longrightarrow> cur_piece p = None) \<and>
     (case cur_piece p of
        None \<Rightarrow> pending p = []
      | Some q \<Rightarrow> seeded_piece t content q (heap p) (pending p) \<and> \<not> is_complete q (heap p))"

section \<open>The potential\<close>

text \<open>
  A block that has not been requested pays 6: two for the timer and the request, four for
  what happens when it arrives.
\<close>

definition piece_cost :: "torrent \<Rightarrow> nat" where
  "piece_cost t = 6 * unat (block_count (Piece 0 (piece_length t)))"

definition potential :: "peer \<Rightarrow> nat" where
  "potential p =
     (if available_pieces p = [] then 4 else 0) + (if choked p then 4 else 0) +
     (case cur_piece p of None \<Rightarrow> 0 | Some q \<Rightarrow> 6 * (unat (block_count q) - length (blocks q))) +
     4 * length (pending p)"

fun op_cost :: "action \<Rightarrow> nat" where
  "op_cost AsyncConnect = 7"
| "op_cost (WriteHandshake _) = 6"
| "op_cost (ReadHandshake _) = 5"
| "op_cost ReadLength = 2"
| "op_cost (ReadBody _) = 1"
| "op_cost (WriteMessage _) = 1"
| "op_cost (WriteRequest _ _) = 1"
| "op_cost (StartTimer _) = 1"
| "op_cost (PushResult _) = 1"
| "op_cost _ = 0"

definition cost :: "action list \<Rightarrow> nat" where
  "cost acts = sum_list (map op_cost acts)"

lemma cost_simps [simp]:
  "cost [] = 0" "cost (a # acts) = op_cost a + cost acts" "cost (acts @ acts') = cost acts + cost acts'"
  by (simp_all add: cost_def)

text \<open>The effect of a part of a handler on a seeded peer.\<close>

definition paid :: "torrent \<Rightarrow> bytes \<Rightarrow> peer \<Rightarrow> peer \<Rightarrow> action list \<Rightarrow> bool" where
  "paid t content p p' acts \<longleftrightarrow>
     (seeded t content p \<longrightarrow>
        seeded t content p' \<and> pushed acts = [] \<and> talks acts = 0 \<and> completed (results acts) = [] \<and>
        potential p' + cost acts \<le> potential p + piece_cost t * length (popped acts))"

interpretation paid: composable "paid t content"
proof
  show "paid t content p p'' (as @ bs)" if "paid t content p p' as" "paid t content p' p'' bs" for p p' p'' as bs
  proof (cases "seeded t content p")
    case True
    with that have "seeded t content p'" "seeded t content p''" "pushed (as @ bs) = []" "talks (as @ bs) = 0"
      "completed (results (as @ bs)) = []"
      and p': "potential p' + cost as \<le> potential p + piece_cost t * length (popped as)"
      and p'': "potential p'' + cost bs \<le> potential p' + piece_cost t * length (popped bs)"
      by (auto simp: paid_def)
    moreover from p' p'' have "potential p'' + cost (as @ bs) \<le>
        potential p + piece_cost t * length (popped (as @ bs))"
      by (simp add: algebra_simps)
    ultimately show ?thesis by (simp only: paid_def simp_thms)
  qed (simp add: paid_def)
qed (simp add: paid_def)

section \<open>Starting a block\<close>

lemma block_count_pos:
  assumes "0 < pieces t"
  shows "0 < unat (block_count (Piece i (piece_length t)))"
proof -
  have "unat (pieces t) \<noteq> 0" using assms by (simp add: unat_eq_zero word_gt_0)
  then have "0 < unat (piece_length t)" by (cases "unat (piece_length t)") (simp_all add: unat_pieces)
  then show ?thesis using piece_in_blocks [of "Piece i (piece_length t)"] by (cases "unat (block_count (Piece i (piece_length t)))") simp_all
qed

lemma seeded_piece_fresh:
  assumes "x < pieces t"
  shows "seeded_piece t content (Piece x (piece_length t)) st []"
    and "\<not> is_complete (Piece x (piece_length t)) st"
proof -
  show "seeded_piece t content (Piece x (piece_length t)) st []"
    by (simp add: seeded_piece_def assms honest_Piece) (simp add: Piece_def)
  have "0 < pieces t" using assms by (metis not_less_zero word_not_simps(1) word_gt_0)
  from block_count_pos [OF this, of x] show "\<not> is_complete (Piece x (piece_length t)) st"
    by (auto simp: is_complete_def) (simp add: Piece_def)
qed

lemma block_index_new:
  assumes "n < unat (block_count q)"
  shows "block_index ((Block (word_of_nat (n * BLOCK_SIZE)))\<lparr>reserved := r\<rparr>) = word_of_nat n"
    and "unat (word_of_nat n :: u32) = n"
proof -
  have "n * BLOCK_SIZE < unat (piece_size q)" by (rule block_in_piece [OF assms])
  then have lt: "n * BLOCK_SIZE < 2 ^ 32" using unat_bounds(3) [of "piece_size q"] by linarith
  moreover have "n \<le> n * BLOCK_SIZE" by (simp add: BLOCK_SIZE_def)
  ultimately have "n < 2 ^ 32" by linarith
  then show n: "unat (word_of_nat n :: u32) = n" unfolding unat_of_nat by simp
  from lt have "unat (word_of_nat (n * BLOCK_SIZE) :: u32) = n * BLOCK_SIZE" unfolding unat_of_nat by simp
  then have "unat (word_of_nat (n * BLOCK_SIZE) div word_of_nat BLOCK_SIZE :: u32) = unat (word_of_nat n :: u32)"
    by (simp only: unat_block_index n) simp
  then show "block_index ((Block (word_of_nat (n * BLOCK_SIZE)))\<lparr>reserved := r\<rparr>) = word_of_nat n"
    by (simp only: block_index_def word_unat_eq_iff) (simp add: Block_def)
qed

text \<open>Every block that is handed out is new: those that have been started are filled or reserved.\<close>

lemma seeded_next_block:
  assumes "seeded_piece t content q st pend" and "next_block q st = (Some a, q', st')"
  shows "a = length st" and "length (blocks q) < unat (block_count q)"
    and "q' = q\<lparr>blocks := blocks q @ [length st]\<rparr>"
    and "st' = st @ [(Block (word_of_nat (length (blocks q) * BLOCK_SIZE)))\<lparr>reserved := True\<rparr>]"
proof -
  have "\<not> block_free st b" if "b \<in> set (blocks q)" for b
  proof -
    obtain j where "j < length (blocks q)" "b = blocks q ! j" using \<open>b \<in> set (blocks q)\<close> by (auto simp: in_set_conv_nth)
    with assms(1) show ?thesis unfolding seeded_piece_def block_free_def by metis
  qed
  then have "find (block_free st) (blocks q) = None" by (auto simp: find_None_iff)
  with assms(2) show "a = length st" "length (blocks q) < unat (block_count q)"
    "q' = q\<lparr>blocks := blocks q @ [length st]\<rparr>"
    "st' = st @ [(Block (word_of_nat (length (blocks q) * BLOCK_SIZE)))\<lparr>reserved := True\<rparr>]"
    by (auto simp: next_block_def Let_def split: if_splits)
qed

lemma seeded_start:
  assumes "seeded_piece t content q st pend" and "next_block q st = (Some a, q', st')"
  defines "pend' \<equiv> emplace_block (block_index (st' ! a)) a pend"
  shows "seeded_piece t content q' st' pend'" and "\<not> is_complete q' st'"
    and "unat (block_count q') - length (blocks q') + 1 = unat (block_count q) - length (blocks q)"
    and "length pend' = Suc (length pend)"
proof -
  note new = seeded_next_block [OF assms(1,2)]
  let ?n = "length (blocks q)" and ?c = "piece_content t content (index q)"
  note ix = block_index_new [OF new(2)]
  have count: "block_count q' = block_count q" by (simp add: new(3) block_count_def)
  have k: "block_index (st' ! a) = word_of_nat ?n" by (simp add: new(1,4) nth_append ix(1) del: of_nat_mult)
  have honest: "honest ?c (index q) (piece_length t) (q, st)" and old: "index q < pieces t" "distinct (map fst pend)"
    and pend: "\<And>k a. (k, a) \<in> set pend \<Longrightarrow> unat k < ?n \<and> a = blocks q ! unat k"
    and bl: "\<And>j. j < ?n \<Longrightarrow> if filled (st ! (blocks q ! j)) then word_of_nat j \<notin> fst ` set pend
        else (word_of_nat j, blocks q ! j) \<in> set pend \<and> reserved (st ! (blocks q ! j))"
    using assms(1) unfolding seeded_piece_def by blast+
  then have "piece_inv q st" by (simp add: honest_def)
  have mem: "blocks q ! j < length st" if "j < ?n" for j
    using piece_inv_addr [OF \<open>piece_inv q st\<close>] that by simp
  have "map_of pend (word_of_nat ?n) = None"
    using pend ix(2) by (fastforce simp: map_of_eq_None_iff)
  then have pend': "pend' = pend @ [(word_of_nat ?n, length st)]"
    by (simp add: pend'_def k emplace_block_def) (simp add: new(1))
  then show "length pend' = Suc (length pend)" by simp
  have h: "honest ?c (index q) (piece_length t) (q', st')"
    using honest_step [OF honest, of Start] assms(2) by (simp add: op_in_def)
  have i: "index q' = index q" by (simp add: new(3))
  have d: "distinct (map fst pend')"
    using old(2) pend ix(2) by (fastforce simp: pend')
  have f: "if filled (st' ! (blocks q' ! j)) then word_of_nat j \<notin> fst ` set pend'
        else (word_of_nat j, blocks q' ! j) \<in> set pend' \<and> reserved (st' ! (blocks q' ! j))"
    if j: "j < length (blocks q')" for j
  proof (cases "j = ?n")
    case True
    then show ?thesis by (simp add: pend' new(3,4) nth_append)
  next
    case False
    with j have j: "j < ?n" by (simp add: new(3))
    then have "st' ! (blocks q' ! j) = st ! (blocks q ! j)" "blocks q' ! j = blocks q ! j"
      using mem by (simp_all add: new(3,4) nth_append)
    moreover have "unat (word_of_nat j :: u32) = j"
      using block_index_new(2) [of j q] j new(2) by simp
    then have "word_of_nat j \<noteq> (word_of_nat ?n :: u32)" using j ix(2) by fastforce
    ultimately show ?thesis using bl [OF j] by (auto simp: pend')
  qed
  have p: "\<forall>(k, b) \<in> set pend'. unat k < length (blocks q') \<and> b = blocks q' ! unat k"
    using pend ix(2) by (fastforce simp: pend' new(3) nth_append)
  show "seeded_piece t content q' st' pend'"
    unfolding seeded_piece_def i using old(1) h d f p by blast
  show "\<not> is_complete q' st'" by (simp add: is_complete_def new(3,4))
  show "unat (block_count q') - length (blocks q') + 1 = unat (block_count q) - length (blocks q)"
    using new(2) by (simp add: count) (simp add: new(3))
qed

section \<open>The pipeline\<close>

lemma announces_nonempty: "announces t av \<Longrightarrow> 0 < pieces t \<Longrightarrow> av \<noteq> []"
  by (auto simp: announces_def bitfield_get_def)

lemma seeded_acquire:
  assumes "seeded t content p" and "\<not> choked p" and "\<forall>x. pop = Some x \<longrightarrow> x < pieces t" and "ctx_tor c = t"
  shows "acquire c pop p = Inl (p', acts) \<Longrightarrow> p' = p \<and> cur_piece p = None \<and> pop = None \<and> acts = [PopWork None]"
    and "acquire c pop p = Inr (q, p', acts) \<Longrightarrow> seeded t content p' \<and> cur_piece p' = Some q \<and> \<not> choked p' \<and>
      pushed acts = [] \<and> talks acts = 0 \<and> results acts = [] \<and> set (popped acts) \<subseteq> set_option pop \<and>
      potential p' + cost acts = potential p + piece_cost t * length (popped acts)"
proof -
  have av: "announces t (available_pieces p)" using assms(1,2) by (auto simp: seeded_def)
  then have get: "bitfield_get (available_pieces p) (unat x)" if "pop = Some x" for x
    using assms(3) that by (simp add: announces_def)
  show "p' = p \<and> cur_piece p = None \<and> pop = None \<and> acts = [PopWork None]" if "acquire c pop p = Inl (p', acts)"
    using that get by (auto simp: acquire_def Let_def split: option.splits if_splits)
  show "seeded t content p' \<and> cur_piece p' = Some q \<and> \<not> choked p' \<and>
      pushed acts = [] \<and> talks acts = 0 \<and> results acts = [] \<and> set (popped acts) \<subseteq> set_option pop \<and>
      potential p' + cost acts = potential p + piece_cost t * length (popped acts)"
    if acq: "acquire c pop p = Inr (q, p', acts)"
  proof (cases "cur_piece p")
    case None
    with acq obtain x where x: "pop = Some x" "q = Piece x (piece_length t)" "p' = p\<lparr>cur_piece := Some q\<rparr>"
      "acts = [PopWork (Some x)]"
      by (auto simp: acquire_def Let_def assms(4) split: option.splits if_splits)
    have "x < pieces t" using assms(3) x(1) by simp
    note fresh = seeded_piece_fresh(1) [OF this, of content "heap p", folded x(2)]
      seeded_piece_fresh(2) [OF this, of "heap p", folded x(2)]
    have "block_count q = block_count (Piece 0 (piece_length t))" "blocks q = []"
      by (simp_all add: x(2) block_count_def) (simp add: Piece_def)
    then show ?thesis
      using fresh assms(1,2) None by (simp add: x seeded_def potential_def piece_cost_def del: x(2))
  next
    case (Some q')
    with acq have "p' = p" "q = q'" "acts = []" by (simp_all add: acquire_def)
    with Some assms(1,2) show ?thesis by simp
  qed
qed

lemma seeded_stalled:
  assumes "seeded t content p" and "stalled p" and "cur_piece p = Some q"
  shows "pending p \<noteq> []"
proof
  assume none: "pending p = []"
  have q: "seeded_piece t content q (heap p) []" "\<not> is_complete q (heap p)" "\<not> choked p" "available_pieces p \<noteq> []"
    using assms(1,3) none by (auto simp: seeded_def)
  then have "filled (heap p ! a)" if "a \<in> set (blocks q)" for a
    using that by (auto simp: seeded_piece_def in_set_conv_nth split: if_splits)
  moreover have "unat (block_count q) \<le> length (blocks q)" "length (blocks q) \<le> unat (block_count q)"
    using assms(2,3) q none by (auto simp: stalled_def PIPELINE_LIMIT_def seeded_piece_def honest_def piece_inv_def)
  ultimately show False using q(2) by (simp add: is_complete_def list_all_iff)
qed

definition quiet :: "u32 option \<Rightarrow> action list \<Rightarrow> bool" where
  "quiet pop acts \<longleftrightarrow> results acts = [] \<and> set (popped acts) \<subseteq> set_option pop"

lemma quiet_simps [simp]:
  "quiet pop []" "quiet pop (as @ bs) \<longleftrightarrow> quiet pop as \<and> quiet pop bs"
  "quiet pop [StartTimer a, WriteRequest msg a]" "quiet None [PopWork None]"
  by (auto simp: quiet_def)

lemma seeded_download_step:
  assumes "seeded t content p" and "\<forall>x. pop = Some x \<longrightarrow> x < pieces t" and "ctx_tor c = t"
  shows "download_step c pop p = Some (Inl (p', acts)) \<Longrightarrow>
      paid t content p p' acts \<and> quiet pop acts \<and> (cur_piece p' = None \<longrightarrow> choked p' \<or> pop = None)"
    and "download_step c pop p = Some (Inr (p', acts)) \<Longrightarrow> paid t content p p' acts \<and> quiet pop acts"
proof -
  show "paid t content p p' acts \<and> quiet pop acts \<and> (cur_piece p' = None \<longrightarrow> choked p' \<or> pop = None)"
    if step: "download_step c pop p = Some (Inl (p', acts))"
  proof (cases "PIPELINE_LIMIT \<le> length (pending p) \<or> choked p \<or> available_pieces p = []")
    case True
    with step have "p' = p" "acts = []" by (auto simp: download_step_def split: if_splits)
    moreover have "cur_piece p = None \<longrightarrow> choked p"
      using assms(1) True by (auto simp: seeded_def PIPELINE_LIMIT_def)
    ultimately show ?thesis by (simp add: paid.ok_refl)
  next
    case False
    then have ch: "\<not> choked p" by simp
    note acq = seeded_acquire [OF assms(1) ch assms(2,3)]
    show ?thesis
    proof (cases "acquire c pop p")
      case (Inl r)
      with step False have r: "r = (p', acts)" by (auto simp: download_step_def split: if_splits)
      note acq(1) [OF Inl [unfolded r]]
      then show ?thesis by (simp add: paid_def)
    next
      case (Inr r)
      obtain q p1 a1 where r: "r = (q, p1, a1)" by (metis surj_pair)
      note acq = acq(2) [OF Inr [unfolded r]]
      obtain nb q' st where nb: "next_block q (heap p1) = (nb, q', st)" by (metis surj_pair)
      have "\<not> is_complete q (heap p1)" using acq by (auto simp: seeded_def)
      with step False nb have "nb = None" "p' = p1\<lparr>cur_piece := Some q', heap := st\<rparr>" "acts = a1"
        by (auto simp: download_step_def Inr r Let_def split: option.splits)
      moreover have "q' = q" "st = heap p1" using next_block_None nb \<open>nb = None\<close> by auto
      ultimately have "p' = p1" "acts = a1" using acq by simp_all
      with acq show ?thesis by (auto simp: paid_def quiet_def)
    qed
  qed
  show "paid t content p p' acts \<and> quiet pop acts" if step: "download_step c pop p = Some (Inr (p', acts))"
  proof -
    from step have ch: "\<not> choked p" by (auto simp: download_step_def split: if_splits)
    from step obtain q0 p0 a0 q a st msg where acq: "acquire c pop p = Inr (q0, p0, a0)"
      and q0: "cur_piece p0 = Some q0" and nb: "next_block q0 (heap p0) = (Some a, q, st)"
      and p': "p' = p0\<lparr>cur_piece := Some q, heap := st,
           pending := emplace_block (block_index (st ! a)) a (pending p0)\<rparr>"
      and acts: "acts = a0 @ [StartTimer a, WriteRequest msg a]"
      by (rule download_step_Inr)
    note acq = seeded_acquire(2) [OF assms(1) ch assms(2,3) acq]
    then have "seeded_piece t content q0 (heap p0) (pending p0)" using q0 by (auto simp: seeded_def)
    note start = seeded_start [OF this nb]
    have "index q = index q0" using seeded_next_block(3) [OF \<open>seeded_piece t content q0 (heap p0) (pending p0)\<close> nb] by simp
    have "seeded t content p'" using acq start(1,2) q0 by (auto simp: seeded_def p')
    moreover have "potential p' + 2 = potential p0"
      using start(3,4) q0 by (simp add: potential_def p')
    ultimately show ?thesis using acq by (auto simp: paid_def acts quiet_def)
  qed
qed

lemma seeded_async_download:
  assumes "async_download c pop p as = Some (p', acts)" and "seeded t content p"
    and "\<forall>x. pop = Some x \<longrightarrow> x < pieces t" and "ctx_tor c = t"
  shows "\<exists>a. acts = as @ a \<and> seeded t content p' \<and> paid t content p p' a \<and> quiet pop a \<and>
    (cur_piece p' = None \<longrightarrow> choked p' \<or> pop = None)"
proof -
  have "seeded t content p \<longrightarrow> (\<exists>a. acts = as @ a \<and> seeded t content p' \<and> paid t content p p' a \<and> quiet pop a \<and>
    (cur_piece p' = None \<longrightarrow> choked p' \<or> pop = None))"
    using assms(1)
  proof (rule async_download_rule [where P = "\<lambda>p acts p' acts'. seeded t content p \<longrightarrow>
      (\<exists>a. acts' = acts @ a \<and> seeded t content p' \<and> paid t content p p' a \<and> quiet pop a \<and>
        (cur_piece p' = None \<longrightarrow> choked p' \<or> pop = None))"])
    fix p acts p1 a p' acts'
    assume step: "download_step c pop p = Some (Inr (p1, a))"
      and IH: "seeded t content p1 \<longrightarrow> (\<exists>b. acts' = (acts @ a) @ b \<and> seeded t content p' \<and> paid t content p1 p' b \<and>
        quiet pop b \<and> (cur_piece p' = None \<longrightarrow> choked p' \<or> pop = None))"
    show "seeded t content p \<longrightarrow> (\<exists>b. acts' = acts @ b \<and> seeded t content p' \<and> paid t content p p' b \<and>
        quiet pop b \<and> (cur_piece p' = None \<longrightarrow> choked p' \<or> pop = None))"
    proof
      assume s: "seeded t content p"
      note this_step = seeded_download_step(2) [OF s assms(3,4) step]
      with s have "seeded t content p1" by (simp add: paid_def)
      with IH obtain b where b: "acts' = acts @ a @ b" "seeded t content p'" "paid t content p1 p' b" "quiet pop b"
        "cur_piece p' = None \<longrightarrow> choked p' \<or> pop = None" by auto
      have "paid t content p p' (a @ b)" using this_step b(3) paid.ok_trans by blast
      with this_step b show "\<exists>b. acts' = acts @ b \<and> seeded t content p' \<and> paid t content p p' b \<and>
        quiet pop b \<and> (cur_piece p' = None \<longrightarrow> choked p' \<or> pop = None)"
        by (intro exI [of _ "a @ b"]) simp
    qed
  qed (use seeded_download_step(1) assms(3,4) in \<open>auto simp: paid_def\<close>)
  with assms(2) show ?thesis by simp
qed

section \<open>A block arrives\<close>

lemma length_piece_content:
  assumes "seeds t content" and "i < pieces t"
  shows "length (piece_content t content i) = unat (piece_length t)"
proof -
  have "Suc (unat i) * unat (piece_length t) \<le> unat (pieces t) * unat (piece_length t)"
    using assms(2) by (intro mult_le_mono1) (simp add: word_less_nat_alt Suc_le_eq)
  with pieces_fit [of t] assms(1) show ?thesis by (simp add: piece_content_def slice_def seeds_def)
qed

text \<open>Filling and releasing the pending block \<open>k\<close>.\<close>

lemma seeded_fill:
  assumes "seeded_piece t content q st pend" and "(k, a) \<in> set pend"
  defines "dat \<equiv> slice BLOCK_SIZE (unat k) (piece_content t content (index q))"
  defines "st' \<equiv> st[a := block_release (fill_with dat (st ! a))]"
    and "pend' \<equiv> filter (\<lambda>(i, _). i \<noteq> k) pend"
  shows "accept j1 j2 (honest_payload (piece_content t content (index q)) q (unat k)) q st =
      ((Ok, k), st[a := fill_with dat (st ! a)])"
    and "map_of pend k = Some a" and "a < length st"
    and "seeded_piece t content q st' pend'" and "length pend = Suc (length pend')"
proof -
  let ?c = "piece_content t content (index q)" and ?n = "length (blocks q)"
  have honest: "honest ?c (index q) (piece_length t) (q, st)" and q: "index q < pieces t" and d: "distinct (map fst pend)"
    and pend: "\<And>k a. (k, a) \<in> set pend \<Longrightarrow> unat k < ?n \<and> a = blocks q ! unat k"
    and bl: "\<And>j. j < ?n \<Longrightarrow> if filled (st ! (blocks q ! j)) then word_of_nat j \<notin> fst ` set pend
        else (word_of_nat j, blocks q ! j) \<in> set pend \<and> reserved (st ! (blocks q ! j))"
    using assms(1) unfolding seeded_piece_def by blast+
  then have inv: "piece_inv q st" by (simp add: honest_def)
  have k: "unat k < ?n" "a = blocks q ! unat k" using pend [OF assms(2)] by auto
  then have kc: "unat k < unat (block_count q)" using inv by (simp add: piece_inv_def)
  show a: "a < length st" using piece_inv_addr [OF inv] k by simp
  show map: "map_of pend k = Some a" using d assms(2) by simp
  have nf: "\<not> filled (st ! a)"
  proof
    assume "filled (st ! a)"
    with bl [OF k(1)] k(2) have "word_of_nat (unat k) \<notin> fst ` set pend" by simp
    with assms(2) show False by force
  qed
  have off: "word_of_nat (unat k * BLOCK_SIZE) div word_of_nat BLOCK_SIZE = k"
    using blocks_in_memory(2) [OF inv k(1)] by (simp only: word_unat_eq_iff unat_block_index)
  have len: "length dat \<le> BLOCK_SIZE" by (simp add: dat_def length_slice)
  then have "length dat < 2 ^ 32" by (simp add: BLOCK_SIZE_def)
  then show acc: "accept j1 j2 (honest_payload ?c q (unat k)) q st = ((Ok, k), st[a := fill_with dat (st ! a)])" for j1 j2
    using len k nf
    by (simp add: honest_payload_def accept_unfold off Let_def flip: dat_def del: of_nat_mult)
  have "honest ?c (index q) (piece_length t) (q, st[a := fill_with dat (st ! a)])"
    using honest_step [OF honest, of "Receive (unat k)"] block_in_piece [OF kc] honest
    by (simp add: acc op_in_def) (simp add: honest_def)
  from honest_step [OF this, of "Release (unat k)"]
  have h: "honest ?c (index q) (piece_length t) (q, st')"
    using k a by (simp add: op_in_def st'_def)
  have d': "distinct (map fst pend')" using d by (simp add: pend'_def distinct_map_filter)
  have st': "st' ! b = (if b = a then block_release (fill_with dat (st ! a)) else st ! b)" for b
    using a by (simp add: st'_def nth_list_update)
  have same: "blocks q ! j = a \<longleftrightarrow> j = unat k" if "j < ?n" for j
    using that k inv by (simp add: piece_inv_def nth_eq_iff_index_eq)
  have f: "if filled (st' ! (blocks q ! j)) then word_of_nat j \<notin> fst ` set pend'
        else (word_of_nat j, blocks q ! j) \<in> set pend' \<and> reserved (st' ! (blocks q ! j))" if j: "j < ?n" for j
  proof (cases "j = unat k")
    case True
    then show ?thesis using k(2) by (auto simp: st' pend'_def fill_with_def)
  next
    case False
    have "unat (word_of_nat j :: u32) = j"
      using block_index_new(2) [of j q] j inv by (simp add: piece_inv_def)
    with False have "word_of_nat j \<noteq> k" by auto
    then show ?thesis using bl [OF j] False j by (auto simp: st' same pend'_def) (force simp: image_iff)+
  qed
  have p: "\<forall>(k, a) \<in> set pend'. unat k < ?n \<and> a = blocks q ! unat k"
    using pend by (auto simp: pend'_def)
  show "seeded_piece t content q st' pend'"
    unfolding seeded_piece_def using q h d' f p by blast
  have "filter (\<lambda>(i, _). i = k) pend = [(k, a)]"
    using d assms(2)
  proof (induction pend)
    case (Cons e es)
    have "filter (\<lambda>(i, _). i = k) es = []" if "fst e = k"
    proof -
      have "k \<notin> fst ` set es" using Cons.prems(1) that by simp
      then show ?thesis by (auto simp: filter_empty_conv rev_image_eqI)
    qed
    with Cons show ?case by (cases e) (auto simp: image_iff)
  qed simp
  moreover have "filter (\<lambda>e. \<not> (case e of (i, _) \<Rightarrow> i = k)) pend = pend'"
    by (simp add: pend'_def case_prod_unfold)
  ultimately have "1 + length pend' = length pend"
    using sum_length_filter_compl [of "\<lambda>(i, _). i = k" pend] by (simp only: list.size)
  then show "length pend = Suc (length pend')" by simp
qed

text \<open>What a result says about the content.\<close>

definition carries :: "torrent \<Rightarrow> bytes \<Rightarrow> peer_result list \<Rightarrow> bool" where
  "carries t content rs \<longleftrightarrow>
     (\<forall>cp \<in> set (completed rs). cp_data cp = piece_content t content (cp_index cp))"

lemma carries_simps [simp]:
  "carries t content []" "carries t content (rs @ rs') \<longleftrightarrow> carries t content rs \<and> carries t content rs'"
  by (auto simp: carries_def)

lemma seeded_handle_piece:
  assumes "seeds t content" and "seeded t content p" and q: "cur_piece p = Some q" and "(k, a) \<in> set (pending p)"
    and m: "payload m = honest_payload (piece_content t content (index q)) q (unat k)"
    and "uninit_ok t u" and "ctx_tor c = t"
  shows "\<exists>p' acts. handle_piece c u m p = Some (p', acts) \<and> seeded t content p' \<and>
    pushed acts = [] \<and> popped acts = [] \<and> talks acts = 0 \<and> carries t content (results acts) \<and>
    potential p' + cost acts + 3 \<le> potential p"
proof -
  let ?c = "piece_content t content (index q)"
  have sp: "seeded_piece t content q (heap p) (pending p)" using assms(2) q by (auto simp: seeded_def)
  define st where "st = (heap p)[a := block_release (fill_with (slice BLOCK_SIZE (unat k) ?c) (heap p ! a))]"
  define pend where "pend = filter (\<lambda>(i, _). i \<noteq> k) (pending p)"
  note fill = seeded_fill [OF sp assms(4), folded st_def pend_def]
  let ?p = "p\<lparr>heap := st, pending := pend\<rparr>"
  have rel: "release_block k (p\<lparr>heap := (heap p)[a := fill_with (slice BLOCK_SIZE (unat k) ?c) (heap p ! a)]\<rparr>) = ?p"
    using fill(2,3) by (simp add: release_block_def st_def pend_def)
  have pot: "potential ?p + 4 = potential p" using fill(5) by (simp add: potential_def)
  have idx: "index q < pieces t" and honest: "honest ?c (index q) (piece_length t) (q, st)"
    using fill(4) by (auto simp: seeded_piece_def)
  show ?thesis
  proof (cases "is_complete q st")
    case False
    have "handle_piece c u m p = Some (?p, [])"
      using False by (simp add: handle_piece_def q m fill(1) rel)
    moreover have "seeded t content ?p" using assms(2) fill(4) False q by (auto simp: seeded_def)
    ultimately show ?thesis using pot by auto
  next
    case True
    let ?cp = "\<lparr>cp_data = ?c, cp_index = index q, cp_size = piece_length t\<rparr>"
    note len = length_piece_content [OF assms(1) idx]
    obtain q' where fin: "finalize (u_array u) q st = Some (?cp, q')"
      using honest_finalize [OF honest True len] assms(6) by (auto simp: uninit_ok_def)
    then have "index q' = index q" by (auto simp: finalize_def Let_def split: option.splits if_splits)
    moreover have "piece_hash t (index q) = Some (sha1_bytes ?c)" using assms(1) idx by (simp add: seeds_def)
    moreover have "cp_hash ?cp = Some (sha1_bytes ?c)" using len by (simp add: cp_hash_def)
    ultimately have "handle_piece c u m p =
        Some (?p\<lparr>cur_piece := None, pending := []\<rparr>, [PushResult (ResultPieceComplete ?cp)])"
      using True by (simp add: handle_piece_def q m fill(1) rel fin assms(7))
    moreover have "seeded t content (?p\<lparr>cur_piece := None, pending := []\<rparr>)"
      using assms(2) q by (auto simp: seeded_def)
    moreover have "potential (?p\<lparr>cur_piece := None, pending := []\<rparr>) \<le> potential ?p" by (simp add: potential_def)
    ultimately show ?thesis using pot by (auto simp: carries_def)
  qed
qed

section \<open>A message arrives\<close>

lemma seeded_buffer [simp]:
  "seeded t content (p\<lparr>recv_buffer := b\<rparr>) = seeded t content p" "potential (p\<lparr>recv_buffer := b\<rparr>) = potential p"
  by (simp_all add: seeded_def potential_def split: option.split)

lemma Message_type: "Message (type_code ty # bs) = Some \<lparr>mtype = Some ty, payload = bs\<rparr>"
  by (simp add: Message_def del: type_code.simps)

text \<open>
  The state between two handlers: a peer that has a piece has asked for a block of it, and a
  peer without one found the queue empty.
\<close>

definition waiting :: "torrent \<Rightarrow> bytes \<Rightarrow> peer \<Rightarrow> bool" where
  "waiting t content p \<longleftrightarrow> seeded t content p \<and> (cur_piece p \<noteq> None \<longrightarrow> pending p \<noteq> [])"

definition idle :: "peer \<Rightarrow> bool" where
  "idle p \<longleftrightarrow> cur_piece p = None \<and> \<not> choked p"

text \<open>What every handler does for a seeded peer; \<open>n\<close> is the cost of the operation that has completed.\<close>

definition honest_effect ::
    "torrent \<Rightarrow> bytes \<Rightarrow> u32 option \<Rightarrow> nat \<Rightarrow> peer \<Rightarrow> peer \<Rightarrow> action list \<Rightarrow> bool" where
  "honest_effect t content pop n p p' acts \<longleftrightarrow>
     waiting t content p' \<and> (idle p' \<longrightarrow> idle p \<or> pop = None) \<and> pushed acts = [] \<and>
     length (popped acts) \<le> 1 \<and> set (popped acts) \<subseteq> set_option pop \<and> carries t content (results acts) \<and>
     potential p' + cost acts < potential p + n + piece_cost t * length (popped acts)"

lemma download_effect:
  assumes d: "async_download c pop p as = Some (p', acts)" and s: "seeded t content p"
    and pop: "\<forall>x. pop = Some x \<longrightarrow> x < pieces t" and c: "ctx_tor c = t" and inv: "peer_inv t p"
    and as: "pushed as = []" "popped as = []" "talks as = 0" "carries t content (results as)"
  shows "waiting t content p' \<and> (idle p' \<longrightarrow> pop = None) \<and> pushed acts = [] \<and> talks acts = 0 \<and>
    length (popped acts) \<le> 1 \<and> set (popped acts) \<subseteq> set_option pop \<and> carries t content (results acts) \<and>
    potential p' + cost acts \<le> potential p + cost as + piece_cost t * length (popped acts)"
proof -
  from seeded_async_download [OF d s pop c] obtain a where a: "acts = as @ a" "seeded t content p'"
    "paid t content p p' a" "quiet pop a" "cur_piece p' = None \<longrightarrow> choked p' \<or> pop = None" by (elim exE conjE)
  obtain b where b: "acts = as @ b" "guar (ctx_tor c) p p' b" using async_download_guar [OF d] by blast
  have "b = a" using a(1) b(1) by simp
  with b(2) inv c have "conserved p p' a" by (simp add: guar_def)
  then have "size (held p' + mset (pushed a) + mset (map cp_index (completed (results a)))) =
      size (held p + mset (popped a))"
    by (simp only: conserved_def)
  moreover have "size (held p') \<le> 1" by (simp add: held_def split: option.split)
  ultimately have "length (popped a) \<le> 1"
    using a(3) s by (simp add: paid_def)
  moreover have "cur_piece p' \<noteq> None \<longrightarrow> pending p' \<noteq> []"
    using seeded_stalled [OF a(2) async_download_stalled [OF d]] by auto
  moreover have "pushed acts = []" "talks acts = 0" "popped acts = popped a" "results acts = results as"
    "potential p' + cost a \<le> potential p + piece_cost t * length (popped a)"
    using a(3,4) as(1-3) s by (simp_all add: a(1) paid_def quiet_def)
  moreover have "idle p' \<longrightarrow> pop = None" using a(5) by (auto simp: idle_def)
  ultimately show ?thesis
    using a(2,4) as(4) by (simp add: waiting_def quiet_def a(1))
qed

lemma seeded_message:
  assumes "seeds t content" and "waiting t content p" and says: "seeder_says t content unsent p (recv_buffer p)"
    and "uninit_ok t u" and pop: "\<forall>x. pop = Some x \<longrightarrow> x < pieces t" and c: "ctx_tor c = t" and "peer_inv t p"
  shows "\<exists>p' acts. async_handle_message c u pop p = Some (p', acts) \<and> honest_effect t content pop 1 p p' acts \<and>
    talks acts = 1 \<and> ReadLength \<in> set acts \<and> length (recv_buffer p') = 4"
proof -
  have s: "seeded t content p" using assms(2) by (simp add: waiting_def)
  have step: "\<exists>p' acts. async_handle_message c u pop p = Some (p', acts) \<and> honest_effect t content pop 1 p p' acts \<and>
    talks acts = 1 \<and> ReadLength \<in> set acts \<and> length (recv_buffer p') = 4"
    if msg: "async_handle_message c u pop p = (case async_download c pop p1 as of
         None \<Rightarrow> None
       | Some (p, acts) \<Rightarrow> (let (p, acts2) = async_read_message p in Some (p, acts @ acts2)))"
      and p1: "seeded t content p1" "peer_inv t p1"
      and as: "pushed as = []" "popped as = []" "talks as = 0" "carries t content (results as)"
      and pot: "potential p1 + cost as + 2 \<le> potential p"
    for p1 as
  proof -
    obtain p2 acts where d: "async_download c pop p1 as = Some (p2, acts)"
      using async_download_total [of c p1 pop as] p1(2) c by (cases "async_download c pop p1 as") auto
    note eff = download_effect [OF d p1(1) pop c p1(2) as]
    have "async_handle_message c u pop p = Some (p2\<lparr>recv_buffer := resize 4 (recv_buffer p2)\<rparr>, acts @ [ReadLength])"
      by (simp add: msg d async_read_message_def)
    moreover have "honest_effect t content pop 1 p (p2\<lparr>recv_buffer := resize 4 (recv_buffer p2)\<rparr>) (acts @ [ReadLength])"
      using eff pot by (auto simp: honest_effect_def waiting_def idle_def)
    ultimately show ?thesis using eff by auto
  qed
  consider (bits) bs where "available_pieces p = []" "recv_buffer p = type_code Bitfield # bs"
      "announces t (bitfield_copy_from bs)"
    | (unchoke) "available_pieces p \<noteq> []" "choked p" "recv_buffer p = [type_code Unchoke]"
    | (block) q k a where "\<not> choked p" "cur_piece p = Some q" "(k, a) \<in> set (pending p)"
      "recv_buffer p = type_code PieceMsg # honest_payload (piece_content t content (index q)) q (unat k)"
    using says by (auto simp: seeder_says_def split: if_splits)
  then show ?thesis
  proof cases
    case bits
    have "bitfield_copy_from bs \<noteq> []"
      using assms(1) bits(3) by (intro announces_nonempty) (auto simp: seeds_def)
    moreover have "choked p" using s bits(1) by (simp add: seeded_def)
    ultimately show ?thesis
      using s assms(7) bits
      by (intro step [of "p\<lparr>available_pieces := bitfield_copy_from bs\<rparr>" "[]"])
        (auto simp: async_handle_message_def Message_type seeded_def potential_def simp del: type_code.simps)
  next
    case unchoke
    then show ?thesis
      using s assms(7)
      by (intro step [of "p\<lparr>choked := False\<rparr>" "[]"])
        (auto simp: async_handle_message_def Message_type seeded_def potential_def simp del: type_code.simps)
  next
    case block
    let ?m = "\<lparr>mtype = Some PieceMsg, payload = honest_payload (piece_content t content (index q)) q (unat k)\<rparr>"
    obtain p1 as where p1: "handle_piece c u ?m p = Some (p1, as)" "seeded t content p1"
      "pushed as = []" "popped as = []" "talks as = 0" "carries t content (results as)"
      "potential p1 + cost as + 3 \<le> potential p"
      using seeded_handle_piece [OF assms(1) s block(2,3), of ?m u c] assms(4) c by auto
    have "length (payload ?m) < 2 ^ 32"
      using says block(4) by (simp add: seeder_says_def)
    from handle_piece_guar [OF p1(1) _ this] assms(4,7) c have "peer_inv t p1" by (simp add: guar_def)
    then show ?thesis
      using p1 block(4)
      by (intro step [of p1 as]) (simp_all add: async_handle_message_def Message_type del: type_code.simps)
  qed
qed

section \<open>Every handler\<close>

text \<open>The buffer that an outstanding read fills, and the message that is being read.\<close>

fun op_fits :: "torrent \<Rightarrow> bytes \<Rightarrow> addr set \<Rightarrow> peer \<Rightarrow> action \<Rightarrow> bool" where
  "op_fits t content unsent p ReadLength \<longleftrightarrow> length (recv_buffer p) = 4"
| "op_fits t content unsent p (ReadBody n) \<longleftrightarrow> length (recv_buffer p) = n \<and>
     (\<exists>body. seeder_says t content unsent p body \<and> length body = n)"
| "op_fits t content unsent p _ \<longleftrightarrow> True"

lemma seeder_says_mono:
  "seeder_says t content unsent p body \<Longrightarrow> unsent' \<subseteq> unsent \<Longrightarrow> seeder_says t content unsent' p body"
  by (auto simp: seeder_says_def split: if_splits)

lemma op_fits_mono: "op_fits t content unsent p act \<Longrightarrow> unsent' \<subseteq> unsent \<Longrightarrow> op_fits t content unsent' p act"
  by (cases act) (auto dest: seeder_says_mono)

lemma seeder_says_buffer [simp]:
  "seeder_says t content unsent (p\<lparr>recv_buffer := b\<rparr>) body = seeder_says t content unsent p body"
  by (simp add: seeder_says_def)

lemma waiting_buffer [simp]:
  "waiting t content (p\<lparr>recv_buffer := b\<rparr>) = waiting t content p"
  "waiting t content (p\<lparr>peer_id := i\<rparr>) = waiting t content p"
  "idle (p\<lparr>recv_buffer := b\<rparr>) = idle p" "idle (p\<lparr>peer_id := i\<rparr>) = idle p"
  by (simp_all add: waiting_def idle_def seeded_def split: option.split)

lemma potential_peer_id [simp]: "potential (p\<lparr>peer_id := i\<rparr>) = potential p"
  by (simp add: potential_def)

lemma only_conversation:
  assumes "talks acts = 1" and "x \<in> set acts" "conversation x" and "y \<in> set acts" "conversation y"
  shows "x = y"
proof -
  have "x \<in> set (filter conversation acts)" "y \<in> set (filter conversation acts)" using assms by simp_all
  moreover obtain z where "filter conversation acts = [z]"
    using assms(1) by (auto simp: talks_def length_Suc_conv)
  ultimately show ?thesis by simp
qed

lemma seeder_says_nonempty: "seeder_says t content unsent p body \<Longrightarrow> body \<noteq> []"
  by (auto simp: seeder_says_def split: if_splits)

lemma waiting_received: "waiting t content (received dat p) = waiting t content p"
  by (simp add: received_def)

lemma received_all: "length dat = length (recv_buffer p) \<Longrightarrow> received dat p = p\<lparr>recv_buffer := dat\<rparr>"
  by (simp add: received_def overlay_def)

lemma effect_same:
  assumes "waiting t content p" and "carries t content (results acts)" and "pushed acts = []" "popped acts = []"
    and "waiting t content p'" "idle p' = idle p" "potential p' = potential p" and "cost acts < n"
  shows "honest_effect t content pop n p p' acts"
  using assms by (simp add: honest_effect_def)

lemma honest_length:
  assumes "seeder_says t content unsent p body" and "length (recv_buffer p) = 4" and "waiting t content p"
  shows "async_read_len False (received (be32 (word_of_nat (length body))) p) =
      (p\<lparr>recv_buffer := resize (length body) (be32 (word_of_nat (length body)))\<rparr>, [ReadBody (length body)])"
proof -
  have "length body < 2 ^ 32" using assms(1) by (simp add: seeder_says_def)
  then have n: "unat (word_of_nat (length body) :: u32) = length body" unfolding unat_of_nat by simp
  moreover have "word_of_nat (length body) \<noteq> (0 :: u32)"
    using n seeder_says_nonempty [OF assms(1)] by (metis length_0_conv unat_0)
  moreover have "ntohl (load32 (be32 (word_of_nat (length body)))) = word_of_nat (length body)"
    using ntohl_load32_append [of "be32 (word_of_nat (length body))" "[]"] by simp
  ultimately show ?thesis using assms(2) by (simp add: async_read_len_def received_all Let_def)
qed

definition new_requests :: "action list \<Rightarrow> addr set" where
  "new_requests acts = {a. \<exists>msg. WriteRequest msg a \<in> set acts}"

lemma honest_handle:
  assumes "seeds t content" and w: "waiting t content p" and "peer_inv t p"
    and ev: "honest_event t content unsent p e" and act: "completes act e" and "uninit_ok t u"
    and pop: "\<forall>x. pop = Some x \<longrightarrow> x < pieces t" and c: "ctx_tor c = t" and fits: "op_fits t content unsent p act"
  shows "\<exists>p' acts. handle c u pop e p = Some (p', acts) \<and> honest_effect t content pop (op_cost act) p p' acts \<and>
    talks acts = (if conversation act then 1 else 0) \<and>
    (\<forall>a \<in> set acts. conversation a \<longrightarrow> op_fits t content (unsent \<union> new_requests acts) p' a) \<and>
    (\<not> conversation act \<longrightarrow> p' = p \<and> acts = [])"
proof (cases e)
  case (Connected ec)
  with ev act show ?thesis
    using w by (auto simp: honest_event_def completes_def async_handshake_write_def intro!: effect_same)
next
  case (HandshakeWritten ec)
  with ev act w show ?thesis
    by (auto simp: honest_event_def completes_def async_handshake_read_def Let_def idle_def
        split: action.splits intro!: effect_same)
next
  case (HandshakeRead ec dat)
  obtain h where h: "Handshake_parse (u_byte u) (u_hash u) (recv_buffer (received dat p)) = Some h"
    using Handshake_parse_total [of "u_hash u" "u_byte u"] assms(6) by (auto simp: uninit_ok_def)
  obtain msg where msg: "serialize interested = Some msg" by (simp add: serialize_def interested_def)
  let ?p = "(received dat p)\<lparr>peer_id := hs_peer_id h, recv_buffer := resize 4 (recv_buffer (received dat p))\<rparr>"
  have res: "handle c u pop e p =
      Some (?p, [PushResult (ResultPeerConnected (peer_addr p)), WriteMessage msg, ReadLength])"
    using ev by (simp add: HandshakeRead honest_event_def async_next_def async_read_message_def h msg Let_def)
      (simp add: received_def)
  obtain n where "act = ReadHandshake n" using act by (auto simp: HandshakeRead completes_def split: action.splits)
  moreover have "honest_effect t content pop 5 p ?p
      [PushResult (ResultPeerConnected (peer_addr p)), WriteMessage msg, ReadLength]"
    using w by (intro effect_same) (simp_all add: carries_def received_def)
  ultimately show ?thesis using res by simp
next
  case (LengthRead ec dat)
  with ev act have [simp]: "act = ReadLength" "ec = False" by (auto simp: honest_event_def completes_def)
  from ev obtain body where says: "seeder_says t content unsent p body" and dat: "dat = be32 (word_of_nat (length body))"
    by (auto simp: LengthRead honest_event_def)
  let ?p = "p\<lparr>recv_buffer := resize (length body) (be32 (word_of_nat (length body)))\<rparr>"
  have "handle c u pop e p = Some (?p, [ReadBody (length body)])"
    using honest_length [OF says _ w] fits by (simp add: LengthRead dat)
  moreover have "honest_effect t content pop 2 p ?p [ReadBody (length body)]"
    using w by (intro effect_same) simp_all
  ultimately show ?thesis using says by (auto simp: new_requests_def)
next
  case (BodyRead ec dat)
  with ev act obtain n where [simp]: "act = ReadBody n" "ec = False" and n: "length dat = n"
    by (auto simp: honest_event_def completes_def fills_def split: action.splits)
  have says: "seeder_says t content unsent p dat" using ev by (simp add: BodyRead honest_event_def)
  let ?p = "p\<lparr>recv_buffer := dat\<rparr>"
  have rec: "received dat p = ?p" using fits n by (intro received_all) simp
  obtain p' acts where r: "async_handle_message c u pop ?p = Some (p', acts)" "honest_effect t content pop 1 ?p p' acts"
    "talks acts = 1" "ReadLength \<in> set acts" "length (recv_buffer p') = 4"
    using seeded_message [OF assms(1), of ?p unsent u pop c] w says assms(3,6) pop c by auto
  have "op_fits t content (unsent \<union> new_requests acts) p' a" if "a \<in> set acts" "conversation a" for a
    using only_conversation [OF r(3) that r(4)] r(5) by simp
  moreover have "honest_effect t content pop 1 p p' acts" using r(2) by (simp add: honest_effect_def)
  ultimately show ?thesis using r(1,3) by (simp add: BodyRead rec body_read_def)
next
  case (TimerFired ec a)
  with ev act w show ?thesis
    by (auto simp: honest_event_def completes_def timer_fired_def intro!: effect_same)
next
  case (MessageWritten ec)
  with ev act w show ?thesis
    by (auto simp: honest_event_def completes_def split: action.splits intro!: effect_same)
next
  case (RequestWritten ec a)
  with ev act w show ?thesis
    by (auto simp: honest_event_def completes_def request_written_def split: action.splits intro!: effect_same)
qed

section \<open>The sender always has something to say\<close>

text \<open>Unless every request has been answered and the queue was empty.\<close>

definition full_bitfield :: "torrent \<Rightarrow> bytes" where
  "full_bitfield t = replicate (Suc (unat (pieces t) div 8)) 255"

lemma announces_full: "announces t (bitfield_copy_from (full_bitfield t))"
proof -
  have "bitfield_get (bitfield_copy_from (full_bitfield t)) (unat i)" if "i < pieces t" for i
  proof -
    have "unat i < unat (pieces t)" using that by (simp add: word_less_nat_alt)
    then have lt: "unat i < 8 * length (full_bitfield t)" by (simp add: full_bitfield_def)
    moreover have "unat i div 8 < length (full_bitfield t)" using lt by (simp add: less_mult_imp_div_less mult.commute)
    then have "full_bitfield t ! (unat i div 8) = 255" by (simp add: full_bitfield_def del: replicate_Suc)
    moreover have "bit (mask 8 :: byte) (7 - unat i mod 8)"
      unfolding bit_mask_iff by simp
    then have "bit (255 :: byte) (7 - unat i mod 8)" by (simp add: mask_eq_exp_minus_1)
    ultimately show ?thesis using bitfield_nth [OF lt] by (simp add: bitfield_get_def length_bitfield)
  qed
  then show ?thesis by (simp add: announces_def)
qed

lemma seeder_next:
  assumes "waiting t content p" and "\<not> idle p" and "\<And>k a. (k, a) \<in> set (pending p) \<Longrightarrow> a \<notin> unsent"
  shows "\<exists>body. seeder_says t content unsent p body"
proof -
  have s: "seeded t content p" using assms(1) by (simp add: waiting_def)
  consider "available_pieces p = []" | "available_pieces p \<noteq> []" "choked p"
    | q where "available_pieces p \<noteq> []" "\<not> choked p" "cur_piece p = Some q"
    using assms(2) s by (auto simp: idle_def seeded_def)
  then show ?thesis
  proof cases
    case 1
    have "length (full_bitfield t) < 2 ^ 32 - 1"
      using unat_bounds(3) [of "pieces t"] by (simp add: full_bitfield_def)
    with 1 show ?thesis
      by (intro exI [of _ "type_code Bitfield # full_bitfield t"]) (simp add: seeder_says_def announces_full)
  next
    case 2
    then show ?thesis by (intro exI [of _ "[type_code Unchoke]"]) (simp add: seeder_says_def)
  next
    case 3
    then have "pending p \<noteq> []" using assms(1) by (simp add: waiting_def)
    then obtain k a where ka: "(k, a) \<in> set (pending p)" by (metis list.set_intros(1) neq_Nil_conv surj_pair)
    let ?body = "type_code PieceMsg # honest_payload (piece_content t content (index q)) q (unat k)"
    have "length ?body < 2 ^ 32"
      using length_slice [of BLOCK_SIZE "unat k" "piece_content t content (index q)"]
      by (simp add: honest_payload_def accept_header_def BLOCK_SIZE_def)
    with 3 ka assms(3) show ?thesis
      by (intro exI [of _ ?body]) (auto simp: seeder_says_def simp del: type_code.simps)
  qed
qed

lemma honest_completion:
  assumes "op_fits t content unsent p act" and "act = ReadLength \<Longrightarrow> \<exists>body. seeder_says t content unsent p body"
    and "conversation act \<or> (\<exists>msg. act = WriteMessage msg) \<or> (\<exists>msg a. act = WriteRequest msg a)"
  shows "\<exists>e. completes act e \<and> honest_event t content unsent p e"
proof (cases act)
  case AsyncConnect
  then show ?thesis by (intro exI [of _ "Connected False"]) (simp add: completes_def honest_event_def)
next
  case (WriteHandshake x)
  then show ?thesis by (intro exI [of _ "HandshakeWritten False"]) (simp add: completes_def honest_event_def)
next
  case (ReadHandshake n)
  then show ?thesis
    by (intro exI [of _ "HandshakeRead False (replicate n 0)"]) (simp add: completes_def fills_def honest_event_def)
next
  case ReadLength
  then obtain body where "seeder_says t content unsent p body" using assms(2) by blast
  then show ?thesis
    by (intro exI [of _ "LengthRead False (be32 (word_of_nat (length body)))"])
      (auto simp: completes_def fills_def honest_event_def ReadLength)
next
  case (ReadBody n)
  then obtain body where "seeder_says t content unsent p body" "length body = n" using assms(1) by auto
  then show ?thesis
    by (intro exI [of _ "BodyRead False body"]) (auto simp: completes_def fills_def honest_event_def ReadBody)
next
  case (WriteMessage msg)
  then show ?thesis by (intro exI [of _ "MessageWritten False"]) (simp add: completes_def honest_event_def)
next
  case (WriteRequest msg a)
  then show ?thesis by (intro exI [of _ "RequestWritten False a"]) (simp add: completes_def honest_event_def)
qed (use assms(3) in simp_all)

end
