(* ===== verification/Liveness.thy ===== *)
theory Liveness
  imports Seeder
begin

text \<open>
  The whole program among honest seeders: any number of peers that have the content and
  answer every request, with the completions of all operations and the steps of the monitor
  in any order. Every such run is finite, with a bound that is linear in the number of blocks
  and of peers, and when nothing is left to happen the download is complete.
\<close>

section \<open>Honest steps\<close>

definition unsent :: "nat \<Rightarrow> system \<Rightarrow> addr set" where
  "unsent i s = {a. \<exists>msg. (i, WriteRequest msg a) \<in># ops s}"

text \<open>The work queue gives out one of its elements, and fails only when it is empty.\<close>

definition pops_from :: "u32 option \<Rightarrow> u32 multiset \<Rightarrow> bool" where
  "pops_from pop w \<longleftrightarrow> (case pop of None \<Rightarrow> w = {#} | Some x \<Rightarrow> x \<in># w)"

text \<open>The steps of the program in which the environment behaves.\<close>

inductive honest_step :: "torrent \<Rightarrow> bytes \<Rightarrow> system \<Rightarrow> system \<Rightarrow> bool" for t content where
  handler: "(i, act) \<in># ops s \<Longrightarrow> completes act e \<Longrightarrow>
    honest_event t content (unsent i s) (conns s ! i) e \<Longrightarrow> uninit_ok t u \<Longrightarrow> pops_from pop (work s) \<Longrightarrow>
    handle (main_ctx t) u pop e (conns s ! i) = Some (p, acts) \<Longrightarrow>
    perform i acts (s\<lparr>conns := (conns s)[i := p], ops := ops s - {#(i, act)#}\<rparr>) = Some s' \<Longrightarrow>
    honest_step t content s s'"
| result: "\<not> complete (mon s) \<Longrightarrow> queue s = a @ r # b \<Longrightarrow>
    honest_step t content s (s\<lparr>queue := a @ b, taken := taken s @ [r], mon := visit r (mon s)\<rparr>)"

inductive_cases honest_step_cases: "honest_step t content s s'"

lemma main_ctx_tor [simp]: "ctx_tor (main_ctx t) = t"
  by (simp add: main_ctx_def)

lemma honest_step_sys: "honest_step t content s s' \<Longrightarrow> sys_step (main_ctx t) s s'"
  by (erule honest_step_cases) (auto intro: sys_step.intros)

section \<open>The invariant and the measure\<close>

definition honest_inv :: "torrent \<Rightarrow> bytes \<Rightarrow> system \<Rightarrow> bool" where
  "honest_inv t content s \<longleftrightarrow>
     reachable t s \<and> conns s \<noteq> [] \<and>
     (\<forall>i < length (conns s). waiting t content (conns s ! i) \<and> talking i s = 1 \<and>
        (idle (conns s ! i) \<longrightarrow> work s = {#})) \<and>
     (\<forall>(i, act) \<in># ops s. op_fits t content (unsent i s) (conns s ! i) act) \<and>
     carries t content (queue s @ taken s)"

definition op_costs :: "system \<Rightarrow> nat" where
  "op_costs s = (\<Sum>x \<in># ops s. op_cost (snd x))"

definition effort :: "torrent \<Rightarrow> system \<Rightarrow> nat" where
  "effort t s = sum_list (map potential (conns s)) + op_costs s + piece_cost t * size (work s) + length (queue s)"

lemma perform1_cost:
  "perform1 i a s = Some s' \<Longrightarrow> op_costs s' + length (queue s') = op_costs s + length (queue s) + op_cost a"
  by (induction i a s rule: perform1.induct) (auto simp: op_costs_def split: if_splits)

lemma perform_cost:
  "perform i acts s = Some s' \<Longrightarrow> op_costs s' + length (queue s') = op_costs s + length (queue s) + cost acts"
proof (induction i acts s rule: perform.induct)
  case (2 i a acts s)
  then obtain s1 where s1: "perform1 i a s = Some s1" "perform i acts s1 = Some s'"
    by (auto split: option.splits)
  with 2(1) [OF s1] perform1_cost [OF s1(1)] show ?case by simp
qed simp

lemma op_costs_taken:
  assumes "(i, act) \<in># ops s"
  shows "op_costs (s\<lparr>conns := cs, ops := ops s - {#(i, act)#}\<rparr>) + op_cost act = op_costs s"
proof -
  obtain os where "ops s = add_mset (i, act) os" using assms by (metis insert_DiffM)
  then show ?thesis by (simp add: op_costs_def)
qed

text \<open>Performing fails only when an index is popped that the queue does not hold.\<close>

lemma perform_defined:
  "mset (popped acts) \<subseteq># work s \<Longrightarrow> \<exists>s'. perform i acts s = Some s'"
proof (induction i acts s rule: perform.induct)
  case (2 i a acts s)
  have "\<exists>s1. perform1 i a s = Some s1 \<and> mset (popped acts) \<subseteq># work s1"
    using 2(2) by (induction i a s rule: perform1.induct)
      (auto simp: insert_subset_eq_iff subset_mset.add_increasing2 intro: subset_mset.trans)
  then obtain s1 where "perform1 i a s = Some s1" "mset (popped acts) \<subseteq># work s1" by blast
  with 2(1) show ?case by auto
qed simp

section \<open>A handler\<close>

text \<open>What the invariant gives for the peer whose operation completes.\<close>

lemma honest_inv_peer:
  assumes "honest_inv t content s" and "(i, act) \<in># ops s"
  shows "i < length (conns s)" and "waiting t content (conns s ! i)" and "peer_inv t (conns s ! i)"
    and "op_fits t content (unsent i s) (conns s ! i) act"
proof -
  have inv: "sys_inv t s" using assms(1) by (simp add: honest_inv_def reachable_inv)
  then have "op_ok s i act" using assms(2) by (auto simp: sys_inv_def)
  then show i: "i < length (conns s)" by (simp add: op_ok_def)
  with inv show "peer_inv t (conns s ! i)" by (auto simp: sys_inv_def)
  show "waiting t content (conns s ! i)" "op_fits t content (unsent i s) (conns s ! i) act"
    using assms i by (auto simp: honest_inv_def)
qed

lemma pops_from_piece:
  assumes "honest_inv t content s" and "pops_from pop (work s)"
  shows "\<forall>x. pop = Some x \<longrightarrow> x < pieces t"
proof (intro allI impI)
  fix x
  assume "pop = Some x"
  then have "x \<in># accounted s" using assms(2) by (simp add: pops_from_def accounted_def)
  moreover have "sys_inv t s" using assms(1) by (simp add: honest_inv_def reachable_inv)
  ultimately show "x < pieces t" by (simp add: accounted_member)
qed

lemma honest_handler:
  assumes "seeds t content" and "honest_inv t content s" and "(i, act) \<in># ops s" and "completes act e"
    and "honest_event t content (unsent i s) (conns s ! i) e" and "uninit_ok t u" and "pops_from pop (work s)"
  shows "\<exists>p acts. handle (main_ctx t) u pop e (conns s ! i) = Some (p, acts) \<and>
    honest_effect t content pop (op_cost act) (conns s ! i) p acts \<and>
    talks acts = (if conversation act then 1 else 0) \<and>
    (\<forall>a \<in> set acts. conversation a \<longrightarrow> op_fits t content (unsent i s \<union> new_requests acts) p a) \<and>
    (\<not> conversation act \<longrightarrow> p = conns s ! i \<and> acts = [])"
proof -
  note peer = honest_inv_peer [OF assms(2,3)]
  show ?thesis
    by (rule honest_handle [OF assms(1) peer(2,3) assms(5,4,6) pops_from_piece [OF assms(2,7)] main_ctx_tor peer(4)])
qed

lemma unsent_perform:
  assumes "perform i acts (s\<lparr>conns := cs, ops := ops s - {#(i, act)#}\<rparr>) = Some s'"
  shows "unsent j s' \<subseteq> unsent j s \<union> (if i = j then new_requests acts else {})"
proof -
  have "set_mset (ops s') \<subseteq> set_mset (ops s - {#(i, act)#}) \<union> Pair i ` set acts"
    using perform_effect(6) [OF assms] by simp
  moreover have "set_mset (ops s - {#(i, act)#}) \<subseteq> set_mset (ops s)" by (auto dest: in_diffD)
  ultimately have "(j, WriteRequest msg a) \<in># ops s' \<Longrightarrow>
      (j, WriteRequest msg a) \<in># ops s \<or> (i = j \<and> WriteRequest msg a \<in> set acts)" for msg a by blast
  then show ?thesis by (auto simp: unsent_def new_requests_def)
qed

text \<open>Of the operations of a peer only one belongs to the conversation.\<close>

lemma one_conversation:
  assumes "talking i s = 1" and "(i, act) \<in># ops s" "conversation act"
    and "(i, a) \<in># ops s - {#(i, act)#}"
  shows "\<not> conversation a"
proof
  assume "conversation a"
  obtain os where os: "ops s = add_mset (i, act) os" using assms(2) by (metis insert_DiffM)
  with assms(4) obtain os' where "os = add_mset (i, a) os'" by (metis add_mset_remove_trivial insert_DiffM)
  with os \<open>conversation a\<close> assms(1,3) show False by (simp add: talking_def)
qed

lemma op_fits_quiet: "\<not> conversation a \<Longrightarrow> op_fits t content un p a"
  by (cases a) simp_all

lemma honest_handler_step:
  assumes "seeds t content" and inv: "honest_inv t content s" and op: "(i, act) \<in># ops s"
    and h: "honest_effect t content pop (op_cost act) (conns s ! i) p acts"
    and talks: "talks acts = (if conversation act then 1 else 0)"
    and fits: "\<And>a. a \<in> set acts \<Longrightarrow> conversation a \<Longrightarrow> op_fits t content (unsent i s \<union> new_requests acts) p a"
    and same: "\<not> conversation act \<Longrightarrow> p = conns s ! i \<and> acts = []"
    and pop: "pops_from pop (work s)"
    and perf: "perform i acts (s\<lparr>conns := (conns s)[i := p], ops := ops s - {#(i, act)#}\<rparr>) = Some s'"
    and reach: "reachable t s'"
  shows "honest_inv t content s'" and "effort t s' < effort t s"
proof -
  note peer = honest_inv_peer [OF inv op]
  note e = perform_effect [OF perf, simplified]
  have h: "waiting t content p" "idle p \<longrightarrow> idle (conns s ! i) \<or> pop = None" "pushed acts = []"
    "carries t content (results acts)"
    "potential p + cost acts < potential (conns s ! i) + op_cost act + piece_cost t * length (popped acts)"
    using h by (simp_all add: honest_effect_def)
  have work: "work s' + mset (popped acts) = work s" using e(1) h(3) by simp
  have old: "waiting t content (conns s ! j)" "talking j s = 1" "idle (conns s ! j) \<longrightarrow> work s = {#}"
    if "j < length (conns s)" for j using inv that by (auto simp: honest_inv_def)
  have old_ops: "op_fits t content (unsent j s) (conns s ! j) a" if "(j, a) \<in># ops s" for j a
    using inv that by (auto simp: honest_inv_def)
  have conn: "conns s' ! j = (if j = i then p else conns s ! j)" for j
    using peer(1) by (simp add: e(5) nth_list_update)
  have peers: "waiting t content (conns s' ! j) \<and> talking j s' = 1 \<and> (idle (conns s' ! j) \<longrightarrow> work s' = {#})"
    if j: "j < length (conns s')" for j
  proof -
    have j: "j < length (conns s)" using j by (simp add: e(5))
    have "talking j s' = talking j s"
      using perform_talking [OF perf, of j] talking_taken [OF op, of j "(conns s)[i := p]"] talks by auto
    moreover have "work s = {#} \<Longrightarrow> work s' = {#}" using work by auto
    moreover have "pop = None \<Longrightarrow> work s = {#}" using pop by (simp add: pops_from_def)
    ultimately show ?thesis using old [OF j] h(1,2) by (auto simp: conn)
  qed
  have ops: "op_fits t content (unsent j s') (conns s' ! j) a" if a: "(j, a) \<in># ops s'" for j a
  proof (cases "conversation a")
    case conv: True
    note un = unsent_perform [OF perf, of j]
    from a e(6) consider "(j, a) \<in># ops s - {#(i, act)#}" | "j = i" "a \<in> set acts" by auto
    then show ?thesis
    proof cases
      case 1
      then have "(j, a) \<in># ops s" by (rule in_diffD)
      note fits = old_ops [OF this]
      show ?thesis
      proof (cases "j = i")
        case True
        then have "\<not> conversation act"
          using one_conversation [OF old(2) [OF peer(1)] op] 1 conv by auto
        with same have "p = conns s ! i" "acts = []" by auto
        with un True fits show ?thesis by (auto simp: conn new_requests_def intro: op_fits_mono)
      qed (use un fits in \<open>auto simp: conn intro: op_fits_mono\<close>)
    next
      case 2
      with fits [OF 2(2) conv] un show ?thesis by (auto simp: conn intro: op_fits_mono)
    qed
  qed (rule op_fits_quiet)
  have "carries t content (queue s @ taken s)" using inv by (simp add: honest_inv_def)
  then have "carries t content (queue s' @ taken s')" using h(4) by (simp add: e(2,3))
  moreover have "conns s' \<noteq> []" using peer(1) by (auto simp: e(5))
  ultimately show "honest_inv t content s'"
    using reach peers ops by (auto simp: honest_inv_def)
  have "sum_list (map potential (conns s')) + potential (conns s ! i) = sum_list (map potential (conns s)) + potential p"
    unfolding e(5) by (rule sum_list_update_plus [OF peer(1)])
  moreover have "op_costs s' + length (queue s') + op_cost act = op_costs s + length (queue s) + cost acts"
    using perform_cost [OF perf] op_costs_taken [OF op, of "(conns s)[i := p]"] by simp
  moreover have "size (work s') + length (popped acts) = size (work s)" using arg_cong [OF work, of size] by simp
  then have "piece_cost t * size (work s') + piece_cost t * length (popped acts) = piece_cost t * size (work s)"
    by (metis distrib_left)
  ultimately show "effort t s' < effort t s" using h(5) unfolding effort_def by linarith
qed

lemma reachable_honest: "reachable t s \<Longrightarrow> honest_step t content s s' \<Longrightarrow> reachable t s'"
  by (blast intro: reachable_step honest_step_sys)

lemma honest_step_keeps:
  assumes "seeds t content" and "honest_inv t content s" and step: "honest_step t content s s'"
  shows "honest_inv t content s' \<and> effort t s' < effort t s"
  using step
proof (cases rule: honest_step.cases)
  case (handler i act e u pop p acts)
  from honest_handler [OF assms(1,2) handler(1-5)] handler(6)
  have eff: "honest_effect t content pop (op_cost act) (conns s ! i) p acts"
    "talks acts = (if conversation act then 1 else 0)"
    and fits: "\<forall>a \<in> set acts. conversation a \<longrightarrow> op_fits t content (unsent i s \<union> new_requests acts) p a"
    and same: "\<not> conversation act \<longrightarrow> p = conns s ! i \<and> acts = []" by auto
  have "reachable t s'" using assms(2) step by (auto simp: honest_inv_def intro: reachable_honest)
  then show ?thesis
    using honest_handler_step [OF assms(1,2) handler(1) eff _ _ handler(5,7)] fits same by blast
next
  case (result a r b)
  have "reachable t s'" using assms(2) step by (auto simp: honest_inv_def intro: reachable_honest)
  moreover have "carries t content (queue s' @ taken s')"
    using assms(2) by (simp add: honest_inv_def result) (auto simp: carries_def)
  ultimately show ?thesis
    using assms(2) by (auto simp: honest_inv_def effort_def op_costs_def talking_def unsent_def result)
qed

section \<open>The run goes on until the download is complete\<close>

definition some_uninit :: "torrent \<Rightarrow> uninit" where
  "some_uninit t = \<lparr>u_byte = 0, u_hash = replicate HASH_SIZE 0, u_word1 = 0, u_word2 = 0,
     u_array = replicate (unat (piece_length t)) 0\<rparr>"

lemma subset_single:
  assumes "length xs \<le> 1" and "set xs \<subseteq> set_option pop" and "pops_from pop w"
  shows "mset xs \<subseteq># w"
  using assms by (cases xs; cases pop) (auto simp: pops_from_def)

text \<open>An operation that an honest environment can complete gives a step.\<close>

lemma honest_moves:
  assumes "seeds t content" and "honest_inv t content s" and op: "(i, act) \<in># ops s"
    and ev: "completes act e" "honest_event t content (unsent i s) (conns s ! i) e"
  shows "\<exists>s'. honest_step t content s s'"
proof -
  have u: "uninit_ok t (some_uninit t)" by (simp add: uninit_ok_def some_uninit_def)
  obtain pop where pop: "pops_from pop (work s)"
  proof (cases "work s")
    case empty
    with that [of None] show ?thesis by (simp add: pops_from_def)
  next
    case (add x w)
    with that [of "Some x"] show ?thesis by (simp add: pops_from_def)
  qed
  from honest_handler [OF assms u pop] obtain p acts where
    h: "handle (main_ctx t) (some_uninit t) pop e (conns s ! i) = Some (p, acts)"
    and eff: "honest_effect t content pop (op_cost act) (conns s ! i) p acts" by blast
  have "mset (popped acts) \<subseteq># work s"
    using eff pop by (intro subset_single [of _ pop]) (simp_all add: honest_effect_def)
  with perform_defined [of acts "s\<lparr>conns := (conns s)[i := p], ops := ops s - {#(i, act)#}\<rparr>" i]
  obtain s' where "perform i acts (s\<lparr>conns := (conns s)[i := p], ops := ops s - {#(i, act)#}\<rparr>) = Some s'" by auto
  with honest_step.handler [OF op ev u pop h] show ?thesis by blast
qed

lemma talking_pos: "0 < talking i s \<longleftrightarrow> (\<exists>act. (i, act) \<in># ops s \<and> conversation act)"
proof
  assume "0 < talking i s"
  then obtain x where "x \<in># filter_mset (\<lambda>(j, a). j = i \<and> conversation a) (ops s)"
    by (auto simp: talking_def simp flip: nonempty_has_size dest: multiset_nonemptyE)
  then show "\<exists>act. (i, act) \<in># ops s \<and> conversation act" by auto
next
  assume "\<exists>act. (i, act) \<in># ops s \<and> conversation act"
  then obtain act where "(i, act) \<in># ops s" "conversation act" by blast
  then have "(i, act) \<in># filter_mset (\<lambda>(j, a). j = i \<and> conversation a) (ops s)" by simp
  then show "0 < talking i s"
    unfolding talking_def by (metis nonempty_has_size empty_not_add_mset insert_DiffM)
qed

lemma stuck_idle:
  assumes "seeds t content" and inv: "honest_inv t content s" and stuck: "\<And>s'. \<not> honest_step t content s s'"
    and i: "i < length (conns s)"
  shows "idle (conns s ! i)"
proof (rule ccontr)
  assume busy: "\<not> idle (conns s ! i)"
  have none: "\<not> (completes act e \<and> honest_event t content (unsent i s) (conns s ! i) e)"
    if "(i, act) \<in># ops s" for act e
    using honest_moves [OF assms(1,2) that] stuck by blast
  note fits = honest_inv_peer(4) [OF inv]
  have "(i, WriteRequest msg a) \<notin># ops s" for msg a
    using none honest_completion [OF fits, of i "WriteRequest msg a"] by blast
  then have unsent: "unsent i s = {}" by (auto simp: unsent_def)
  have "waiting t content (conns s ! i)" "talking i s = 1" using inv i by (auto simp: honest_inv_def)
  with seeder_next [OF _ busy] unsent have "\<exists>body. seeder_says t content (unsent i s) (conns s ! i) body" by simp
  moreover obtain act where "(i, act) \<in># ops s" "conversation act"
    using \<open>talking i s = 1\<close> talking_pos [of i s] by auto
  ultimately show False using none honest_completion [OF fits] by metis
qed

lemma results_complete:
  assumes "results_ok t rs" and "mset (map cp_index (completed rs)) = mset (all_pieces t)"
  shows "complete (fold visit rs (MonitorVisitor t))"
proof -
  have "cp_index ` set (completed rs) = set (all_pieces t)" using assms(2) by (metis mset_eq_setD set_map)
  then show ?thesis
    using visit_fold [OF assms(1) MonitorVisitor_fields(1)]
    by (auto simp: visited_def complete_def MonitorVisitor_def all_pieces_def)
qed

lemma stuck_complete:
  assumes "seeds t content" and inv: "honest_inv t content s" and stuck: "\<And>s'. \<not> honest_step t content s s'"
  shows "complete (mon s)"
proof (rule ccontr)
  assume c: "\<not> complete (mon s)"
  have sys: "sys_inv t s" using inv by (simp add: honest_inv_def reachable_inv)
  note idle = stuck_idle [OF assms(1) inv stuck]
  have "queue s = []"
    using stuck honest_step.result [OF c, of "[]"] by (cases "queue s") auto
  moreover have "work s = {#}" using inv idle [of 0] by (auto simp: honest_inv_def)
  moreover have "held p = {#}" if "p \<in> set (conns s)" for p
    using idle that by (auto simp: idle_def held_def in_set_conv_nth)
  then have "sum_list (map held (conns s)) = (\<Sum>p \<leftarrow> conns s. {#})" by (metis (no_types, lifting) map_eq_conv)
  ultimately have "mset (map cp_index (completed (taken s))) = mset (all_pieces t)"
    using sys by (simp add: sys_inv_def accounted_def)
  then have "complete (fold visit (taken s) (MonitorVisitor t))"
    using sys_inv_results_ok(2) [OF sys] by (intro results_complete) simp_all
  with sys c show False by (simp add: sys_inv_def)
qed

section \<open>From the start\<close>

lemma start_talks:
  assumes "j < length (peers r)"
  shows "talking j (start_run_connections t r) = 1"
proof -
  have "(j, AsyncConnect) \<in># ops (start_run_connections t r)"
    using assms by (auto simp: start_run_connections_def)
  then have "0 < talking j (start_run_connections t r)" by (auto simp: talking_pos)
  with start_talking [of j t r] show ?thesis by simp
qed

lemma start_honest:
  assumes "length (info_hash t) = HASH_SIZE" and "peers r \<noteq> []"
  shows "honest_inv t content (start_run_connections t r)"
proof -
  have "reachable t (start_run_connections t r)" using assms(1) by (auto simp: reachable_def)
  moreover have p: "conns (start_run_connections t r) ! i = fst (Peer (peers r ! i))" if "i < length (peers r)" for i
    using that by (simp add: start_run_connections_def)
  moreover have "length (conns (start_run_connections t r)) = length (peers r)"
    by (simp add: start_run_connections_def)
  moreover have "waiting t content (fst (Peer a))" "\<not> idle (fst (Peer a))" for a
    by (simp_all add: Peer_def waiting_def seeded_def idle_def)
  moreover have "\<forall>(i, act) \<in># ops (start_run_connections t r). act = AsyncConnect"
    by (auto simp: start_run_connections_def)
  then have "\<forall>(i, act) \<in># ops (start_run_connections t r).
      op_fits t content (unsent i (start_run_connections t r)) (conns (start_run_connections t r) ! i) act"
    by auto
  ultimately show ?thesis
    using assms(2) start_talks by (auto simp: honest_inv_def) (auto simp: start_run_connections_def)
qed

lemma start_effort:
  "effort t (start_run_connections t r) =
     15 * length (peers r) + 6 * unat (block_count (Piece 0 (piece_length t))) * unat (pieces t)"
proof -
  have "potential (fst (Peer a)) = 8" for a by (simp add: Peer_def potential_def)
  then have "sum_list (map potential (map (\<lambda>a. fst (Peer a)) as)) = 8 * length as" for as
    by (induction as) simp_all
  moreover have "op_costs (start_run_connections t r) = 7 * length (peers r)"
    by (simp add: op_costs_def start_run_connections_def image_mset.compositionality comp_def)
  ultimately show ?thesis
    by (simp add: effort_def) (simp add: start_run_connections_def all_pieces_def piece_cost_def)
qed

interpretation seeding: converging_system
  "\<lambda>s. seeds t content \<and> length (info_hash t) = HASH_SIZE \<and> (\<exists>r. peers r \<noteq> [] \<and> s = start_run_connections t r)"
  "honest_step t content" "\<lambda>s. seeds t content \<and> honest_inv t content s" "effort t" "\<lambda>s. complete (mon s)"
  for t content
proof
  show "seeds t content \<and> honest_inv t content s"
    if "seeds t content \<and> length (info_hash t) = HASH_SIZE \<and> (\<exists>r. peers r \<noteq> [] \<and> s = start_run_connections t r)" for s
    using that start_honest by auto
  show "seeds t content \<and> honest_inv t content s'" if "seeds t content \<and> honest_inv t content s" "honest_step t content s s'" for s s'
    using that honest_step_keeps by blast
  show "effort t s' < effort t s" if "seeds t content \<and> honest_inv t content s" "honest_step t content s s'" for s s'
    using that honest_step_keeps by blast
  show "complete (mon s)" if "seeds t content \<and> honest_inv t content s" "\<And>s'. \<not> honest_step t content s s'" for s
    using that stuck_complete by blast
qed

text \<open>The file of a complete run is the content, up to the last whole piece.\<close>

lemma honest_file:
  assumes "honest_inv t content s" and "complete (mon s)"
  shows "out_file (mon s) =
    (let k = unat (pieces t) * unat (piece_length t)
     in take k content @ replicate (unat (file_length t) - k) 0)"
proof -
  have sys: "sys_inv t s" using assms(1) by (simp add: honest_inv_def reachable_inv)
  then have m: "mon s = fold visit (taken s) (MonitorVisitor t)" by (simp add: sys_inv_def)
  show ?thesis
    by (rule visits_content [OF sys_inv_results_ok(2) [OF sys] _ _ m])
      (use assms m in \<open>auto simp: honest_inv_def carries_def piece_content_def\<close>)
qed

end
