(* ===== verification/Standstill.thy ===== *)
theory Standstill
  imports Sample_Run
begin

text \<open>
  When the program stands still. A peer asks the work queue for a piece only in the handler of
  a message. A piece that is given back while the other connections only listen, or that a
  peer has given back itself because its first choice was not available, stays in the queue as
  long as nobody but the timers and the keepalive messages speaks.
\<close>

section \<open>Quiet steps\<close>

text \<open>Keepalive messages, lost connections, and every operation that is no read.\<close>

definition quiet_event :: "event \<Rightarrow> bool" where
  "quiet_event e \<longleftrightarrow>
     (case e of
        LengthRead ec dat \<Rightarrow> ec \<or> dat = be32 0
      | MessageWritten ec \<Rightarrow> True
      | RequestWritten ec a \<Rightarrow> True
      | TimerFired ec a \<Rightarrow> True
      | _ \<Rightarrow> False)"

inductive quiet_step :: "torrent \<Rightarrow> system \<Rightarrow> system \<Rightarrow> bool" for t where
  handler: "(i, act) \<in># ops s \<Longrightarrow> completes act e \<Longrightarrow> quiet_event e \<Longrightarrow> uninit_ok t u \<Longrightarrow>
    handle (main_ctx t) u pop e (conns s ! i) = Some (p, acts) \<Longrightarrow>
    perform i acts (s\<lparr>conns := (conns s)[i := p], ops := ops s - {#(i, act)#}\<rparr>) = Some s' \<Longrightarrow>
    quiet_step t s s'"
| result: "\<not> complete (mon s) \<Longrightarrow> queue s = a @ r # b \<Longrightarrow>
    quiet_step t s (s\<lparr>queue := a @ b, taken := taken s @ [r], mon := visit r (mon s)\<rparr>)"

inductive_cases quiet_step_cases: "quiet_step t s s'"

lemma quiet_step_sys: "quiet_step t s s' \<Longrightarrow> sys_step (main_ctx t) s s'"
  by (erule quiet_step_cases) (auto simp: main_ctx_def intro: sys_step.intros)

text \<open>No conversation is at another point than before the length of a message.\<close>

definition listening :: "system \<Rightarrow> bool" where
  "listening s \<longleftrightarrow> (\<forall>(i, act) \<in># ops s. conversation act \<longrightarrow> act = ReadLength)"

section \<open>Nothing is taken from the queue\<close>

lemma no_talk: "talks acts = 0 \<Longrightarrow> a \<in> set acts \<Longrightarrow> \<not> conversation a"
  by (auto simp: talks_def filter_empty_conv)

lemma close_only:
  "close p = (p', acts) \<Longrightarrow> popped acts = [] \<and> (\<forall>a \<in> set acts. \<not> conversation a)"
  using close_pops [of p] close_quiet [of p] no_talk [of acts] by auto

lemma keepalive: "async_read_len False (received (be32 0) p) = async_read_message (received (be32 0) p)"
proof -
  have "ntohl (load32 (be32 0 @ bs)) = 0" for bs by (simp only: ntohl_load32_append [OF length_be32] load_be32_be32_exact)
  then show ?thesis by (simp add: async_read_len_def received_def overlay_def)
qed

lemma quiet_handle:
  assumes "handle c u pop e p = Some (p', acts)" and "quiet_event e"
  shows "popped acts = [] \<and> (\<forall>a \<in> set acts. conversation a \<longrightarrow> a = ReadLength)"
proof (cases e)
  case (LengthRead ec dat)
  with assms show ?thesis using close_only [of "received dat p" p' acts] keepalive [of p]
    by (cases ec) (auto simp: quiet_event_def async_read_message_def async_read_len_def Let_def)
next
  case (TimerFired ec a)
  with assms show ?thesis using close_only [of "p\<lparr>closed := True\<rparr>" p' acts]
    by (auto simp: timer_fired_def split: if_splits)
qed (use assms in \<open>auto simp: quiet_event_def request_written_def split: if_splits\<close>)

lemma quiet_step_keeps:
  assumes "quiet_step t s s'"
  shows "work s \<subseteq># work s' \<and> (listening s \<longrightarrow> listening s')"
  using assms
proof (cases rule: quiet_step.cases)
  case (handler i act e u pop p acts)
  note h = quiet_handle [OF handler(5,3)] and e = perform_effect [OF handler(6), simplified]
  have "work s' = work s + mset (pushed acts)" using e(1) h by simp
  moreover have "listening s'" if "listening s"
    using that e(6) h in_diffD [of _ "ops s" "{#(i, act)#}"] by (fastforce simp: listening_def)
  ultimately show ?thesis by simp
qed (simp add: listening_def)

text \<open>A piece that waits in the queue is held by no peer and has not been written.\<close>

lemma waiting_once:
  assumes "sys_inv t s" and "x \<in># work s"
  shows "x \<notin># sum_list (map held (conns s))" and "x \<notin> cp_index ` set (completed (taken s))"
proof -
  have "count (accounted s) x \<le> 1"
    using assms(1) distinct_all_pieces [of t] by (simp add: sys_inv_def distinct_count_atmost_1)
  moreover have "0 < count (work s) x" using assms(2) by simp
  ultimately have "count (sum_list (map held (conns s))) x = 0"
    and "count (mset (map cp_index (completed (taken s)))) x = 0"
    unfolding accounted_def count_union by linarith+
  then show "x \<notin># sum_list (map held (conns s))" and "x \<notin> cp_index ` set (completed (taken s))"
    by (simp_all add: count_eq_zero_iff)
qed

lemma waiting_is_not_held: "sys_inv t s \<Longrightarrow> work s \<inter># sum_list (map held (conns s)) = {#}"
  unfolding disjunct_not_in using waiting_once(1) by blast

lemma waiting_is_missing:
  assumes "sys_inv t s" and "x \<in># work s"
  shows "x \<in> missing_pieces (mon s)"
proof -
  have "x \<in># accounted s" using assms(2) by (simp add: accounted_def)
  with assms(1) have "x \<in> missing_pieces (MonitorVisitor t)"
    by (simp add: accounted_member MonitorVisitor_fields(3))
  moreover have "mon s = fold visit (taken s) (MonitorVisitor t)" using assms(1) by (simp add: sys_inv_def)
  ultimately show ?thesis
    using visit_fold [OF sys_inv_results_ok(2) [OF assms(1)] MonitorVisitor_fields(1)] waiting_once(2) [OF assms]
    by (simp add: visited_def)
qed

interpretation standstill: transition_system
  "\<lambda>s. reachable t s \<and> listening s \<and> w \<subseteq># work s" "quiet_step t" "\<lambda>s. reachable t s \<and> listening s \<and> w \<subseteq># work s"
  for t w
proof
  show "reachable t s' \<and> listening s' \<and> w \<subseteq># work s'"
    if s: "reachable t s \<and> listening s \<and> w \<subseteq># work s" and step: "quiet_step t s s'" for s s'
  proof -
    have "reachable t s'" using reachable_step [OF _ quiet_step_sys [OF step]] s by blast
    moreover have "w \<subseteq># work s'" using s quiet_step_keeps [OF step] by (blast intro: subset_mset.trans)
    ultimately show ?thesis using s quiet_step_keeps [OF step] by blast
  qed
qed

section \<open>A peer that has given up\<close>

text \<open>
  The peer has the second piece of two. It is offered the first one, puts it back and waits
  for a message.
\<close>

definition second_bits :: bitfield where
  "second_bits = bitfield_copy_from [64]"

lemma second_bits_facts: "\<not> second_bits ! 0" "second_bits ! 1" "length second_bits = 8" "second_bits \<noteq> []"
proof -
  show "length second_bits = 8" by (simp add: second_bits_def length_bitfield)
  then show "second_bits \<noteq> []" by auto
  have "\<not> bit (64 :: byte) 7" "bit (64 :: byte) 6" by simp_all
  then show "\<not> second_bits ! 0" "second_bits ! 1" by (simp_all add: second_bits_def bitfield_nth)
qed

lemma gives_up:
  "async_download c (Some 0) (sample_peer buf pid False second_bits None [] []) [] =
    Some (sample_peer buf pid False second_bits None [] [], [PopWork (Some 0), PushWork 0])"
proof -
  have "download_step c (Some 0) (sample_peer buf pid False second_bits None [] []) =
      Some (Inl (sample_peer buf pid False second_bits None [] [], [PopWork (Some 0), PushWork 0]))"
    using second_bits_facts
    by (simp add: download_step_def acquire_def bitfield_get_def release_piece_def PIPELINE_LIMIT_def Let_def)
  from async_download_step(1) [OF this] show ?thesis by simp
qed

lemma second_messages:
  "length buf = 2 \<Longrightarrow> handle c u pop (BodyRead False [5, 64]) (sample_peer buf pid True [] None [] []) =
    Some (sample_peer (resize 4 [5, 64]) pid True second_bits None [] [], [ReadLength])"
  "length buf = 1 \<Longrightarrow> handle c u (Some 0) (BodyRead False [1]) (sample_peer buf pid True second_bits None [] []) =
    Some (sample_peer (resize 4 [1]) pid False second_bits None [] [], [PopWork (Some 0), PushWork 0, ReadLength])"
  by (simp_all add: body_read_def async_handle_message_def Message_def try_from_def choked_stalled gives_up
      async_read_message_def second_bits_def [symmetric])

lemma given_up:
  "\<exists>pid msg. underway block_torrent
     (sample_state (sample_peer (resize 4 [1]) pid False second_bits None [] [])
       {#(0, ReadLength), (0, WriteMessage msg)#} {#0, 1#} [ResultPeerConnected sample_addr] [] (MonitorVisitor block_torrent))"
proof -
  let ?m = "MonitorVisitor block_torrent"
  note u = block_torrent_facts(3) [of 0]
  have h: "length (info_hash block_torrent) = HASH_SIZE" by (simp add: block_torrent_def HASH_SIZE_def)
  have w: "mset (all_pieces block_torrent) = {#0, 1#}"
    by (simp add: all_pieces_def block_torrent_def pieces_def upt_rec)
  obtain pid msg where r3: "underway block_torrent
     (sample_state (sample_peer (resize 4 (own_handshake block_torrent)) pid True [] None [] [])
       {#(0, ReadLength), (0, WriteMessage msg)#} {#0, 1#} [ResultPeerConnected sample_addr] [] ?m)"
    using underway_connected [OF h u] unfolding w by blast
  have r4: "underway block_torrent
     (sample_state (sample_peer (resize 4 [5, 64]) pid True second_bits None [] [])
       {#(0, ReadLength), (0, WriteMessage msg)#} {#0, 1#} [ResultPeerConnected sample_addr] [] ?m)"
    by (rule underway_message [OF r3 u, where n = 2 and body = "[5, 64]", OF _ _ _ second_messages(1)])
      (simp_all add: sample_state_def)
  have "underway block_torrent
     (sample_state (sample_peer (resize 4 [1]) pid False second_bits None [] [])
       {#(0, ReadLength), (0, WriteMessage msg)#} {#0, 1#} [ResultPeerConnected sample_addr] [] ?m)"
    by (rule underway_message [OF r4 u, where n = 1 and body = "[1]", OF _ _ _ second_messages(2)])
      (simp_all add: sample_state_def)
  then show ?thesis by blast
qed

end
