(* ===== verification/Receiver.thy ===== *)
theory Receiver
  imports Conversation
begin

text \<open>
  A peer that reads a stream of bytes: the handlers of its two reads, one after the other, as
  often as there are bytes. \<open>hear\<close> gives the message that is handled next; by \<open>hear_frames\<close> it
  cuts every stream as \<open>dec_message\<close> does, and by \<open>hear_all_heard\<close> a peer in a good state hears
  exactly the messages that the other side has serialized.
\<close>

section \<open>One message\<close>

text \<open>
  The message, what its handler does, and the bytes that have not been read. A keepalive makes
  the first handler start the same read again.
\<close>

function hear :: "ctx \<Rightarrow> uninit \<Rightarrow> u32 option \<Rightarrow> peer \<Rightarrow> bytes \<Rightarrow>
    (message \<times> (peer \<times> action list) option \<times> bytes) option" where
  "hear c u pop p s =
     (if length s < 4 then None
      else
        (case handle c u pop (LengthRead False (take 4 s)) p of
           Some (p, [ReadLength]) \<Rightarrow> hear c u pop p (drop 4 s)
         | Some (p, [ReadBody n]) \<Rightarrow>
             (let body = take n (drop 4 s)
              in if length body < n then None
                 else
                   (case Message (recv_buffer (received body p)) of
                      None \<Rightarrow> None
                    | Some m \<Rightarrow> Some (m, handle c u pop (BodyRead False body) p, drop (4 + n) s)))
         | _ \<Rightarrow> None))"
  by pat_completeness auto
termination
  by (relation "measure (\<lambda>(c, u, pop, p, s). length s)") auto

declare hear.simps [simp del]

lemma read_length_handler:
  assumes "length (recv_buffer p) = 4" and "4 \<le> length s"
  defines "n \<equiv> unat (ntohl (load32 s))"
  shows "handle c u pop (LengthRead False (take 4 s)) p =
    Some (if n = 0 then (p\<lparr>recv_buffer := take 4 s\<rparr>, [ReadLength])
      else (p\<lparr>recv_buffer := resize n (take 4 s)\<rparr>, [ReadBody n]))"
proof -
  have "length (take 4 s) = 4" using assms(2) by simp
  from ntohl_load32_append [OF this, of "[]"] ntohl_load32_append [OF this, of "drop 4 s"]
  have "ntohl (load32 (take 4 s)) = ntohl (load32 s)" by simp
  moreover have "received (take 4 s) p = p\<lparr>recv_buffer := take 4 s\<rparr>"
    using assms(1,2) by (simp add: received_def overlay_def)
  moreover have "resize 4 (take 4 s) = take 4 s" using assms(2) by (simp add: resize_def)
  ultimately show ?thesis
    by (simp add: async_read_len_def async_read_message_def n_def Let_def unat_eq_zero)
qed

text \<open>The handlers cut the stream where the protocol does.\<close>

lemma hear_frames:
  assumes "length (recv_buffer p) = 4"
  shows "map_option (\<lambda>(m, h, r). (m, r)) (hear c u pop p s) = dec_message s"
  using assms
proof (induction s arbitrary: p rule: dec_message.induct)
  case (1 s)
  show ?case
  proof (cases "length s < 4")
    case True
    then show ?thesis by (simp add: hear.simps dec_message.simps)
  next
    case False
    let ?n = "unat (ntohl (load32 s))"
    note h = read_length_handler [OF 1(2), of s]
    show ?thesis
    proof (cases "?n = 0")
      case True
      have "hear c u pop p s = hear c u pop (p\<lparr>recv_buffer := take 4 s\<rparr>) (drop 4 s)"
        using False True h by (simp add: hear.simps [of c u pop p s])
      moreover have "dec_message s = dec_message (drop 4 s)"
        using False True by (simp add: dec_message.simps [of s])
      ultimately show ?thesis using 1(1) [OF False refl True, of "p\<lparr>recv_buffer := take 4 s\<rparr>"] False by simp
    next
      case n: False
      have "received (take ?n (drop 4 s)) (p\<lparr>recv_buffer := resize ?n (take 4 s)\<rparr>) =
          p\<lparr>recv_buffer := take ?n (drop 4 s)\<rparr>" if "4 + ?n \<le> length s"
        using that by (simp add: received_def overlay_def)
      then show ?thesis
        using False n h
        by (auto simp: hear.simps [of c u pop p s] dec_message.simps [of s] Let_def not_less
            split: option.split)
    qed
  qed
qed

section \<open>A stream of messages\<close>

text \<open>
  The messages that are heard one after the other, each with the answer of the queue and the
  uninitialised locals of its handler. \<open>None\<close>: a handler is undefined, or does not start the
  next read.
\<close>

fun hear_all :: "ctx \<Rightarrow> (uninit \<times> u32 option) list \<Rightarrow> peer \<Rightarrow> bytes \<Rightarrow> (message list \<times> peer \<times> bytes) option" where
  "hear_all c [] p s = Some ([], p, s)"
| "hear_all c ((u, pop) # es) p s =
     (case hear c u pop p s of
        Some (m, Some (p, acts), r) \<Rightarrow>
          if ReadLength \<in> set acts then
            (case hear_all c es p r of None \<Rightarrow> None | Some (ms, p, r) \<Rightarrow> Some (m # ms, p, r))
          else None
      | _ \<Rightarrow> None)"

text \<open>A peer that can handle any message.\<close>

definition listener :: "torrent \<Rightarrow> peer \<Rightarrow> bool" where
  "listener t p \<longleftrightarrow>
     peer_inv t p \<and> length (recv_buffer p) = 4 \<and> (\<forall>i \<in># held p. unat i < unat (pieces t))"

definition env_ok :: "torrent \<Rightarrow> uninit \<times> u32 option \<Rightarrow> bool" where
  "env_ok t e \<longleftrightarrow> uninit_ok t (fst e) \<and> (\<forall>i \<in> set_option (snd e). unat i < unat (pieces t))"

lemma message_handled:
  assumes "listener (ctx_tor c) p" and "torrent_ok (ctx_tor c)" and "env_ok (ctx_tor c) (u, pop)"
    and "Message (recv_buffer q) = Some m" "mtype m \<noteq> None" and q: "q = p\<lparr>recv_buffer := b\<rparr>" "length b < 2 ^ 32"
  shows "\<exists>p' acts. async_handle_message c u pop q = Some (p', acts) \<and> ReadLength \<in> set acts \<and> listener (ctx_tor c) p'"
proof -
  let ?t = "ctx_tor c"
  have inv: "peer_inv ?t q" and held: "held q = held p" and "buffer_ok q"
    using assms(1) q(2) by (simp_all add: q(1) listener_def buffer_ok_def)
  moreover have "recv_buffer q \<noteq> []" using assms(4) by (auto simp: Message_def)
  moreover have u: "uninit_ok ?t u" using assms(3) by (simp add: env_ok_def)
  ultimately obtain p' acts where h: "async_handle_message c u pop q = Some (p', acts)"
    using async_handle_message_total [of c q u pop] assms(1,2) by (fastforce simp: listener_def)
  have g: "peer_inv ?t p'" "conserved q p' acts"
    using async_handle_message_guar [OF h u \<open>buffer_ok q\<close>] inv by (simp_all add: guar_def)
  have "i \<in># held q + mset (popped acts)" if "i \<in># held p'" for i
    using g(2) that by (metis conserved_def union_iff)
  then have "unat i < unat (pieces ?t)" if "i \<in># held p'" for i
    using that async_handle_message_pops [OF h] assms(1,3) by (fastforce simp: held listener_def env_ok_def)
  moreover from h have "ReadLength \<in> set acts \<and> length (recv_buffer p') = 4"
    by (cases rule: async_handle_message_cases)
      (use assms(4,5) h in \<open>auto simp: async_read_message_def async_handle_message_def Let_def
        split: option.split_asm prod.split_asm\<close>)
  ultimately show ?thesis using h g(1) by (auto simp: listener_def)
qed

lemma hear_heard:
  assumes "listener (ctx_tor c) p" and "torrent_ok (ctx_tor c)" and "env_ok (ctx_tor c) (u, pop)"
    and "dec_message s = Some (m, r)" and "mtype m \<noteq> None"
  shows "\<exists>p' acts. hear c u pop p s = Some (m, Some (p', acts), r) \<and> ReadLength \<in> set acts \<and> listener (ctx_tor c) p'"
  using assms(1,4)
proof (induction s arbitrary: p rule: dec_message.induct)
  case (1 s)
  have s: "4 \<le> length s" using 1(3) by (simp add: dec_message.simps [of s] split: if_splits)
  let ?n = "unat (ntohl (load32 s))"
  have buf: "length (recv_buffer p) = 4" using 1(2) by (simp add: listener_def)
  note h = read_length_handler [OF buf s]
  show ?case
  proof (cases "?n = 0")
    case True
    have "hear c u pop p s = hear c u pop (p\<lparr>recv_buffer := take 4 s\<rparr>) (drop 4 s)"
      using s True h by (simp add: hear.simps [of c u pop p s])
    moreover have "dec_message (drop 4 s) = Some (m, r)"
      using 1(3) s True by (simp add: dec_message.simps [of s])
    moreover have "listener (ctx_tor c) (p\<lparr>recv_buffer := take 4 s\<rparr>)" using 1(2) s by (simp add: listener_def)
    ultimately show ?thesis using 1(1) [OF _ refl True, of "p\<lparr>recv_buffer := take 4 s\<rparr>"] s by simp
  next
    case False
    let ?body = "take ?n (drop 4 s)" and ?p = "p\<lparr>recv_buffer := resize ?n (take 4 s)\<rparr>"
    let ?q = "p\<lparr>recv_buffer := ?body\<rparr>"
    have n: "4 + ?n \<le> length s" and m: "Message ?body = Some m" and r: "r = drop (4 + ?n) s"
      using 1(3) s False by (auto simp: dec_message.simps [of s] Let_def split: if_splits)
    have q: "received ?body ?p = ?q" using n by (simp add: received_def overlay_def)
    have "?n < 2 ^ 32" by (rule unat_bounds)
    then have "length ?body < 2 ^ 32" by simp
    then obtain p' acts where "async_handle_message c u pop ?q = Some (p', acts)" "ReadLength \<in> set acts"
      "listener (ctx_tor c) p'"
      using message_handled [OF 1(2) assms(2,3), of ?q m ?body] m assms(5) by auto
    then show ?thesis
      using s False h n m q r by (simp add: hear.simps [of c u pop p s] Let_def body_read_def)
  qed
qed

text \<open>Every sequence of messages that is serialized is heard.\<close>

lemma hear_all_heard:
  assumes "listener (ctx_tor c) p" and "torrent_ok (ctx_tor c)" and "\<forall>e \<in> set es. env_ok (ctx_tor c) e"
    and "\<forall>m \<in> set ms. message_ok m" and "length es = length ms"
  shows "\<exists>q. hear_all c es p (concat (map enc_message ms) @ r) = Some (ms, q, r) \<and> listener (ctx_tor c) q"
  using assms(1,3-5)
proof (induction ms arbitrary: es p)
  case (Cons m ms)
  obtain u pop es' where es: "es = (u, pop) # es'" using Cons.prems(4) by (cases es) auto
  have dec: "dec_message (enc_message m @ concat (map enc_message ms) @ r) = Some (m, concat (map enc_message ms) @ r)"
    using Cons.prems(3) by (intro message_codec.dec_enc) simp
  have "mtype m \<noteq> None" "env_ok (ctx_tor c) (u, pop)"
    using Cons.prems(2,3) by (simp_all add: message_ok_def es)
  with hear_heard [OF Cons.prems(1) assms(2) _ dec] obtain p' acts where p': "hear c u pop p (concat (map enc_message (m # ms)) @ r) =
      Some (m, Some (p', acts), concat (map enc_message ms) @ r)" "ReadLength \<in> set acts" "listener (ctx_tor c) p'"
    by fastforce
  obtain q where "hear_all c es' p' (concat (map enc_message ms) @ r) = Some (ms, q, r)" "listener (ctx_tor c) q"
    using Cons.IH [OF p'(3), of es'] Cons.prems(2-4) by (auto simp: es)
  with p' show ?case by (simp add: es)
qed simp

end
