(* ===== verification/Spec2Isabelle.thy ===== *)
theory Spec2Isabelle
  imports Sample_Http Handles Http_Status Progress Map_Proxy Bencode_Stream Shutdown Liveness Standstill Receiver
begin

text \<open>
  A verification of picotor, a small BitTorrent client in C++ (directories \<^verbatim>\<open>include\<close> and
  \<^verbatim>\<open>src\<close> of the repository).

  The program and its parts. \<^verbatim>\<open>main\<close> reads a torrent file, asks the tracker for peers
  over HTTP, and then runs one connection per peer on an I/O thread while a second thread,
  the monitor, writes finished pieces to a file. The peers share a work queue of piece
  indices and a queue of results for the monitor. A torrent file and a tracker reply are
  bencoded; pieces are checked with SHA-1; peers speak the BitTorrent wire protocol.

  Theories and what they model.

  \<^item> \<^verbatim>\<open>Prelude\<close>: machine words, byte order, string streams, searching, printing of numbers,
    errors, and the interfaces \<open>prefix_codec\<close>, \<open>transition_system\<close> and its
    extension \<open>converging_system\<close> (a measure that every step lowers, and a goal wherever no step
    is possible).

  \<^item> \<^verbatim>\<open>Sha1\<close> (\<^verbatim>\<open>include/sha1.hpp\<close>): the class with its circular buffer of sixteen words and its
    eighty unrolled calls. \<^verbatim>\<open>Sha1_Correct\<close> states FIPS 180-4 and proves the class equal to it,
    one shot and for every splitting of the input (interface \<open>streaming_digest\<close>).

  \<^item> \<^verbatim>\<open>Common\<close> (\<^verbatim>\<open>include/common.hpp\<close>, \<^verbatim>\<open>src/common.cpp\<close>): reading a file, URL encoding, hex,
    \<^verbatim>\<open>Hash\<close>, \<^verbatim>\<open>Address\<close>, \<^verbatim>\<open>Bitfield\<close>, with their lemmas.

  \<^item> \<^verbatim>\<open>Std_Map\<close>: \<^verbatim>\<open>std::map\<close> as an ascending association list (interface \<open>ordered_map\<close>).
    \<^verbatim>\<open>Bencode\<close> (\<^verbatim>\<open>include/bencode.hpp\<close>): \<^verbatim>\<open>basic_decode\<close> with its explicit stack of places,
    overflow checks and errors, and \<^verbatim>\<open>encode\<close>. \<^verbatim>\<open>Bencode_Correct\<close>: the round trip, and that
    every decoded value is canonical (an invariant of the loop). \<^verbatim>\<open>Bencode_Stream\<close>: the encoder
    objects, dicts written in any order, and decoding from a stream. \<^verbatim>\<open>Map_Proxy\<close>: the pointer
    to a \<^verbatim>\<open>std::map\<close> behind a dict, refined to finite functions (interface \<open>updatable_map\<close>).

  \<^item> \<^verbatim>\<open>Torrent_File\<close> (\<^verbatim>\<open>include/torrent.hpp\<close>, \<^verbatim>\<open>src/torrent.cpp\<close>): the constructors
    \<^verbatim>\<open>SingleFileTorrent\<close> and \<^verbatim>\<open>TrackerResponse\<close>.

  \<^item> \<^verbatim>\<open>Pieces\<close> (\<^verbatim>\<open>include/torrent.hpp\<close>): \<^verbatim>\<open>Block\<close>, \<^verbatim>\<open>Piece\<close>, \<^verbatim>\<open>CompletePiece\<close>. Blocks live in a
    store and are named by addresses, because a piece and the peer that requested a block
    share it. \<^verbatim>\<open>Pieces_Correct\<close> refines a piece to a table of block contents; \<^verbatim>\<open>Piece_Runs\<close>
    follows a piece through any interleaving of starting, releasing and receiving blocks, once
    with blocks of the right content (\<open>piece_run\<close>) and once with any payload (\<open>wild_run\<close>).

  \<^item> \<^verbatim>\<open>Message\<close> (\<^verbatim>\<open>include/message.hpp\<close>, \<^verbatim>\<open>src/message.cpp\<close>): handshake and messages.

  \<^item> \<^verbatim>\<open>Peer\<close> (\<^verbatim>\<open>include/peer.hpp\<close>, \<^verbatim>\<open>src/peer.cpp\<close>): one definition per handler. Starting an
    asynchronous operation is an action in the result of a handler, its completion an event.
    \<^verbatim>\<open>Peer_Correct\<close>: every handler keeps the peer's invariant and accounts for the piece
    indices (\<open>guar\<close>, which composes, interface \<open>composable\<close>), and is defined.

    \<^verbatim>\<open>Receiver\<close>: the two read handlers, fed from a stream of bytes one after the other, cut it
    where the protocol does and handle exactly the messages in it.

  \<^item> \<^verbatim>\<open>Monitor\<close> (\<^verbatim>\<open>src/peer.cpp\<close>): the thread that writes the file, by the interface
    \<open>slot_store\<close> of an array of disjoint slots. \<^verbatim>\<open>Progress\<close>: its clock and its reports.

  \<^item> \<^verbatim>\<open>System\<close> (\<^verbatim>\<open>src/main.cpp\<close>): peers, queues and monitor composed by the step relation
    \<open>sys_step\<close>: any outstanding operation completes, or the monitor takes a result. The
    queues give out any element they hold. \<open>reachable\<close> states satisfy \<open>sys_inv\<close>.
    \<^verbatim>\<open>Conversation\<close>: of the operations that carry the conversation with a peer at most one
    is outstanding. \<^verbatim>\<open>Shutdown\<close>: how the process ends, with the life time of the peers and of
    the monitor thread.

  \<^item> \<^verbatim>\<open>Seeder\<close>, \<^verbatim>\<open>Liveness\<close>: the program among peers that have the whole content. \<open>seeder_says\<close>
    is what such a peer may send next, \<open>honest_step\<close> the steps of \<open>sys_step\<close> in which no operation
    fails, requests are answered before their timers fire, and the work queue is empty when
    it gives out nothing. The blocks that are missing pay for the operations that handlers start
    (\<open>paid\<close>, again \<open>composable\<close>); \<open>effort\<close> is the measure of the whole state (\<open>seeding\<close>, which
    interprets \<open>converging_system\<close>). \<^verbatim>\<open>Standstill\<close>: the states in which the download stops,
    because every connection only listens.

  \<^item> \<^verbatim>\<open>Http_Parse\<close>, \<^verbatim>\<open>Http_Status\<close>, \<^verbatim>\<open>Http_Socket\<close>, \<^verbatim>\<open>Http_Client\<close> (\<^verbatim>\<open>include/httprequest.hpp\<close>): the
    parsers, the status codes, the class \<^verbatim>\<open>Socket\<close> on a POSIX system, the encoders and
    \<^verbatim>\<open>Request::send\<close>; the answers of the operating system and the readings of its clock are data
    of the state \<open>os\<close>, and the calls are recorded in \<open>trace\<close>, also those that repeat a call
    which a signal has interrupted; \<open>left_time\<close> is what an interrupted \<^verbatim>\<open>select\<close> leaves in its
    \<^verbatim>\<open>timeval\<close>, about which POSIX and Linux differ (\<open>rest_of\<close>). \<^verbatim>\<open>Http_Correct\<close>: receiving in pieces
    is receiving at once; \<^verbatim>\<open>Http_Head\<close> and \<^verbatim>\<open>Http_Response\<close>: what a server prints is what the
    client reads; \<^verbatim>\<open>Http_Request\<close>: Base 64, sending, the parts of a URI. \<^verbatim>\<open>Http_Calls\<close>: descriptors
    and time-outs in the trace of a request (interface \<open>socket_calls\<close>). \<^verbatim>\<open>Handles\<close>: moving and
    destroying \<^verbatim>\<open>Socket\<close> and \<^verbatim>\<open>WinSock\<close> objects (interface \<open>handle_class\<close>). \<^verbatim>\<open>Tracker\<close>:
    \<^verbatim>\<open>send_request\<close> and \<^verbatim>\<open>main\<close>; by \<open>main_reachable\<close> the states that \<^verbatim>\<open>main\<close> starts from are
    reachable.

  \<^item> \<^verbatim>\<open>Sample_Run\<close>, \<^verbatim>\<open>Sample_Http\<close>: concrete torrents, a complete run of the program and a
    complete conversation with a tracker, on which the theorems below are evaluated.

  What the theorems show. Whatever peers send and however operations interleave, what is
  written to the file has the hash the torrent gives, no piece index is lost or handed out
  twice, and handlers stay defined except for the cases named by \<open>event_safe\<close>; an honest
  sender completes a piece. Among honest senders every run of the program ends, within 15 steps
  for a peer and 6 for a block, and it ends with the complete file. Requests stay inside the piece. The wire formats round trip.
  SHA-1 is SHA-1. The tracker's reply is read for every segmentation once its head has
  arrived, every descriptor is closed once and every wait ends by the dead line, up to the time
  of interrupted waits where the system does not update the \<^verbatim>\<open>timeval\<close>. Dicts behave
  as finite maps and may be written in any order; strings and streams decode alike. Several
  theorems state where the code falls short of what it means to do: the
  last partial piece, a block that is too long, a failed request after the piece is gone,
  an unknown message, a piece that is given back while everybody waits, a head that is cut, the time in the last line of the monitor, and
  the end of the process.

  Bounds and loops. Recursions are structural or have a measure: the input that remains,
  the data not yet received, the list of answers of the operating system. Two loops may run
  for ever in C++ and are partial functions to an option: the loop of \<^verbatim>\<open>async_download\<close> and
  the loop that reads a peer id; for both a theorem says that they return. The monitor's
  loop gives \<open>None\<close> while it spins on an empty queue. There is no fuel. Integers have the
  width of the code (a target with 64-bit \<^verbatim>\<open>size_t\<close>, little endian); what C++ leaves
  uninitialised is a parameter, what it leaves undefined is \<open>None\<close> or \<open>Undefined\<close>.

  Not modelled: Boost.Asio and Boost.Lockfree (the environment of the step relation);
  data races, and the life time of objects other than sockets and peers; the time at which the
  timer of a request to a peer fires (it may fire at any moment); the text of logging and
  console output and the rounding of doubles; the branches for Windows in \<^verbatim>\<open>Socket\<close>, which do
  not compile; the bencode variants for \<^verbatim>\<open>boost::variant\<close>, which are not compiled; the overflow
  of a time-out beyond the range of the clock; exhaustion of memory. Assumed to succeed:
  \<^verbatim>\<open>resolver.resolve\<close> of the numeric address of a peer in the constructor of \<^verbatim>\<open>Peer\<close>, and opening
  and writing the \<^verbatim>\<open>ofstream\<close> of the monitor, whose state the code does not look at.
\<close>

text \<open>
  C1: From main on: when the torrent file has been read and the tracker asked, then in every
  state the program runs through after that, whatever the peers send and in whatever order
  operations complete, if the monitor has no missing piece the file has the length the torrent
  gives, every piece of it has the SHA-1 hash the torrent gives for its index, and what lies
  behind the last whole piece is zero.
\<close>

theorem downloaded_file_is_verified:
  assumes "main junk f w = Some (Inr (t, s0), w')" and "(sys_step (main_ctx t))\<^sup>*\<^sup>* s0 s"
    and "Monitor.complete (mon s)"
  shows "from_file f = Inr t \<and> file_ok t (out_file (mon s)) \<and> tail_zero t (out_file (mon s))"
  using reachable_complete_file [OF main_reachable [OF assms(1,2)] assms(3)] assms(1)
  by (simp add: main_Inr)

lemma downloaded_file_is_verified_witness:
  "\<exists>s. sample_done s \<and> from_file (Some sample_file) = Inr sample_torrent \<and> file_ok sample_torrent (out_file (mon s))"
proof -
  obtain s where s: "sample_done s" using sample_run by blast
  obtain w' where "main ((0, 0), 0) (Some sample_file) (quick_os tracker_data reply_segments) =
      Some (Inr (sample_torrent, start_run_connections sample_torrent one_peer), w')"
    using sample_main by blast
  from downloaded_file_is_verified [OF this, of s] s show ?thesis
    by (auto simp: sample_done_def underway_def)
qed

text \<open>
  C2: Among peers that have the whole content, unchoke and answer every request, the program
  downloads it: every run, with the completions of all operations and the steps of the monitor
  in any order, ends within a number of steps that is linear in the number of peers and of
  blocks; a run that cannot be continued has completed the file, which is the content up to the
  last whole piece; and such a run exists.
\<close>

theorem honest_seeders_finish:
  assumes "main junk f w = Some (Inr (t, s0), w')" and "conns s0 \<noteq> []" and "seeds t content"
  defines "whole \<equiv> unat (pieces t) * unat (piece_length t)"
  defines "wanted \<equiv> take whole content @ replicate (unat (file_length t) - whole) 0"
  shows "((honest_step t content ^^ n) s0 s \<longrightarrow>
      n \<le> 15 * length (conns s0) + 6 * unat (block_count (Piece 0 (piece_length t))) * unat (pieces t)) \<and>
    ((honest_step t content)\<^sup>*\<^sup>* s0 s \<and> (\<forall>s'. \<not> honest_step t content s s') \<longrightarrow>
      Monitor.complete (mon s) \<and> out_file (mon s) = wanted) \<and>
    (\<exists>s'. (honest_step t content)\<^sup>*\<^sup>* s0 s' \<and> (sys_step (main_ctx t))\<^sup>*\<^sup>* s0 s' \<and>
      Monitor.complete (mon s') \<and> out_file (mon s') = wanted)"
proof -
  obtain r where s0: "s0 = start_run_connections t r" and r: "peers r \<noteq> []" and h: "length (info_hash t) = HASH_SIZE"
    using assms(1,2) by (auto simp: main_Inr start_run_connections_def dest: from_file_info_hash)
  have inv: "seeds t content \<and> honest_inv t content s0" using start_honest [OF h r] assms(3) s0 by simp
  have written: "out_file (mon u) = wanted"
    if "(honest_step t content)\<^sup>*\<^sup>* s0 u" "Monitor.complete (mon u)" for u
    using honest_file [OF conjunct2 [OF seeding.steps_inv [OF that(1) inv]] that(2)]
    by (simp add: wanted_def whole_def Let_def)
  have size: "length (conns s0) = length (peers r)" by (simp add: s0 start_run_connections_def)
  obtain s' where s': "(honest_step t content)\<^sup>*\<^sup>* s0 s'" "Monitor.complete (mon s')"
    using seeding.can_arrive [OF inv] by blast
  then have "(sys_step (main_ctx t))\<^sup>*\<^sup>* s0 s'" by (blast intro: rtranclp_mono [THEN predicate2D] honest_step_sys)
  moreover have "n \<le> effort t s0" if "(honest_step t content ^^ n) s0 s"
    using seeding.run_bound [OF that inv] by simp
  moreover have "Monitor.complete (mon s)"
    if "(honest_step t content)\<^sup>*\<^sup>* s0 s" "\<forall>s'. \<not> honest_step t content s s'"
    using seeding.run_arrives [OF that(1) inv] that(2) by blast
  ultimately show ?thesis
    using s' written start_effort [of t r] by (simp add: size) (auto simp: s0)
qed

lemma honest_seeders_finish_witness:
  "\<exists>s. (sys_step (main_ctx sample_torrent))\<^sup>*\<^sup>* (start_run_connections sample_torrent one_peer) s \<and>
     Monitor.complete (mon s) \<and> out_file (mon s) = [7]"
proof -
  have size: "piece_length sample_torrent = 1" "file_length sample_torrent = 1"
    by (simp_all add: sample_torrent_def)
  then have p: "pieces sample_torrent = 1" by (simp add: pieces_def)
  have "piece_content sample_torrent [7] 0 = [7]" by (simp add: piece_content_def size slice_def)
  moreover have "piece_hash sample_torrent 0 = Some (sha1_bytes [7])"
    by (simp add: piece_hash_def sample_torrent_def)
  ultimately have seeds: "seeds sample_torrent [7]"
    by (simp add: seeds_def size p)
  obtain w' where "main ((0, 0), 0) (Some sample_file) (quick_os tracker_data reply_segments) =
      Some (Inr (sample_torrent, start_run_connections sample_torrent one_peer), w')"
    using sample_main by blast
  from honest_seeders_finish [OF this _ seeds] show ?thesis
    by (auto simp: start_run_connections_def one_peer_def size p)
qed

text \<open>
  C3: In every reachable state each piece index is in exactly one place: waiting in the work
  queue, held by one peer, in a result on its way to the monitor, or written.
\<close>

theorem no_piece_lost_or_duplicated:
  assumes "reachable t s"
  shows "accounted s = mset (all_pieces t) \<and> distinct (all_pieces t) \<and>
    set (all_pieces t) = {i. i < pieces t}"
  using reachable_inv [OF assms] distinct_all_pieces all_pieces_iff
  by (auto simp: sys_inv_def)

lemma no_piece_lost_or_duplicated_witness:
  "\<exists>s. sample_done s \<and> accounted s = mset (all_pieces sample_torrent)"
proof -
  obtain s where "sample_done s" using sample_run by blast
  with no_piece_lost_or_duplicated [of sample_torrent s] show ?thesis
    by (auto simp: sample_done_def)
qed

text \<open>
  C4: At every moment, not only at the end, a piece that the monitor no longer counts as
  missing is in the file at its offset with the hash the torrent gives for it, and the file has
  its full length.
\<close>

theorem written_pieces_are_verified:
  assumes "reachable t s" and "i < pieces t" and "i \<notin> missing_pieces (mon s)"
  shows "length (out_file (mon s)) = unat (file_length t) \<and>
    piece_hash t i = Some (sha1_bytes (slice (unat (piece_length t)) (unat i) (out_file (mon s))))"
  using reachable_file [OF assms(1)] assms(2,3) by blast

lemma written_pieces_are_verified_witness:
  "\<exists>s. sample_done s \<and> piece_hash sample_torrent 0 = Some (sha1_bytes (slice 1 0 (out_file (mon s))))"
proof -
  obtain s where s: "sample_done s" using sample_run by blast
  then have "reachable sample_torrent s" "0 \<notin> missing_pieces (mon s)"
    by (simp_all add: sample_done_def Monitor.complete_def)
  with written_pieces_are_verified [of sample_torrent s 0] s show ?thesis
    by (auto simp: sample_torrent_def pieces_def)
qed

text \<open>
  C5: If a piece is a whole number of blocks and no hash is missing, the completion handler of
  an operation that is outstanding in a reachable state never dereferences an empty optional,
  overruns the piece's array, reads behind the hashes or loops for ever; the exceptions are
  named by event_safe: a request that fails after the piece was given back, and an empty
  message body.
\<close>

theorem handlers_stay_defined:
  assumes "reachable t s" and "torrent_ok t" and "(i, act) \<in># ops s" and "completes act e"
    and "uninit_ok t u" and "event_safe (conns s ! i) e"
  shows "\<exists>p acts. handle (main_ctx t) u pop e (conns s ! i) = Some (p, acts)"
  using reachable_handle [OF assms] by auto

lemma handlers_stay_defined_witness:
  "\<exists>p acts. handle (main_ctx block_torrent) (block_uninit 0) None (Connected False)
     (conns (start_run_connections block_torrent one_peer) ! 0) = Some (p, acts)"
  by (rule handlers_stay_defined
      [where s = "start_run_connections block_torrent one_peer" and i = 0 and act = AsyncConnect])
    (simp_all add: block_torrent_facts completes_def event_safe_def)

text \<open>
  C6: In every reachable state at most one of the operations that carry the conversation with a
  peer is outstanding (connecting, writing or reading the handshake, reading a length or a
  body), so reads of one connection never overlap, however completions interleave.
\<close>

theorem one_conversation_operation_at_a_time:
  assumes "reachable t s"
  shows "size {#(j, a) \<in># ops s. j = i \<and> conversation a#} \<le> 1"
  using reachable_talking [OF assms, of i] by (simp add: talking_def)

lemma one_conversation_operation_at_a_time_witness:
  "size {#(j, a) \<in># ops (start_run_connections block_torrent one_peer). j = 0 \<and> conversation a#} \<le> 1"
  by (rule one_conversation_operation_at_a_time [OF block_torrent_facts(1)])

text \<open>
  C7: A piece whose blocks have all been started is complete as soon as a sender has delivered
  every block of the content once, in any order and with any repetitions, and finalize then
  returns exactly the content.
\<close>

theorem honest_sender_completes_piece:
  assumes "length c = unat n" and "set ks = {k. k * BLOCK_SIZE < unat n}" and "length junk = unat n"
    and "piece_run c (replicate (unat (block_count (Piece i n))) Start @ map Receive ks) (Piece i n, st) = (p, st')"
  shows "is_complete p st' \<and>
    (\<exists>p'. finalize junk p st' = Some (\<lparr>cp_data = c, cp_index = i, cp_size = n\<rparr>, p'))"
  using honest_run_completes [OF assms(1,2,4)] honest_finalize [of c i n p st' junk] assms(1,3) by blast

lemma honest_sender_completes_piece_witness:
  "(case piece_run [7, 8] (replicate (unat (block_count (Piece 0 2))) Start @ map Receive [0]) (Piece 0 2, []) of
     (p, st) \<Rightarrow> is_complete p st \<and>
       (\<exists>p'. finalize [0, 0] p st = Some (\<lparr>cp_data = [7, 8], cp_index = 0, cp_size = 2\<rparr>, p')))"
proof -
  have "set [0] = {k. k * BLOCK_SIZE < unat (2 :: u32)}" by (auto simp: BLOCK_SIZE_def)
  then show ?thesis
    using honest_sender_completes_piece [where c = "[7, 8]" and n = 2 and ks = "[0]" and junk = "[0, 0]"]
    by (auto split: prod.split)
qed

text \<open>
  C8: However starting, releasing and receiving blocks interleave, if every block that arrived
  carried its part of the content then a complete piece finalizes to the content.
\<close>

theorem correct_blocks_give_correct_piece:
  assumes "piece_run c xs (Piece i n, st) = (p, st')" and "\<forall>op \<in> set xs. op_in n op"
    and "is_complete p st'" and "length c = unat n" and "length junk = unat n"
  shows "\<exists>p'. finalize junk p st' = Some (\<lparr>cp_data = c, cp_index = i, cp_size = n\<rparr>, p')"
proof -
  have "honest c i n (p, st')"
    using honest_run [OF honest_Piece [of c i n st] assms(2)] assms(1) by simp
  then show ?thesis by (rule honest_finalize [OF _ assms(3-5)])
qed

lemma correct_blocks_give_correct_piece_witness:
  "\<exists>p st p'. piece_run [7, 8] [Start, Release 0, Start, Receive 0, Receive 0, Release 0] (Piece 3 2, []) = (p, st) \<and>
     map filled st = [True] \<and> is_complete p st \<and>
     finalize [0, 0] p st = Some (\<lparr>cp_data = [7, 8], cp_index = 3, cp_size = 2\<rparr>, p')"
proof -
  let ?xs = "[Start, Release 0, Start, Receive 0, Receive 0, Release 0]" and ?p = "(Piece 3 2)\<lparr>blocks := [0]\<rparr>"
  have acc: "accept 0 0 (honest_payload [7, 8] p 0) p st =
      (if filled (st ! 0) then ((AlreadyFilled, 0), st) else ((block_status.Ok, 0), st[0 := fill_with [7, 8] (st ! 0)]))"
    if "p = ?p" for p st
    unfolding honest_payload_def that
    by (subst accept_unfold) (simp_all add: Piece_def slice_def BLOCK_SIZE_def)
  obtain st where run: "piece_run [7, 8] ?xs (Piece 3 2, []) = (?p, st)" and filled: "map filled st = [True]"
    by (simp add: piece_run_def next_block_def block_count_def block_free_def acc [unfolded Piece_def] Piece_def
        BLOCK_SIZE_def block_release_def fill_with_def Block_def)
  moreover have complete: "is_complete ?p st"
    using filled by (cases st) (simp_all add: is_complete_def block_count_def Piece_def BLOCK_SIZE_def)
  ultimately show ?thesis
    using correct_blocks_give_correct_piece [OF run _ complete, of "[0, 0]"] by (auto simp: op_in_def)
qed

text \<open>
  C9: Every completion handler of a peer keeps the peer's invariant, gives back or reports
  exactly the piece indices it took, reports only pieces with the size and hash of the torrent,
  never moves a block or empties a filled one, and starts reads of less than 2^32 bytes.
\<close>

theorem handler_guarantee:
  assumes "handle c u pop e p = Some (p', acts)" and "peer_inv (ctx_tor c) p" and "buffer_ok p"
    and "uninit_ok (ctx_tor c) u" and "length (event_bytes e) < 2 ^ 32" and "length (ctx_handshake c) < 2 ^ 32"
  shows "peer_inv (ctx_tor c) p' \<and> buffer_ok p' \<and> conserved p p' acts \<and>
    (\<forall>cp \<in> set (completed (results acts)). good_piece (ctx_tor c) cp) \<and>
    heap_grows (heap p) (heap p') \<and> (\<forall>n \<in> set (reads acts). n < 2 ^ 32)"
  using handle_guar [OF assms(1,4,3,5,6)] assms(2,3) by (simp add: guar_def)

lemma handler_guarantee_witness:
  "conserved (fst (Peer \<lparr>raw = 1, port = 2\<rparr>)) (fst (close (fst (Peer \<lparr>raw = 1, port = 2\<rparr>))))
     [CloseSocket, PushResult (ResultPeerDropped \<lparr>raw = 1, port = 2\<rparr>)]"
proof -
  let ?p = "fst (Peer \<lparr>raw = 1, port = 2\<rparr>)" and ?c = "main_ctx block_torrent"
  have h: "handle ?c (block_uninit 0) None (Connected True) ?p =
      Some (fst (close ?p), [CloseSocket, PushResult (ResultPeerDropped \<lparr>raw = 1, port = 2\<rparr>)])"
    by (simp add: async_handshake_write_def close_def release_piece_def Peer_def)
  have "peer_inv (ctx_tor ?c) ?p" "buffer_ok ?p"
    by (simp_all add: Peer_def peer_inv_def buffer_ok_def)
  from handler_guarantee [OF h this] show ?thesis
    by (simp add: block_torrent_facts)
qed

text \<open>
  C10: The loop of async_download returns for every answer of the work queue, and when it
  returns no further block can be started: the pipeline is full, the peer is choked or has
  announced nothing, there is no piece to work on, or every block of the piece is complete or
  handed out.
\<close>

theorem pipeline_loop_ends_stalled:
  assumes "peer_inv (ctx_tor c) p"
  shows "\<exists>p' acts'. async_download c pop p acts = Some (p', acts') \<and> stalled p'"
  using async_download_total [OF assms] async_download_stalled by fastforce

lemma pipeline_loop_ends_stalled_witness:
  "\<exists>p' acts'. async_download (main_ctx block_torrent) (Some 0)
     ((fst (Peer \<lparr>raw = 1, port = 2\<rparr>))\<lparr>choked := False, available_pieces := [True]\<rparr>) [] = Some (p', acts') \<and>
     stalled p'"
  by (rule pipeline_loop_ends_stalled) (simp add: Peer_def peer_inv_def)

text \<open>
  C11: When the tracker answers the announce request with a head that carries one Content-
  Length field and a bencoded dict with a compact peer list, cut into any non-empty segments of
  which the first holds the head, send_request returns exactly the interval and the addresses
  of that list.
\<close>

theorem tracker_reply_is_read:
  assumes "parseUri (request_url t) = Inr u" and "start_request v4 u (str ''GET'') [] [] no_timeout w = Some (Inr (dl, sk), w1)"
    and "delivers dl sk w1 segs" and "[] \<notin> set segs" and "head_ok st fs"
    and "framed_by (str ''content-length'', decimal (length (encode (BDict m)))) (map lower_field fs)"
    and "concat segs = response_head st fs @ encode (BDict m)"
    and "length (response_head st fs) \<le> length (hd segs)" and "length (encode (BDict m)) < 2 ^ 63"
    and "wf_data (BDict m)" and "map_of m (str ''interval'') = Some (BInt iv)"
    and "map_of m (str ''peers'') = Some (BStr (concat (map compact_peer as)))"
  shows "\<exists>w'. send_request junk t w = Some (Inr \<lparr>interval = word_of_int iv, peers = as\<rparr>, w')"
proof (rule send_request_reply [OF assms(1,2)])
  show "\<exists>w'. recv_loop dl sk (initial_state junk) w1 = Some (Inr (read_response st fs (encode (BDict m))), w')"
    by (rule content_length_read [OF assms(5,6,9,3,4,7,8)])
  show "TrackerResponse (resp_body (read_response st fs (encode (BDict m)))) =
      Inr \<lparr>interval = word_of_int iv, peers = as\<rparr>"
    using TrackerResponse_encode [OF assms(10-12)] by (simp add: read_response_def)
qed

lemma tracker_reply_is_read_witness:
  "\<exists>w'. send_request ((0, 0), 0) sample_torrent (quick_os tracker_data reply_segments) =
     Some (Inr \<lparr>interval = 900, peers = [sample_addr]\<rparr>, w')"
proof -
  obtain dl sk w1 where w1:
      "start_request v4 tracker_uri (str ''GET'') [] [] no_timeout (quick_os tracker_data reply_segments) =
        Some (Inr (dl, sk), w1)"
    "delivers dl sk w1 reply_segments"
    using start_quick [OF tracker_encode] by blast
  have m: "map_of tracker_reply (str ''interval'') = Some (BInt 900)"
    "map_of tracker_reply (str ''peers'') = Some (BStr (concat (map compact_peer [sample_addr])))"
    by (simp_all add: tracker_reply_def)
  have framed: "framed_by (str ''content-length'', decimal (length (encode (BDict tracker_reply)))) (map lower_field length_fields)"
    unfolding tracker_reply_length by (rule framed_samples(1))
  have "length (encode (BDict tracker_reply)) < 2 ^ 63" unfolding tracker_reply_length by simp
  from tracker_reply_is_read [OF tracker_uri_parsed w1 reply_segments_facts(3) head_ok_samples(1) framed
      reply_segments_facts(1,2) this tracker_reply_wf m, of "((0, 0), 0)"]
  show ?thesis by (metis of_int_numeral)
qed

text \<open>
  C12: A response with a chunked body is returned with its status, its fields and the
  concatenation of its chunks, for every way the bytes are cut into non-empty segments of which
  the first holds the head: a cut inside a chunk, inside a size line or between the two
  characters of a line end makes no difference.
\<close>

theorem chunked_reply_in_any_segments:
  assumes "head_ok st fs" and "framed_by (str ''transfer-encoding'', str ''chunked'') (map lower_field fs)"
    and "\<forall>c \<in> set cs. chunk_ok c" and "delivers dl sk w segs" and "[] \<notin> set segs"
    and "concat segs = response_head st fs @ enc_chunks cs @ y"
    and "length (response_head st fs) \<le> length (hd segs)"
  shows "\<exists>w'. recv_loop dl sk (initial_state junk) w =
    Some (Inr \<lparr>resp_status = st, resp_headers = map lower_field fs, resp_body = concat cs\<rparr>, w')"
  using chunked_read [OF assms] by (simp add: read_response_def)

lemma chunked_reply_in_any_segments_witness:
  "\<exists>w'. recv_loop \<lparr>timeout = no_timeout, stopTime = 0\<rparr> \<lparr>endpoint = 3\<rparr> (initial_state ((0, 0), 0)) (listening_os chunked_segments) =
     Some (Inr \<lparr>resp_status = ok_status, resp_headers = map lower_field chunked_fields, resp_body = concat [str ''x'']\<rparr>, w')"
  by (rule chunked_reply_in_any_segments [OF head_ok_samples(2) framed_samples(2) _ listening_delivers _
        chunked_segments_concat])
    (auto simp: chunk_ok_def chunked_segments_def response_head_neq_Nil crlf_def)

text \<open>
  C13: Whatever the operating system answers, in every call of Request::send that ends, by a
  return or by any of its exceptions, the socket's descriptor is used only between its opening
  and its closing and is closed exactly once, and the address list is released exactly once.
\<close>

theorem every_descriptor_is_closed_once:
  assumes "Request_send junk p u method body hs tmo w = Some (r, w')"
  shows "\<exists>tr. trace w' = trace w @ tr \<and> well_used False [] tr"
  using assms by (rule Request_send_well_used)

lemma every_descriptor_is_closed_once_witness:
  "\<exists>e w' tr. Request_send ((0, 0), 0) v6 tracker_uri (str ''GET'') [] [] 500 (refusing_os False) = Some (Inl e, w') \<and>
     trace w' = tr \<and> Open_socket AF_INET6 3 \<in> set tr \<and> Close 3 \<in> set tr \<and> well_used False [] tr"
proof -
  obtain e w' where run: "Request_send ((0, 0), 0) v6 tracker_uri (str ''GET'') [] [] 500 (refusing_os False) = Some (Inl e, w')"
    and "trace w' = refusing_trace False"
    using refusing_run by blast
  with every_descriptor_is_closed_once [OF run] show ?thesis by (auto simp: refusing_os_start refusing_trace_def)
qed

text \<open>
  C14: With a time-out that is not negative every select of Request::send, also one that
  repeats a select interrupted by a signal, has a well-formed timeval and ends, counted from
  the reading of the clock before it, by the start of the call plus the time-out, or does not
  wait when that has passed. If the operating system leaves the time not slept in the timeval
  of an interrupted select (Linux), the time of the interrupted waits is counted too; if it
  leaves the timeval as it was (POSIX) that time comes on top, because the loop does not look
  at the clock. With a negative time-out every wait is unbounded.
\<close>

theorem waits_end_by_the_deadline:
  assumes "Request_send junk p u method body hs tmo w = Some (r, w')" and "left_time w = rest_of updated"
  shows "\<exists>tr. trace w' = trace w @ tr \<and>
    waits_ok updated \<lparr>timeout = tmo, stopTime = clock w (readings w) + tmo * 1000000\<rparr> None tr"
  using Request_send_waits_ok [OF assms] by (simp add: NS_PER_MS_def)

lemma waits_end_by_the_deadline_witness:
  "\<exists>e w' e2 w2.
     Request_send ((0, 0), 0) v6 tracker_uri (str ''GET'') [] [] 500 (refusing_os True) = Some (Inl e, w') \<and>
     {Select 3 SelectWrite (Some (0, 499000)), Interrupted 100000, Select 3 SelectWrite (Some (0, 399000))}
       \<subseteq> set (trace w') \<and>
     waits_ok True \<lparr>timeout = 500, stopTime = 500000000\<rparr> None (trace w') \<and>
     Request_send ((0, 0), 0) v6 tracker_uri (str ''GET'') [] [] 500 (refusing_os False) = Some (Inl e2, w2) \<and>
     waits_ok False \<lparr>timeout = 500, stopTime = 500000000\<rparr> None (trace w2) \<and>
     \<not> waits_ok True \<lparr>timeout = 500, stopTime = 500000000\<rparr> None (trace w2)"
proof -
  obtain e w' where run: "Request_send ((0, 0), 0) v6 tracker_uri (str ''GET'') [] [] 500 (refusing_os True) = Some (Inl e, w')"
    and tr: "trace w' = refusing_trace True"
    using refusing_run by blast
  obtain e2 w2 where run2: "Request_send ((0, 0), 0) v6 tracker_uri (str ''GET'') [] [] 500 (refusing_os False) = Some (Inl e2, w2)"
    and tr2: "trace w2 = refusing_trace False"
    using refusing_run by blast
  have "waits_ok True \<lparr>timeout = 500, stopTime = 500000000\<rparr> None (trace w')"
    using waits_end_by_the_deadline [OF run, of True] by (simp add: refusing_os_start)
  moreover have "waits_ok False \<lparr>timeout = 500, stopTime = 500000000\<rparr> None (trace w2)"
    using waits_end_by_the_deadline [OF run2, of False] by (simp add: refusing_os_start)
  moreover have "\<not> waits_ok True \<lparr>timeout = 500, stopTime = 500000000\<rparr> None (trace w2)"
    by (simp add: tr2 refusing_trace_def)
  moreover have "{Select 3 SelectWrite (Some (0, 499000)), Interrupted 100000, Select 3 SelectWrite (Some (0, 399000))}
      \<subseteq> set (trace w')"
    by (simp add: tr refusing_trace_def)
  ultimately show ?thesis using run run2 by blast
qed

text \<open>
  C15: Once the peers run, main never returns: when io.run has nothing left to do the joinable
  monitor thread makes the process terminate, also after the download. The peers are destroyed
  only when the file is complete and verified, but any operation of a conversation that is
  outstanding then completes on a dead object.
\<close>

theorem program_never_ends_in_order:
  assumes "main junk f w = Some (Inr (t, s0), w')" and "(proc_step (main_ctx t))\<^sup>*\<^sup>* (start_process s0) p"
  shows "ended p \<noteq> Some Returned \<and> (ended p = Some Terminated \<longrightarrow> ops (prog p) = {#}) \<and>
    (peers_alive p \<or> Monitor.complete (mon (prog p)) \<and> file_ok t (out_file (mon (prog p)))) \<and>
    (ended p = None \<and> \<not> peers_alive p \<and> (i, act) \<in># ops (prog p) \<and> conversation act \<longrightarrow>
      (\<exists>e p'. completes act e \<and> proc_step (main_ctx t) p p' \<and> ended p' = Some Use_after_free))"
proof -
  have "proc_inv t p" using process_inv [OF main_reachable [OF assms(1) rtranclp.rtrancl_refl] assms(2)] .
  then obtain s where s: "reachable t s" "mon s = mon (prog p)" and "peers_alive p \<or> Monitor.complete (mon (prog p))"
    and "ended p \<noteq> Some Returned" "ended p = Some Terminated \<longrightarrow> ops (prog p) = {#}"
    by (auto simp: proc_inv_def)
  then show ?thesis
    using reachable_complete_file [OF s(1)] conversation_use_after_free(1) [of p i act "main_ctx t"] by auto
qed

lemma program_never_ends_in_order_witness:
  "\<exists>p p'. (proc_step (main_ctx sample_torrent))\<^sup>*\<^sup>*
       (start_process (start_run_connections sample_torrent one_peer)) p \<and>
     \<not> peers_alive p \<and> file_ok sample_torrent (out_file (mon (prog p))) \<and>
     proc_step (main_ctx sample_torrent) p p' \<and> ended p' = Some Use_after_free"
proof -
  obtain s where s: "sample_done s" using sample_run by blast
  let ?start = "start_process (start_run_connections sample_torrent one_peer)"
    and ?p = "start_process s\<lparr>peers_alive := False\<rparr>"
  have "(proc_step (main_ctx sample_torrent))\<^sup>*\<^sup>* ?start (start_process s)"
    using s by (intro running_process) (simp add: sample_done_def underway_def)
  moreover have "proc_step (main_ctx sample_torrent) (start_process s) ?p"
    by (rule proc_step.monitor_returns) (use s in \<open>simp_all add: sample_done_def start_process_def\<close>)
  ultimately have steps: "(proc_step (main_ctx sample_torrent))\<^sup>*\<^sup>* ?start ?p"
    by (rule rtranclp.rtrancl_into_rtrancl)
  obtain w' where "main ((0, 0), 0) (Some sample_file) (quick_os tracker_data reply_segments) =
      Some (Inr (sample_torrent, start_run_connections sample_torrent one_peer), w')"
    using sample_main by blast
  from program_never_ends_in_order [OF this steps, of 0 ReadLength] s obtain p' where
    "file_ok sample_torrent (out_file (mon (prog ?p)))"
    "proc_step (main_ctx sample_torrent) ?p p'" "ended p' = Some Use_after_free"
    by (auto simp: sample_done_def start_process_def)
  with steps show ?thesis by (intro exI [of _ ?p] exI [of _ p']) simp
qed

text \<open>
  C16: Only a message makes a peer ask the work queue for a piece. Once every connection only
  listens, pieces that are in the queue, because a peer that was dropped has given them back or
  because a peer was offered one it does not have, stay there through keepalives, timers,
  writes and lost connections, and the download is never complete.
\<close>

theorem nothing_wakes_an_idle_program:
  assumes "reachable t s" and "listening s" and "(quiet_step t)\<^sup>*\<^sup>* s s'"
  shows "(sys_step (main_ctx t))\<^sup>*\<^sup>* s s' \<and> work s \<subseteq># work s' \<and> work s \<inter># sum_list (map Peer_Correct.held (conns s')) = {#} \<and>
    (work s \<noteq> {#} \<longrightarrow> \<not> Monitor.complete (mon s'))"
proof -
  have s': "reachable t s'" "work s \<subseteq># work s'"
    using standstill.steps_inv [OF assms(3), of "work s"] assms(1,2) by auto
  note inv = reachable_inv [OF s'(1)]
  have "(sys_step (main_ctx t))\<^sup>*\<^sup>* s s'"
    using assms(3) by (blast intro: rtranclp_mono [THEN predicate2D] quiet_step_sys)
  moreover have "work s \<inter># sum_list (map Peer_Correct.held (conns s')) = {#}"
    using subset_mset.inf_mono [OF s'(2)] waiting_is_not_held [OF inv] by (metis subset_mset.le_zero_eq subset_mset.order_refl)
  moreover have "x \<in> missing_pieces (mon s')" if "x \<in># work s" for x
    using waiting_is_missing [OF inv] mset_subset_eqD [OF s'(2) that] by blast
  then have "work s \<noteq> {#} \<longrightarrow> \<not> Monitor.complete (mon s')" by (auto simp: Monitor.complete_def)
  ultimately show ?thesis using s'(2) by blast
qed

lemma nothing_wakes_an_idle_program_witness:
  "\<exists>s p. reachable block_torrent s \<and> conns s = [p] \<and> \<not> choked p \<and> \<not> peer.closed p \<and> available_pieces p ! 1 \<and>
     1 \<in># work s \<and> (\<forall>s'. (quiet_step block_torrent)\<^sup>*\<^sup>* s s' \<longrightarrow> 1 \<in># work s' \<and> \<not> Monitor.complete (mon s'))"
proof -
  let ?p = "\<lambda>pid. sample_peer (resize 4 [1]) pid False second_bits None [] []"
  obtain pid msg where "underway block_torrent (sample_state (?p pid) {#(0, ReadLength), (0, WriteMessage msg)#} {#0, 1#}
      [ResultPeerConnected sample_addr] [] (MonitorVisitor block_torrent))" (is "underway _ ?s")
    using given_up by blast
  then have r: "reachable block_torrent ?s" by (rule underway_reachable) (simp add: block_torrent_def HASH_SIZE_def)
  have l: "listening ?s" by (simp add: listening_def sample_state_def)
  have w: "work ?s = {#0, 1#}" by (simp add: sample_state_def)
  have "1 \<in># work s' \<and> \<not> Monitor.complete (mon s')" if "(quiet_step block_torrent)\<^sup>*\<^sup>* ?s s'" for s'
    using nothing_wakes_an_idle_program [OF r l that] mset_subset_eqD [of "work ?s" "work s'" 1] by (simp add: w)
  with r second_bits_facts(2) show ?thesis
    by (intro exI [of _ ?s] exI [of _ "?p pid"]) (auto simp: sample_state_def sample_peer_def)
qed

text \<open>
  C17: Every request that async_download writes is a request message of 17 bytes for a block
  that starts inside the piece, with the block's offset and a length that ends at or before the
  end of the piece.
\<close>

theorem requests_stay_inside_the_piece:
  assumes "async_download c pop p [] = Some (p', acts)" and "peer_inv (ctx_tor c) p"
    and "WriteRequest msg a \<in> set acts"
  shows "\<exists>i k. msg = be32 13 @ [6] @ be32 i @ be32 (word_of_nat (k * BLOCK_SIZE)) @
      be32 (word_of_nat (block_len (unat (piece_length (ctx_tor c))) k)) \<and>
    0 < block_len (unat (piece_length (ctx_tor c))) k \<and>
    k * BLOCK_SIZE + block_len (unat (piece_length (ctx_tor c))) k \<le> unat (piece_length (ctx_tor c))"
proof -
  have "requests_in (ctx_tor c) acts"
    by (rule async_download_requests [OF assms(1,2)]) (simp add: requests_in_def)
  with assms(3) obtain i k where "msg = request_bytes (piece_length (ctx_tor c)) i k"
    and "k * BLOCK_SIZE < unat (piece_length (ctx_tor c))"
    by (auto simp: requests_in_def)
  then show ?thesis
    by (intro exI [of _ i] exI [of _ k]) (auto simp: request_bytes_def block_len_def)
qed

lemma requests_stay_inside_the_piece_witness:
  "\<exists>i k. sample_request = be32 13 @ [6] @ be32 i @ be32 (word_of_nat (k * BLOCK_SIZE)) @
     be32 (word_of_nat (block_len (unat (piece_length sample_torrent)) k)) \<and>
     0 < block_len (unat (piece_length sample_torrent)) k \<and>
     k * BLOCK_SIZE + block_len (unat (piece_length sample_torrent)) k \<le> unat (piece_length sample_torrent)"
  using requests_stay_inside_the_piece [OF sample_download sample_inv, of sample_request 0]
  by (simp add: block_torrent_facts)

text \<open>
  C18: Piece::accept on a message with a complete header refines the update of a table of block
  contents: the status is the one the checks give in the code's order, the block index is
  offset / BLOCK_SIZE, and the data is stored, in that block only, exactly when the status is
  Ok.
\<close>

theorem accept_implements_block_table:
  assumes "piece_inv p st" and "length dat < 2 ^ 32"
    and "accept j1 j2 (be32 i @ be32 off @ dat) p st = ((s, k), st')"
  shows "s = accept_status i off dat (index p) (abs_piece p st) \<and> k = off div word_of_nat BLOCK_SIZE \<and>
    abs_piece p st' =
      (if s = block_status.Ok then (abs_piece p st)[unat off div BLOCK_SIZE := Some dat] else abs_piece p st) \<and>
    piece_inv p st'"
  using accept_abs [OF assms(1,2) assms(3) [folded accept_header_def]] by blast

lemma accept_implements_block_table_witness:
  "\<exists>s k st'. accept 0 0 (be32 0 @ be32 0 @ [7]) (Piece 0 4) [] = ((s, k), st') \<and> s = WrongOffset"
proof -
  obtain s k st' where acc: "accept 0 0 (be32 0 @ be32 0 @ [7]) (Piece 0 4) [] = ((s, k), st')"
    by (metis surj_pair)
  from accept_implements_block_table [OF piece_inv_Piece _ acc]
  have "s = WrongOffset" by (simp add: accept_status_def abs_piece_def Piece_def BLOCK_SIZE_def)
  with acc show ?thesis by blast
qed

text \<open>
  C19: When the piece size is a multiple of the block size, finalize never writes behind the
  array it allocates, and gives a piece of the right size: whatever payloads have arrived, in
  any interleaving with starting and releasing blocks, because accept bounds every block.
\<close>

theorem finalize_never_overruns:
  assumes "wild_run xs (Piece i n, st) = (p, st')" and "\<forall>op \<in> set xs. wild_ok op"
    and "unat n mod BLOCK_SIZE = 0" and "length junk = unat n"
  shows "\<exists>d p'. finalize junk p st' = Some (\<lparr>cp_data = d, cp_index = i, cp_size = n\<rparr>, p') \<and> length d = unat n"
proof -
  have "wild_inv i n (Piece i n, st)"
    unfolding wild_inv_def using piece_inv_Piece [of i n st] by (auto simp: Piece_def)
  from wild_run_inv [OF this assms(2)] have "wild_inv i n (p, st')" by (simp add: assms(1))
  then show ?thesis by (rule wild_finalize [OF _ assms(3,4)])
qed

lemma finalize_never_overruns_witness:
  "\<exists>p st d p'. wild_run [Wild_start, Wild_receive 0 0 (accept_header 3 0 (replicate (Suc BLOCK_SIZE) 9)),
       Wild_receive 0 0 (accept_header 3 0 (replicate BLOCK_SIZE 9))] (Piece 3 16384, []) = (p, st) \<and>
     map abs_block st = [Some (replicate BLOCK_SIZE 9)] \<and>
     finalize (replicate BLOCK_SIZE 0) p st = Some (\<lparr>cp_data = d, cp_index = 3, cp_size = 16384\<rparr>, p')"
proof -
  let ?xs = "[Wild_start, Wild_receive 0 0 (accept_header 3 0 (replicate (Suc BLOCK_SIZE) 9)),
       Wild_receive 0 0 (accept_header 3 0 (replicate BLOCK_SIZE 9))]" and ?p = "(Piece 3 16384)\<lparr>blocks := [0]\<rparr>"
  have acc: "accept 0 0 (accept_header 3 0 (replicate k 9)) ?p st =
      (if k > BLOCK_SIZE then ((TooMuchData, 0), st) else if filled (st ! 0) then ((AlreadyFilled, 0), st)
       else ((block_status.Ok, 0), st[0 := fill_with (replicate k 9) (st ! 0)]))" if "k \<le> Suc BLOCK_SIZE" for k st
    using that by (subst accept_unfold) (simp_all add: Piece_def BLOCK_SIZE_def)
  have start: "next_block (Piece 3 16384) [] = (Some 0, ?p, [(Block 0)\<lparr>reserved := True\<rparr>])"
    by (simp add: next_block_def Piece_def block_count_def BLOCK_SIZE_def)
  obtain st where run: "wild_run ?xs (Piece 3 16384, []) = (?p, st)" and "map abs_block st = [Some (replicate BLOCK_SIZE 9)]"
    by (simp add: wild_run_def start acc del: replicate.simps)
  moreover have "\<forall>op \<in> set ?xs. wild_ok op"
    by (simp add: wild_ok_def accept_header_def BLOCK_SIZE_def)
  ultimately show ?thesis
    using finalize_never_overruns [OF run, of "replicate BLOCK_SIZE 0"] by (auto simp: BLOCK_SIZE_def)
qed

text \<open>
  C20: When the piece size is not a multiple of the block size and the blocks before the last
  one are full, a message with a full block for the last place is accepted and completes the
  piece, and the handler then copies more bytes than finalize has allocated.
\<close>

theorem full_last_block_overruns:
  assumes "cur_piece p = Some q" and inv: "piece_inv q (heap p)"
    and last: "Suc k = length (blocks q)" "length (blocks q) = unat (block_count q)"
    and before: "\<forall>j < k. \<exists>d. abs_piece q (heap p) ! j = Some d \<and> length d = BLOCK_SIZE"
    and missing: "abs_piece q (heap p) ! k = None"
    and size: "unat (piece_size q) mod BLOCK_SIZE \<noteq> 0"
    and msg: "payload m = accept_header (index q) (word_of_nat (k * BLOCK_SIZE)) dat" "length dat = BLOCK_SIZE"
  shows "fst (fst (accept (u_word1 u) (u_word2 u) (payload m) q (heap p))) = block_status.Ok \<and> handle_piece c u m p = None"
proof -
  obtain s b st where acc: "accept (u_word1 u) (u_word2 u) (payload m) q (heap p) = ((s, b), st)"
    by (metis surj_pair)
  have len: "length dat < 2 ^ 32" using msg(2) by (simp add: BLOCK_SIZE_def)
  have k: "k < length (blocks q)" using last(1) by simp
  note abs = accept_abs [OF inv len acc [unfolded msg(1)]]
  note place = blocks_in_memory(2) [OF inv k]
  have ok: "s = block_status.Ok" using abs(1) k missing msg(2) by (simp add: accept_status_def place del: of_nat_mult)
  let ?p = "release_block b (p\<lparr>heap := st\<rparr>)"
  note rel = release_block_piece [of q "p\<lparr>heap := st\<rparr>" b]
  have "abs_piece q (heap ?p) = (abs_piece q (heap p))[k := Some dat]"
    using rel abs(3,4) by (simp add: ok place del: of_nat_mult)
  then have "\<forall>j < length (blocks q). \<exists>d. abs_piece q (heap ?p) ! j = Some d \<and> length d = BLOCK_SIZE"
    using before k last(1) msg(2) by (auto simp: nth_list_update less_Suc_eq)
  from full_blocks_overrun [OF _ last(2) size this] rel(1) abs(4)
  have "is_complete q (heap ?p)" "finalize (u_array u) q (heap ?p) = None" by simp_all
  then show ?thesis by (simp add: handle_piece_def assms(1) acc ok Let_def)
qed

lemma full_last_block_overruns_witness:
  "handle_piece (main_ctx block_torrent) (block_uninit 0)
     \<lparr>mtype = Some PieceMsg, payload = accept_header 0 16384 (replicate BLOCK_SIZE 2)\<rparr>
     ((fst (Peer sample_addr))\<lparr>cur_piece := Some ((Piece 0 16385)\<lparr>blocks := [0, 1]\<rparr>),
        heap := [fill_with (replicate BLOCK_SIZE 1) (Block 0), Block 16384]\<rparr>) = None"
proof -
  let ?q = "(Piece 0 16385)\<lparr>blocks := [0, 1]\<rparr>" and ?st = "[fill_with (replicate BLOCK_SIZE 1) (Block 0), Block 16384]"
    and ?m = "\<lparr>mtype = Some PieceMsg, payload = accept_header 0 16384 (replicate BLOCK_SIZE 2)\<rparr>"
  let ?p = "(fst (Peer sample_addr))\<lparr>cur_piece := Some ?q, heap := ?st\<rparr>"
  have count: "unat (block_count ?q) = 2" by (simp add: block_count_def Piece_def BLOCK_SIZE_def)
  have "block_ok (fill_with (replicate BLOCK_SIZE 1) (Block 0))"
    by (rule block_ok_fill) simp_all
  then have "piece_inv ?q ?st"
    using count by (auto simp: piece_inv_def less_Suc_eq numeral_2_eq_2) (simp_all add: Piece_def BLOCK_SIZE_def)
  moreover have "abs_piece ?q ?st = [Some (replicate BLOCK_SIZE 1), None]"
    by (simp add: abs_piece_def abs_block_def [of "Block _"])
  ultimately show ?thesis
    using full_last_block_overruns [of ?p ?q 1 ?m "replicate BLOCK_SIZE 2" "block_uninit 0" "main_ctx block_torrent"] count
    by (simp add: Piece_def BLOCK_SIZE_def)
qed

text \<open>
  C21: Whenever the connection of a peer is lost while a request is still being written, the
  program gets to a state in which that write is outstanding and its failure, which closing the
  socket causes, makes the handler dereference the empty piece: its log line reads
  piece_->index() without looking.
\<close>

theorem failed_request_after_close:
  assumes "reachable t s" and "(i, ReadLength) \<in># ops s" and "(i, WriteRequest msg a) \<in># ops s"
  shows "\<exists>s'. sys_step (main_ctx t) s s' \<and> reachable t s' \<and> (i, WriteRequest msg a) \<in># ops s' \<and>
    completes (WriteRequest msg a) (RequestWritten True a) \<and>
    handle (main_ctx t) u pop (RequestWritten True a) (conns s' ! i) = None"
proof -
  have "op_ok s i ReadLength" using reachable_inv [OF assms(1)] assms(2) by (auto simp: sys_inv_def)
  then have i: "i < length (conns s)" by (simp add: op_ok_def)
  have "uninit_ok t (some_uninit t)" by (simp add: uninit_ok_def some_uninit_def)
  from connection_lost [OF assms(2) this] obtain s' where s': "sys_step (main_ctx t) s s'"
    "conns s' = (conns s)[i := fst (close (conns s ! i))]" "ops s' = ops s - {#(i, ReadLength)#}" by blast
  have "(i, WriteRequest msg a) \<in># ops s'" using assms(3) by (simp add: s'(3) in_diff_count)
  moreover have "cur_piece (fst (close p)) = None" for p
    by (cases "cur_piece p") (simp_all add: close_def release_piece_def)
  then have "handle (main_ctx t) u pop (RequestWritten True a) (conns s' ! i) = None"
    using i by (simp add: s'(2) request_written_def)
  ultimately show ?thesis using s'(1) reachable_step [OF assms(1) s'(1)] by (auto simp: completes_def)
qed

lemma failed_request_after_close_witness:
  "\<exists>s. reachable sample_torrent s \<and> (0, WriteRequest sample_request 0) \<in># ops s \<and>
     handle (main_ctx sample_torrent) sample_uninit None (RequestWritten True 0) (conns s ! 0) = None"
proof -
  obtain pid msg where "underway sample_torrent
     (sample_state (sample_peer (resize 4 [1]) pid False sample_bits (Some sample_piece) [(0, 0)] [sample_block])
       {#(0, ReadLength), (0, WriteRequest sample_request 0), (0, StartTimer 0), (0, WriteMessage msg)#} {#}
       [ResultPeerConnected sample_addr] [] (MonitorVisitor sample_torrent))" (is "underway _ ?s")
    using sample_requested by blast
  from failed_request_after_close [OF sample_reachable [OF this], of 0 sample_request 0]
  show ?thesis by (auto simp: sample_state_def)
qed

text \<open>
  C22: The monitor thread returns once every piece is among the results it is given, whatever
  else is in the queue.
\<close>

theorem monitor_returns:
  assumes "\<forall>i < pieces t. i \<in> cp_index ` set (completed rs)"
  shows "\<exists>m queued. monitor_thread t rs = Some (m, queued)"
  using monitor_thread_returns [OF assms] by auto

lemma monitor_returns_witness:
  "\<exists>m queued. monitor_thread sample_torrent
     [ResultPieceComplete \<lparr>cp_data = [7], cp_index = 0, cp_size = 1\<rparr>] = Some (m, queued)"
proof (rule monitor_returns)
  have "i = 0" if "i < (1 :: u32)" for i using that by (simp add: word_less_1)
  then show "\<forall>i < pieces sample_torrent. i \<in> cp_index `
      set (completed [ResultPieceComplete \<lparr>cp_data = [7], cp_index = 0, cp_size = 1\<rparr>])"
    by (simp add: sample_torrent_def pieces_def)
qed

text \<open>
  C23: If every reported piece carries its part of one content, the file the monitor leaves is
  that content up to the last whole piece, followed by zeros, for every order and repetition of
  the results.
\<close>

theorem monitor_writes_content_in_any_order:
  assumes "monitor_thread t rs = Some (m, queued)" and "results_ok t rs"
    and "\<forall>cp \<in> set (completed rs). cp_data cp = slice (unat (piece_length t)) (unat (cp_index cp)) content"
  shows "out_file m =
    take (unat (pieces t) * unat (piece_length t)) content @
    replicate (unat (file_length t) - unat (pieces t) * unat (piece_length t)) 0"
  using monitor_thread_content [OF assms] by (simp add: Let_def)

lemma monitor_writes_content_in_any_order_witness:
  "\<exists>m. monitor_thread sample_torrent
     [ResultPeerConnected \<lparr>raw = 1, port = 2\<rparr>, ResultPieceComplete \<lparr>cp_data = [7], cp_index = 0, cp_size = 1\<rparr>] =
     Some (m, []) \<and> out_file m = [7]"
proof -
  let ?rs = "[ResultPeerConnected \<lparr>raw = 1, port = 2\<rparr>,
    ResultPieceComplete \<lparr>cp_data = [7], cp_index = 0, cp_size = 1\<rparr>]"
  have rs: "results_ok sample_torrent ?rs"
    by (simp add: good_piece_def sample_torrent_def pieces_def piece_hash_def)
  obtain m where m: "monitor_thread sample_torrent ?rs = Some (m, [])"
    by (simp add: monitor_thread_def MonitorVisitor_def Monitor.complete_def sample_torrent_def pieces_def)
  from monitor_writes_content_in_any_order [OF m rs, of "[7]"]
  have "out_file m = [7]" by (simp add: slice_def sample_torrent_def pieces_def)
  with m show ?thesis by blast
qed

text \<open>
  C24: The number of pieces is rounded down: the pieces reach less than one piece length short
  of the end of the file, and they cover the file only if its length is a multiple of the piece
  length.
\<close>

theorem last_partial_piece_is_dropped:
  assumes "piece_length t \<noteq> 0"
  shows "unat (pieces t) * unat (piece_length t) \<le> unat (file_length t) \<and>
    unat (file_length t) - unat (pieces t) * unat (piece_length t) < unat (piece_length t) \<and>
    (unat (pieces t) * unat (piece_length t) = unat (file_length t) \<longleftrightarrow>
      unat (piece_length t) dvd unat (file_length t))"
proof -
  have "0 < unat (piece_length t)" using assms by (simp add: unat_gt_0)
  moreover have "unat (file_length t) - unat (pieces t) * unat (piece_length t) =
      unat (file_length t) mod unat (piece_length t)"
    by (simp add: unat_pieces minus_div_mult_eq_mod)
  ultimately show ?thesis
    using pieces_fit [of t] by (auto simp: unat_pieces)
qed

lemma last_partial_piece_is_dropped_witness:
  "unat (pieces (sample_torrent\<lparr>file_length := 7, piece_length := 4\<rparr>)) = 1 \<and>
   unat (file_length (sample_torrent\<lparr>file_length := 7, piece_length := 4\<rparr>)) - 1 * 4 < (4 :: nat)"
  using last_partial_piece_is_dropped [of "sample_torrent\<lparr>file_length := 7, piece_length := 4\<rparr>"]
  by (simp add: pieces_def)

text \<open>
  C25: Any sequence of messages with a type, written one after the other by serialize, is
  handled exactly in that order by the two read handlers of a peer, which cut the stream at the
  right places and go on reading, whatever follows on the connection and whatever the handlers
  of the messages do in between.
\<close>

theorem messages_survive_the_wire:
  assumes "\<forall>m \<in> set ms. message_ok m" and "map serialize ms = map Some wires"
    and "listener (ctx_tor c) p" and "torrent_ok (ctx_tor c)"
    and "length es = length ms" and "\<forall>e \<in> set es. env_ok (ctx_tor c) e"
  shows "\<exists>q. hear_all c es p (concat wires @ r) = Some (ms, q, r) \<and> listener (ctx_tor c) q"
  using hear_all_heard [OF assms(3,4,6,1,5), of r] enc_message_wires [OF assms(2)] by simp

lemma messages_survive_the_wire_witness:
  "\<exists>q. hear_all (main_ctx block_torrent) [(block_uninit 0, None), (block_uninit 1, Some 1), (block_uninit 2, None)]
       ((fst (Peer sample_addr))\<lparr>recv_buffer := [1, 2, 3, 4]\<rparr>)
       (be32 1 @ [2] @ be32 2 @ [5, 64] @ be32 5 @ [4, 0, 0, 0, 9] @ [1]) =
     Some ([interested, \<lparr>mtype = Some Bitfield, payload = [64]\<rparr>, \<lparr>mtype = Some Have, payload = [0, 0, 0, 9]\<rparr>], q, [1])"
proof -
  let ?ms = "[interested, \<lparr>mtype = Some Bitfield, payload = [64]\<rparr>, \<lparr>mtype = Some Have, payload = [0, 0, 0, 9]\<rparr>]"
    and ?p = "(fst (Peer sample_addr))\<lparr>recv_buffer := [1, 2, 3, 4]\<rparr>"
    and ?ws = "[be32 1 @ [2], be32 2 @ [5, 64], be32 5 @ [4, 0, 0, 0, 9]]"
    and ?es = "[(block_uninit 0, None), (block_uninit 1, Some 1), (block_uninit 2, None)]"
  have "map serialize ?ms = map Some ?ws" by (simp add: serialize_be32 interested_def)
  moreover have "listener (ctx_tor (main_ctx block_torrent)) ?p"
    by (simp add: listener_def peer_inv_def Peer_Correct.held_def Peer_def)
  moreover have "\<forall>e \<in> set ?es. env_ok (ctx_tor (main_ctx block_torrent)) e"
    using block_torrent_facts(3) by (simp add: env_ok_def) (simp add: block_torrent_def pieces_def)
  moreover have "\<forall>m \<in> set ?ms. message_ok m" by (simp add: message_ok_def interested_def)
  ultimately show ?thesis
    using messages_survive_the_wire [of ?ms ?ws "main_ctx block_torrent" ?p ?es "[1]"] block_torrent_facts(2) by auto
qed

text \<open>
  C26: The parsing constructor gives back the handshake that serialise wrote, for every info
  hash, extension field and peer id.
\<close>

theorem handshake_survives_the_wire:
  assumes "length h = HASH_SIZE" and "length ext = 8"
  shows "Handshake_parse j1 j2 (serialise \<lparr>protocol_str = PROTOCOL, extensions = ext, hs_info_hash = h, hs_peer_id = pid\<rparr>) =
    Some \<lparr>protocol_str = PROTOCOL, extensions = ext, hs_info_hash = h, hs_peer_id = pid\<rparr>"
  using Handshake_parse_layout [of PROTOCOL ext h j1 j2 pid] assms
  by (simp add: serialise_def PROTOCOL_def isspace_def)

lemma handshake_survives_the_wire_witness:
  "Handshake_parse 0 [] (serialise (Handshake (replicate 20 3) main_peer_id)) =
     Some (Handshake (replicate 20 3) main_peer_id)"
  using handshake_survives_the_wire [of "replicate 20 3" "replicate 8 0" 0 "[]" "takeWhile (\<lambda>c. c \<noteq> 0) main_peer_id"]
  by (simp add: Handshake_def HASH_SIZE_def)

text \<open>
  C27: The SHA1 class computes the SHA-1 function of FIPS 180-4 (stated in Sha1_Correct with
  message schedule, rounds and padding of the standard) for every message: from_string, and
  from_file of a file with that content, print its five words with eight hex digits each.
\<close>

theorem sha1_is_the_standard_function:
  "sha1_from_string m = concat (map (\<lambda>w. put_hex 8 (unat w)) (sha1_digest m)) \<and>
   sha1_from_file (Some m) = sha1_from_string m"
  using sha1_stream.one_shot [of m] by (simp add: sha1_from_file_string sha1_from_string_def)

text \<open>
  C28: The decoder gives back every value from its encoding, read from a string or from a
  stream, and stops at its last byte: integers of 64 bits, strings, lists and dicts with
  ascending keys, nested to any depth.
\<close>

theorem bencode_round_trip:
  assumes "wf_data d"
  shows "basic_decode cat (encode d @ r) = Inr (d, r)"
  by (rule basic_decode_encode [OF assms])

lemma bencode_round_trip_witness:
  "basic_decode InputIter (encode (BDict [(str ''a'', BList [BInt (- 7), BStr (str ''x'')])]) @ [0]) =
     Inr (BDict [(str ''a'', BList [BInt (- 7), BStr (str ''x'')])], [0])"
  by (rule bencode_round_trip) (simp add: wf_str_def)

text \<open>
  C29: Whatever the input, a decoded value has integers in the range of long long, strings
  shorter than 2^63 and dicts with strictly ascending keys, so encoding it and decoding that
  gives the same value.
\<close>

theorem decoded_values_are_canonical:
  assumes "basic_decode cat bs = Inr (d, r)" and "length bs < 2 ^ 63"
  shows "wf_data d \<and> basic_decode cat (encode d) = Inr (d, [])"
  using basic_decode_wf [OF assms] basic_decode_encode [of d cat "[]"] by simp

lemma decoded_values_are_canonical_witness:
  "wf_data (BList [BInt 3]) \<and> basic_decode ForwardIter (encode (BList [BInt 3])) = Inr (BList [BInt 3], [])"
proof (rule decoded_values_are_canonical)
  show "basic_decode ForwardIter (encode (BList [BInt 3]) @ [5]) = Inr (BList [BInt 3], [5])"
    by (rule basic_decode_encode) simp
  show "length (encode (BList [BInt 3]) @ [5 :: byte]) < 2 ^ 63"
    by (simp add: write_integer_def decimal.simps)
qed

text \<open>
  C30: A torrent file, the encoding of a dict with announce and info, is read with the fields
  of its info dict (32-bit lengths), with the http form of its announce string, with the list
  of hashes whose concatenation is the pieces string, and with the SHA-1 of the encoded info
  dict as info hash.
\<close>

theorem torrent_fields_of_a_torrent_file:
  assumes "wf_data (BDict m)" and "map_of m (str ''announce'') = Some (BStr ann)"
    and "map_of m (str ''info'') = Some (BDict info)"
    and "map_of info (str ''piece length'') = Some (BInt pl)" and "map_of info (str ''length'') = Some (BInt fl)"
    and "map_of info (str ''name'') = Some (BStr nm)" and "map_of info (str ''pieces'') = Some (BStr (concat hs))"
    and "map Hash_of ds = map Some hs" and "(word_of_int pl :: u32) \<noteq> 0"
  shows "SingleFileTorrent (encode (BDict m)) =
    Inr \<lparr>announce = http_announce ann, filename = nm, piece_length = word_of_int pl,
      file_length = word_of_int fl, piece_hashes = hs, info_hash = sha1_bytes (encode (BDict info))\<rparr>"
  by (rule SingleFileTorrent_encode [OF assms])

lemma torrent_fields_of_a_torrent_file_witness:
  "\<exists>t. SingleFileTorrent (encode (BDict [(str ''announce'', BStr (str ''udp://t'')),
      (str ''info'', BDict [(str ''length'', BInt 7), (str ''name'', BStr (str ''f'')),
        (str ''piece length'', BInt 4), (str ''pieces'', BStr (concat [sha1_bytes [1]]))])])) = Inr t \<and>
     pieces t = 1"
  by (subst torrent_fields_of_a_torrent_file [where hs = "[sha1_bytes [1]]" and ds = "[[1]]" and
        ann = "str ''udp://t''" and pl = 4 and fl = 7 and nm = "str ''f''" and
        info = "[(str ''length'', BInt 7), (str ''name'', BStr (str ''f'')),
          (str ''piece length'', BInt 4), (str ''pieces'', BStr (concat [sha1_bytes [1]]))]"])
    (simp_all add: wf_str_def pieces_def)

text \<open>
  C31: urlencode produces only unreserved characters, plus signs and percent escapes, and a
  form-URL decoder gives the bytes back.
\<close>

theorem url_encoding_is_safe_and_reversible:
  "urldecode (urlencode s) = Some s \<and>
   set (urlencode s) \<subseteq> {c. url_plain c} \<union> {of_char CHR ''+'', of_char CHR ''%''}"
  using urlencode_chars [of _ s] by (auto simp: urldecode_urlencode)

text \<open>
  C32: When the body of a message with an unknown type arrives, the handler starts nothing and
  gives nothing back, and from then on no conversation operation of that peer is ever
  outstanding again, so the connection is never read again.
\<close>

theorem unknown_message_silences_peer:
  assumes "reachable t s" and "(i, ReadBody n) \<in># ops s" and "try_from c = None"
    and "handle (main_ctx t) u pop (BodyRead False (c # r)) (conns s ! i) = Some (p, acts)"
    and "perform i acts (s\<lparr>conns := (conns s)[i := p], ops := ops s - {#(i, ReadBody n)#}\<rparr>) = Some s1"
    and "(sys_step (main_ctx t))\<^sup>*\<^sup>* s1 s2"
  shows "acts = [] \<and> cur_piece p = cur_piece (conns s ! i) \<and>
    {#(j, a) \<in># ops s2. j = i \<and> conversation a#} = {#}"
proof -
  have p: "acts = []" "p = received (c # r) (conns s ! i)"
    using assms(4) unknown_body [OF assms(3)] by simp_all
  then have "talking i s2 = 0"
    using unknown_body_silence [OF assms(1,2), of "(conns s)[i := p]" s2] assms(5,6) by simp
  with p show ?thesis by (simp add: talking_def received_def)
qed

lemma unknown_message_silences_peer_witness:
  "\<exists>s. reachable sample_torrent s \<and> (0, ReadBody 1) \<in># ops s \<and>
     {#(j, a) \<in># ops (s\<lparr>conns := (conns s)[0 := received [9] (conns s ! 0)], ops := ops s - {#(0, ReadBody 1)#}\<rparr>).
       j = 0 \<and> conversation a#} = {#}"
proof -
  have u: "try_from 9 = None" by (simp add: try_from_def)
  obtain p msg where "underway sample_torrent (sample_state p {#(0, ReadBody 1), (0, WriteMessage msg)#} {#0#}
      [ResultPeerConnected sample_addr] [] (MonitorVisitor sample_torrent))" (is "underway _ ?s")
    using sample_announced by blast
  then have "reachable sample_torrent ?s" "(0, ReadBody 1) \<in># ops ?s"
    by (simp_all add: sample_reachable) (simp add: sample_state_def)
  from unknown_message_silences_peer [OF this u unknown_body [OF u] perform.simps(1) rtranclp.rtrancl_refl] this
  show ?thesis by blast
qed

text \<open>
  C33: However often the operating system interrupts or shortens a send and however the call
  ends, what has been written is a prefix of the request line, the accepted header fields, a
  blank line and the body, in this order and without gaps; a request that send completes has
  been written whole and no header field contains a line end. A scheme other than http ends
  with the exception that says so: nothing is written and no call is made but the reading of
  the clock.
\<close>

theorem request_arrives_whole:
  assumes "Request_send junk p u method body hs tmo w = Some (r, w')"
  shows "(\<exists>k. sent w' = sent w @ take k (encodeRequestLine method (request_target u) @
        concat (map encode_field (all_fields u body hs)) @ crlf @ body)) \<and>
    (\<forall>resp. r = Inr resp \<longrightarrow> uri_scheme u = str ''http'' \<and>
      sent w' = sent w @ encodeRequestLine method (request_target u) @
        concat (map encode_field (all_fields u body hs)) @ crlf @ body \<and>
      (\<forall>f \<in> set (all_fields u body hs). {0x0D, 0x0A} \<inter> set (fst f @ snd f) = {})) \<and>
    (uri_scheme u \<noteq> str ''http'' \<longrightarrow>
      r = Inl (RequestError (str ''Only HTTP scheme is supported'')) \<and>
      sent w' = sent w \<and> trace w' = trace w @ [Clock (clock w (readings w))])"
proof -
  have "uri_scheme u = str ''http'' \<and> sent w' = sent w @ request_bytes_of u method body hs \<and>
      (\<forall>f \<in> set (all_fields u body hs). {0x0D, 0x0A} \<inter> set (fst f @ snd f) = {})" if "r = Inr resp" for resp
    by (rule completed_request_sent [OF assms [unfolded that]])
  with Request_send_prefix [OF assms] Request_send_other_scheme [OF assms] show ?thesis
    by (simp add: request_bytes_of_def only_http_def)
qed

lemma request_arrives_whole_witness:
  "\<exists>r w'. Request_send ((0, 0), 0) v4 tracker_uri (str ''GET'') [] [] 500 (quick_os tracker_data chunked_segments) = Some (Inr r, w') \<and>
     sent w' = encodeRequestLine (str ''GET'') (request_target tracker_uri) @
       concat (map encode_field (all_fields tracker_uri [] [])) @ crlf"
proof -
  let ?segs = "chunked_segments"
  obtain dl sk w1 where w1:
      "start_request v4 tracker_uri (str ''GET'') [] [] 500 (quick_os tracker_data ?segs) = Some (Inr (dl, sk), w1)"
    "delivers dl sk w1 ?segs"
    using start_quick [OF tracker_encode] by blast
  have "\<exists>w'. recv_loop dl sk (initial_state ((0, 0), 0)) w1 =
      Some (Inr (read_response ok_status chunked_fields (concat [str ''x''])), w')"
    by (rule chunked_read [OF head_ok_samples(2) framed_samples(2) _ w1(2) _ chunked_segments_concat])
      (auto simp: chunk_ok_def chunked_segments_def response_head_neq_Nil crlf_def)
  then obtain r w' where run: "Request_send ((0, 0), 0) v4 tracker_uri (str ''GET'') [] [] 500 (quick_os tracker_data ?segs) =
      Some (Inr r, w')"
    using Request_send_started [OF w1(1), of "((0, 0), 0)"] by (auto simp: at_exit_def)
  from request_arrives_whole [OF run] have "sent w' = encodeRequestLine (str ''GET'') (request_target tracker_uri) @
      concat (map encode_field (all_fields tracker_uri [] [])) @ crlf"
    by (simp add: quick_os_def [of _ "_ :: bytes list"])
  with run show ?thesis by blast
qed

text \<open>
  C34: For an announce string http://host[:port][path] the URL that send_request builds is
  taken apart by parseUri into exactly that host, port and path (a slash when there is none)
  and the query with the announce parameters; nothing of it becomes user information or
  fragment.
\<close>

theorem tracker_url_is_taken_apart:
  assumes "announce t = uri_text host prt path" and "uri_text_ok host prt path"
  shows "parseUri (request_url t) =
    Inr \<lparr>uri_scheme = str ''http'', uri_user = [], uri_password = [], uri_host = host,
      uri_port = (case prt of None \<Rightarrow> [] | Some p \<Rightarrow> p),
      uri_path = (if path = [] then str ''/'' else path), uri_query = request_query t, uri_fragment = []\<rparr>"
  using parse_request_url [OF assms] by (simp add: http_uri_def)

lemma tracker_url_is_taken_apart_witness:
  "parseUri (request_url (sample_torrent\<lparr>announce := str ''http://a.b:80/x@y''\<rparr>)) =
     Inr \<lparr>uri_scheme = str ''http'', uri_user = [], uri_password = [], uri_host = str ''a.b'',
       uri_port = str ''80'', uri_path = str ''/x@y'',
       uri_query = request_query (sample_torrent\<lparr>announce := str ''http://a.b:80/x@y''\<rparr>), uri_fragment = []\<rparr>"
  by (subst tracker_url_is_taken_apart [where host = "str ''a.b''" and prt = "Some (str ''80'')" and path = "str ''/x@y''"])
    (simp_all add: uri_text_def uri_text_ok_def)

text \<open>
  C35: When the first segment that arrives does not contain the end of the head, send gives up
  without an error: it returns a response without fields or body, whatever the server sends
  after it.
\<close>

theorem cut_head_gives_empty_response:
  assumes "start_request p u method body hs tmo w = Some (Inr (dl, sk), w1)" and "delivers dl sk w1 [seg]"
    and "seg \<noteq> []"
    and "find_sub (crlf @ crlf) seg = None"
  shows "\<exists>w'. Request_send junk p u method body hs tmo w =
    Some (Inr \<lparr>resp_status = \<lparr>http_version = fst junk, status_code = snd junk, reason = []\<rparr>,
      resp_headers = [], resp_body = []\<rparr>, w')"
  using cut_head_empty [OF assms(2-4), of junk] Request_send_started [OF assms(1), of junk]
  by (auto simp: initial_state_def at_exit_def)

lemma cut_head_gives_empty_response_witness:
  "\<exists>w w'. Request_send ((0, 0), 0) v4 tracker_uri (str ''GET'') [] [] no_timeout w =
     Some (Inr \<lparr>resp_status = \<lparr>http_version = (0, 0), status_code = 0, reason = []\<rparr>,
       resp_headers = [], resp_body = []\<rparr>, w')"
proof -
  let ?seg = "str ''HTTP/1.1''"
  obtain dl sk w1 where w1:
      "start_request v4 tracker_uri (str ''GET'') [] [] no_timeout (quick_os tracker_data [?seg]) = Some (Inr (dl, sk), w1)"
    "delivers dl sk w1 [?seg]"
    using start_quick [OF tracker_encode] by blast
  have "find_sub (crlf @ crlf) ?seg = None" by (simp add: crlf_def)
  with cut_head_gives_empty_response [OF w1] show ?thesis by fastforce
qed

text \<open>
  C36: In any sequence of constructions, moves, assignments and destructions of Socket objects
  no descriptor is released twice, every open descriptor is held by exactly one object, and
  when all objects have been destroyed none is open.
\<close>

theorem moved_sockets_release_once:
  shows "case own_run socket_members prg no_objects of
      Inl f \<Rightarrow> f = Dead_object
    | Inr s \<Rightarrow> open_handles s = all_held socket_members (objects s) \<and>
        (set (objects s) \<subseteq> {None} \<longrightarrow> open_handles s = {#})"
  using sockets.run_from_empty [of prg] all_destroyed by (auto split: sum.splits)

lemma moved_sockets_release_once_witness:
  "\<exists>s. own_run socket_members
      [Construct \<lparr>endpoint = 3\<rparr>, MoveConstruct 0, Construct \<lparr>endpoint = 4\<rparr>, MoveAssign 2 1, MoveAssign 2 2,
       Destroy 2, Destroy 1, Destroy 0] no_objects = Inr s \<and> open_handles s = {#}"
proof -
  let ?ops = "[Construct \<lparr>endpoint = 3\<rparr>, MoveConstruct 0, Construct \<lparr>endpoint = 4\<rparr>, MoveAssign 2 1, MoveAssign 2 2,
       Destroy 2, Destroy 1, Destroy 0]"
  obtain s where s: "own_run socket_members ?ops no_objects = Inr s" "set (objects s) \<subseteq> {None}"
    by (simp add: no_objects_def socket_members_def socket_held_def socket_move_construct_def invalid_def
        socket_move_assign_def live_object_def release_handles_def and_then_def)
  from moved_sockets_release_once [of ?ops, unfolded s(1) sum.case] s(2) have "open_handles s = {#}" by blast
  with s(1) show ?thesis by blast
qed

text \<open>
  C37: A dict written entry by entry, in whatever order, is read back as the map of its entries
  when the keys are distinct, and refused otherwise, with the name of the first key that
  repeats an earlier one.
\<close>

theorem entries_in_any_order:
  assumes "entries_ok es"
  shows "if distinct (map fst es)
    then \<exists>m. basic_decode cat (encode_map es [] @ r) = Inr (BDict m, r) \<and> sorted_keys m \<and> map_of m = map_of es
    else \<exists>a k x b off. es = a @ (k, x) # b \<and> distinct (map fst a) \<and> k \<in> fst ` set a \<and>
      basic_decode cat (encode_map es [] @ r) = Inl (Throw (decode_error_of (str ''duplicated key in dict: '' @ k) off))"
proof (cases "distinct (map fst es)")
  case True
  with encode_map_decodes [OF assms] show ?thesis by simp
next
  case False
  with encode_map_duplicate [OF assms False, of cat r] show ?thesis by (simp add: duplicate_key_def)
qed

lemma entries_in_any_order_witness:
  "(\<exists>m. basic_decode InputIter (encode_map [(str ''b'', BInt 1), (str ''a'', BStr (str ''x''))] []) = Inr (BDict m, []) \<and>
     map_of m (str ''a'') = Some (BStr (str ''x''))) \<and>
   (\<exists>off. basic_decode ForwardIter (encode_map [(str ''c'', BInt 2), (str ''b'', BInt 1), (str ''b'', BList [])] []) =
     Inl (Throw (decode_error_of (str ''duplicated key in dict: b'') off)))"
proof -
  let ?two = "[(str ''b'', BInt 1), (str ''a'', BStr (str ''x''))]"
    and ?same = "[(str ''c'', BInt 2), (str ''b'', BInt 1), (str ''b'', BList [])]"
  have ok: "entries_ok ?two" "entries_ok ?same" by (simp_all add: entries_ok_def wf_str_def)
  have "\<not> distinct (map fst ?same)" by simp
  from entries_in_any_order [OF ok(2), of ForwardIter "[]", unfolded if_not_P [OF this] append_Nil2]
  obtain a k x b off where
    same: "?same = a @ (k, x) # b" "distinct (map fst a)" "k \<in> fst ` set a"
    and dec: "basic_decode ForwardIter (encode_map ?same []) =
      Inl (Throw (decode_error_of (str ''duplicated key in dict: '' @ k) off))" by blast
  then have "k = str ''b''" by (auto simp: Cons_eq_append_conv)
  with dec have "\<exists>off. basic_decode ForwardIter (encode_map ?same []) =
      Inl (Throw (decode_error_of (str ''duplicated key in dict: b'') off))" by auto
  moreover have "distinct (map fst ?two)" by simp
  with entries_in_any_order [OF ok(1), of InputIter "[]"] have "\<exists>m. basic_decode InputIter (encode_map ?two []) =
      Inr (BDict m, []) \<and> map_of m (str ''a'') = Some (BStr (str ''x''))" by fastforce
  ultimately show ?thesis by blast
qed

text \<open>
  C38: Decoding from a stream gives the value and the rest that decoding from a string gives,
  sets eofbit exactly when asked to at the end of the stream, and throws the same message with
  offset 0; where the string version reads past its end on a length of 2^63 or more the stream
  version throws or does the same.
\<close>

theorem stream_decoding_agrees:
  assumes "length (rest s) < 2 ^ 63"
  shows "case basic_decode ForwardIter (rest s) of
      Inr (d, r) \<Rightarrow> decode_istream e s =
        Inr (d, s\<lparr>rest := r, eofbit := eofbit s \<or> (e = check_eof \<and> r = [])\<rparr>)
    | Inl (Throw x) \<Rightarrow> \<exists>msg off. x = decode_error_of msg off \<and>
        decode_istream e s = Inl (Throw (decode_error_of msg 0))
    | Inl Undefined \<Rightarrow> decode_istream e s = Inl Undefined \<or>
        decode_istream e s = Inl (Throw (decode_error_of (what StringTooLong) 0))"
  using basic_decode_same [OF assms] by (auto simp: decode_istream_def split: sum.splits fault.splits prod.splits)

lemma stream_decoding_agrees_witness:
  "decode_istream check_eof (is_open (encode (BList [BInt 3]))) =
     Inr (BList [BInt 3], (is_open (encode (BList [BInt 3])))\<lparr>rest := [], eofbit := True\<rparr>)"
proof -
  let ?s = "is_open (encode (BList [BInt 3]))"
  have "length (rest ?s) < 2 ^ 63" by (simp add: is_open_def write_integer_def decimal.simps)
  moreover have "basic_decode ForwardIter (rest ?s) = Inr (BList [BInt 3], [])"
    using basic_decode_encode [of "BList [BInt 3]" ForwardIter "[]"]
    by (simp add: is_open_def del: encode.simps)
  ultimately show ?thesis using stream_decoding_agrees [of ?s check_eof] by (simp del: encode.simps)
qed

text \<open>
  C39: Any program of insertions, assignments, erasures, look-ups and counts on a fresh
  map_proxy answers what the same program on a finite function from keys to values answers,
  errors included; after a move every such operation on the source is undefined.
\<close>

theorem map_proxy_is_a_map:
  "refines (mp_run d prg mp_new) (spec_run d prg Map.empty) \<and> mp_exec d opn (snd (mp_move p)) = Inl Undefined"
  using run_refines [of "[]" d prg] moved_from_undefined by (simp add: mp_new_def)

text \<open>
  C40: The reports of the monitor change nothing of what it writes; the time in its last line
  is that of the last report that was made, so a download whose pieces all arrive within half a
  second reports 0 seconds and a division of its size by zero.
\<close>

theorem summary_time_is_the_last_report:
  assumes "reporter_thread t t0 rns = Some (m, reps, queued)"
  shows "monitor_thread t (map fst rns) = Some (visitor m, map fst queued) \<and>
    elapsed m = (if reps = [] then 0 else rep_elapsed (last reps)) \<and>
    ((\<forall>(x, now) \<in> set rns. millis now t0 \<le> 500) \<longrightarrow>
      reps = [] \<and> summary t m = (0, fdiv (rat_of_nat (unat (file_length t)) / (1024 * 1024)) 0))"
proof -
  from assms have loop: "reporter_loop t (Reporter t t0) rns = Some (m, reps, queued)"
    by (simp add: reporter_thread_def)
  have start: "elapsed (Reporter t t0) = 0" "last_report (Reporter t t0) = t0" by (simp_all add: Reporter_def)
  from reporter_thread_visitor [of t t0 rns] assms have "monitor_thread t (map fst rns) = Some (visitor m, map fst queued)"
    by simp
  moreover have "elapsed m = (if reps = [] then 0 else rep_elapsed (last reps))"
    using reporter_loop_elapsed [OF loop timed_Reporter] start by simp
  moreover have "reps = [] \<and> elapsed m = 0" if "\<forall>(x, now) \<in> set rns. millis now t0 \<le> 500"
    using reporter_loop_quiet [OF loop] that start by simp
  ultimately show ?thesis by (simp add: summary_def)
qed

lemma summary_time_is_the_last_report_witness:
  "\<exists>m. reporter_thread sample_torrent 0 [(ResultPieceComplete sample_result, 400000000)] = Some (m, [], []) \<and>
     out_file (visitor m) = [7] \<and> fst (summary sample_torrent m) = 0 \<and> snd (summary sample_torrent m) = Infinite"
proof -
  let ?rns = "[(ResultPieceComplete sample_result, 400000000)]"
  have p: "pieces sample_torrent = 1" "file_length sample_torrent = 1"
    by (simp_all add: pieces_def sample_torrent_def)
  obtain m where run: "reporter_thread sample_torrent 0 ?rns = Some (m, [], [])" and "out_file (visitor m) = [7]"
    by (simp add: reporter_thread_def Reporter_def Monitor.complete_def visit_at_def is_piece_def Let_def
        MonitorVisitor_def p sample_result_def file_write_def cp_offset_def)
  moreover have "millis 400000000 0 \<le> 500" by (simp add: millis_def signed_divide_int_def)
  ultimately show ?thesis
    using summary_time_is_the_last_report [OF run] by (auto simp: fdiv_def p)
qed

end
